(* ===== verification/Prelude.thy ===== *)
theory Prelude
  imports Main "HOL-Library.Word" "HOL-Library.Monad_Syntax"
begin

unbundle bit_operations_syntax

section \<open>Shared types, constants and lemmas\<close>

text \<open>
  What every component uses: the machine's integer types, the constants of
  \<^verbatim>\<open>library/egos.h\<close>, \<^verbatim>\<open>library/file/disk.h\<close> and
  \<^verbatim>\<open>library/servers/servers.h\<close>, and the generic lemmas on lists, little-endian
  words and modular indices. \<open>char\<close> is unsigned on RISC-V, so a byte is an \<open>8 word\<close>.
  A function that may never give control back (it polls a device for ever, or it calls
  \<^verbatim>\<open>FATAL\<close>, which prints and then spins in \<^verbatim>\<open>while (1);\<close>) returns an
  \<open>option\<close>: \<open>None\<close> means that the call never returns.
\<close>

type_synonym byte = "8 word"
type_synonym u32 = "32 word"
type_synonym u64 = "64 word"

named_theorems ring_simps \<open>index arithmetic of the ring buffers\<close>
named_theorems kernel_simps \<open>field accessors after the kernel's primitive updates\<close>
named_theorems store_simps \<open>read-over-write facts of block stores\<close>

subsection \<open>Constants of the headers\<close>

abbreviation (input) PAGE_SIZE :: nat where "PAGE_SIZE \<equiv> 4096"
abbreviation (input) BLOCK_SIZE :: nat where "BLOCK_SIZE \<equiv> 512"
abbreviation (input) DEV_BUFF_SIZE :: int where "DEV_BUFF_SIZE \<equiv> 128"
abbreviation (input) SYSCALL_MSG_LEN :: nat where "SYSCALL_MSG_LEN \<equiv> 1024"
abbreviation (input) MAX_NPROCESS :: nat where "MAX_NPROCESS \<equiv> 16"
abbreviation (input) APPS_ENTRY :: u32 where "APPS_ENTRY \<equiv> 0x08005000"
abbreviation (input) APPS_ARG :: u32 where "APPS_ARG \<equiv> 0x80000000"

abbreviation (input) RET_SPECIAL_CHAR :: int where "RET_SPECIAL_CHAR \<equiv> - 3"
abbreviation (input) SPECIAL_CTRL_C :: int where "SPECIAL_CTRL_C \<equiv> 3"

text \<open>\<^verbatim>\<open>enum grass_servers\<close>: the pids of the system processes.\<close>

abbreviation (input) GPID_PROCESS :: int where "GPID_PROCESS \<equiv> 1"
abbreviation (input) GPID_FILE :: int where "GPID_FILE \<equiv> 2"
abbreviation (input) GPID_DIR :: int where "GPID_DIR \<equiv> 3"
abbreviation (input) GPID_SHELL :: int where "GPID_SHELL \<equiv> 4"
abbreviation (input) GPID_USER_START :: int where "GPID_USER_START \<equiv> 5"

subsection \<open>First index that satisfies a predicate\<close>

text \<open>The idiom \<^verbatim>\<open>for (i = 0; i < N; i++) if (P(a[i])) { ...; return; }\<close>.\<close>

fun find_index :: "('a \<Rightarrow> bool) \<Rightarrow> 'a list \<Rightarrow> nat option" where
  "find_index P [] = None"
| "find_index P (x # xs) = (if P x then Some 0 else map_option Suc (find_index P xs))"

lemma find_index_None_iff: "find_index P xs = None \<longleftrightarrow> (\<forall>x\<in>set xs. \<not> P x)"
  by (induction xs) auto

lemma find_index_SomeD:
  assumes "find_index P xs = Some i"
  shows "i < length xs" "P (xs ! i)" "\<forall>j<i. \<not> P (xs ! j)"
proof -
  have "i < length xs \<and> P (xs ! i) \<and> (\<forall>j<i. \<not> P (xs ! j))"
    using assms
  proof (induction xs arbitrary: i)
    case Nil
    then show ?case by simp
  next
    case (Cons x xs)
    show ?case
    proof (cases "P x")
      case True
      with Cons.prems show ?thesis by simp
    next
      case False
      with Cons.prems obtain k where k: "find_index P xs = Some k" "i = Suc k"
        by (auto split: option.splits)
      with Cons.IH [OF k(1)] False show ?thesis
        by (auto simp: less_Suc_eq_0_disj)
    qed
  qed
  then show "i < length xs" "P (xs ! i)" "\<forall>j<i. \<not> P (xs ! j)" by auto
qed

subsection \<open>Little-endian 32-bit words inside byte arrays\<close>

text \<open>
  \<open>get32 b i\<close> reads \<^verbatim>\<open>((unsigned int *) b)[i]\<close> and \<open>put32 b i v\<close> stores it, on a
  little-endian machine. An \<^verbatim>\<open>int\<close> is the same four bytes read in two's complement.
\<close>

definition get32 :: "byte list \<Rightarrow> nat \<Rightarrow> nat" where
  "get32 b i = unat (b ! (4 * i)) + 256 * unat (b ! (4 * i + 1))
     + 65536 * unat (b ! (4 * i + 2)) + 16777216 * unat (b ! (4 * i + 3))"

definition put32 :: "byte list \<Rightarrow> nat \<Rightarrow> nat \<Rightarrow> byte list" where
  "put32 b i v = b[4 * i := of_nat v, 4 * i + 1 := of_nat (v div 256),
     4 * i + 2 := of_nat (v div 65536), 4 * i + 3 := of_nat (v div 16777216)]"

definition int_of_u32 :: "nat \<Rightarrow> int" where
  "int_of_u32 v = (if v < 2147483648 then int v else int v - 4294967296)"

definition u32_of_int :: "int \<Rightarrow> nat" where
  "u32_of_int v = nat (v mod 4294967296)"

lemma length_put32 [simp]: "length (put32 b i v) = length b"
  by (simp add: put32_def)

lemma unat_byte_of_nat: "unat (of_nat n :: byte) = n mod 256"
  by (simp add: unat_of_nat)

lemma unat_byte_less: "unat (x :: byte) < 256"
  using unsigned_less [where ?'b = 8 and ?'a = nat, of x] by simp

lemma le32_split:
  "v mod 256 + 256 * (v div 256 mod 256) + 65536 * (v div 65536 mod 256)
     + 16777216 * (v div 16777216 mod 256) = v mod 4294967296" for v :: nat
proof -
  have "v mod (256 * (256 * (256 * 256))) =
      256 * (v div 256 mod (256 * (256 * 256))) + v mod 256"
    by (rule mod_mult2_eq)
  also have "v div 256 mod (256 * (256 * 256)) =
      256 * (v div 256 div 256 mod (256 * 256)) + v div 256 mod 256"
    by (rule mod_mult2_eq)
  also have "v div 256 div 256 mod (256 * 256) =
      256 * (v div 256 div 256 div 256 mod 256) + v div 256 div 256 mod 256"
    by (rule mod_mult2_eq)
  finally show ?thesis
    by (simp add: div_mult2_eq [symmetric])
qed

lemma get32_put32_same [store_simps]:
  assumes "4 * i + 3 < length b"
  shows "get32 (put32 b i v) i = v mod 4294967296"
  using assms by (simp add: get32_def put32_def nth_list_update unat_byte_of_nat le32_split)

lemma get32_put32_other [store_simps]:
  assumes "i \<noteq> j"
  shows "get32 (put32 b i v) j = get32 b j"
proof -
  have "4 * i + k \<noteq> 4 * j + l" if "k < 4" "l < 4" for k l :: nat
    using assms that by presburger
  note neq = this
  have "(put32 b i v) ! (4 * j + l) = b ! (4 * j + l)" if "l < 4" for l
    using that neq [of 0 l] neq [of 1 l] neq [of 2 l] neq [of 3 l]
    by (simp add: put32_def)
  from this [of 0] this [of 1] this [of 2] this [of 3] show ?thesis
    by (simp add: get32_def)
qed

lemma get32_less: "get32 b i < 4294967296"
  using unat_byte_less [of "b ! (4 * i)"] unat_byte_less [of "b ! (4 * i + 1)"]
    unat_byte_less [of "b ! (4 * i + 2)"] unat_byte_less [of "b ! (4 * i + 3)"]
  by (simp add: get32_def)

lemma get32_replicate0:
  "4 * i + 3 < n \<Longrightarrow> get32 (replicate n 0) i = 0"
  by (simp add: get32_def)

lemma int_of_u32_of_int:
  "- 2147483648 \<le> v \<Longrightarrow> v < 2147483648 \<Longrightarrow> int_of_u32 (u32_of_int v) = v"
  unfolding int_of_u32_def u32_of_int_def
proof (cases "0 \<le> v")
  case False
  assume "- 2147483648 \<le> v"
  then have "(v + 4294967296) mod 4294967296 = v + 4294967296"
    using False by (intro mod_pos_pos_trivial) simp_all
  then have "v mod 4294967296 = v + 4294967296"
    by (simp only: mod_add_self2)
  with \<open>- 2147483648 \<le> v\<close> False
  show "(if nat (v mod 4294967296) < 2147483648 then int (nat (v mod 4294967296))
     else int (nat (v mod 4294967296)) - 4294967296) = v" by simp
qed simp

end
