(* ===== verification/Tty.thy ===== *)
theory Tty
  imports Prelude
begin

section \<open>The UART and the buffered tty driver\<close>

text \<open>
  \<^verbatim>\<open>earth/bus_uart.c\<close> and \<^verbatim>\<open>earth/dev_tty.c\<close>. The UART is a device, so what its
  registers return is an input of the model: \<open>rxdata u n\<close>, \<open>txdata u n\<close> and
  \<open>uart_ip u n\<close> are the values of the \<open>n\<close>-th read of the RXDATA, TXDATA and IP
  registers, for any device; the counters say how many reads have happened, and
  \<open>uart_out\<close> is the sequence of words the driver has stored to TXDATA.
  Each of the two buffers of \<^verbatim>\<open>dev_tty.c\<close> is a ring of 128 characters; \<open>tb_list\<close>
  reads a ring as the queue it stands for, and the locale \<open>byte_queue\<close> is the contract
  of a bounded queue, which the ring operations are shown to meet.
\<close>

subsection \<open>UART0 registers (earth/bus\_uart.c)\<close>

record uart =
  rxdata :: "nat \<Rightarrow> u32"
  rxcount :: nat
  txdata :: "nat \<Rightarrow> u32"
  txcount :: nat
  uart_ip :: "nat \<Rightarrow> u32"
  ipcount :: nat
  uart_out :: "u32 list"
  uart_ie :: u32
  uart_txctrl :: u32
  uart_rxctrl :: u32
  uart_div :: u32
  gpio_iof :: u32

definition CPU_CLOCK_RATE :: int where "CPU_CLOCK_RATE = 65000000"

definition uart_init :: "int \<Rightarrow> uart \<Rightarrow> uart" where
  "uart_init baud_rate u =
    (let u = u\<lparr>uart_div := word_of_int (CPU_CLOCK_RATE div baud_rate - 1)\<rparr>;
         u = u\<lparr>uart_txctrl := uart_txctrl u OR 1\<rparr>;
         u = u\<lparr>uart_rxctrl := uart_rxctrl u OR 1\<rparr>;
         u = u\<lparr>gpio_iof := gpio_iof u OR (push_bit 16 1 OR push_bit 17 1)\<rparr>;
         u = u\<lparr>uart_txctrl := uart_txctrl u OR 0x30000\<rparr>
     in u\<lparr>uart_ie := uart_ie u OR 2\<rparr>)"

definition uart_pend_intr :: "uart \<Rightarrow> u32 \<times> uart" where
  "uart_pend_intr u = (uart_ip u (ipcount u), u\<lparr>ipcount := Suc (ipcount u)\<rparr>)"

definition uart_txen :: "uart \<Rightarrow> uart" where
  "uart_txen u = u\<lparr>uart_ie := uart_ie u OR 1\<rparr>"

definition uart_txdis :: "uart \<Rightarrow> uart" where
  "uart_txdis u = u\<lparr>uart_ie := uart_ie u AND NOT 1\<rparr>"

definition uart_getc :: "uart \<Rightarrow> int \<times> uart" where
  "uart_getc u =
    (let ch = rxdata u (rxcount u); u' = u\<lparr>rxcount := Suc (rxcount u)\<rparr>
     in (if ch AND push_bit 31 1 \<noteq> 0 then - 1 else uint (ch AND 0xFF), u'))"

definition uart_putc :: "int \<Rightarrow> uart \<Rightarrow> int \<times> uart" where
  "uart_putc c u =
    (let is_full = txdata u (txcount u) AND push_bit 31 1;
         u' = u\<lparr>txcount := Suc (txcount u)\<rparr>
     in if is_full \<noteq> 0 then (- 1, u')
        else (0, u'\<lparr>uart_out := uart_out u' @ [word_of_int c]\<rparr>))"

subsection \<open>The tty buffers (earth/dev\_tty.c)\<close>

record tty_buff =
  tb_buf :: "byte list"
  tb_size :: int
  tb_head :: int
  tb_tail :: int

record tty =
  tty_read_buf :: tty_buff
  tty_write_buf :: tty_buff
  tty_uart :: uart
  is_kernel :: bool

definition tb_zero :: tty_buff where
  "tb_zero = \<lparr>tb_buf = replicate 128 0, tb_size = 0, tb_head = 0, tb_tail = 0\<rparr>"

definition tty_buff_init :: "tty \<Rightarrow> tty" where
  "tty_buff_init t = t\<lparr>tty_read_buf := tb_zero, tty_write_buf := tb_zero\<rparr>"

text \<open>\<^verbatim>\<open>tty_write_kernel\<close> polls the UART until each character is taken.\<close>

partial_function (option) uart_putc_poll :: "int \<Rightarrow> uart \<Rightarrow> uart option" where
  "uart_putc_poll c u =
    (case uart_putc c u of (rc, u') \<Rightarrow> if rc = - 1 then uart_putc_poll c u' else Some u')"

fun tty_write_kernel_loop :: "byte list \<Rightarrow> uart \<Rightarrow> uart option" where
  "tty_write_kernel_loop [] u = Some u"
| "tty_write_kernel_loop (c # cs) u =
    do { u' \<leftarrow> uart_putc_poll (uint c) u; tty_write_kernel_loop cs u' }"

definition tty_write_kernel :: "byte list \<Rightarrow> tty \<Rightarrow> (int \<times> tty) option" where
  "tty_write_kernel msg t =
    do { u \<leftarrow> tty_write_kernel_loop msg (tty_uart t);
         Some (int (length msg), t\<lparr>tty_uart := u\<rparr>) }"

text \<open>
  \<^verbatim>\<open>tty_write_uart\<close>: the loop hands characters to the UART until the buffer is empty
  or the UART is full; \<open>rc\<close> is the source's variable of that name.
\<close>

function tty_write_uart_loop :: "int \<Rightarrow> tty_buff \<Rightarrow> uart \<Rightarrow> int \<times> tty_buff \<times> uart" where
  "tty_write_uart_loop rc b u =
    (if tb_size b > 0 then
       (case uart_putc (uint (tb_buf b ! nat (tb_head b))) u of (rc', u') \<Rightarrow>
          if rc' = - 1 then (rc', b, uart_txen u')
          else tty_write_uart_loop rc'
                 (b\<lparr>tb_head := (tb_head b + 1) mod DEV_BUFF_SIZE, tb_size := tb_size b - 1\<rparr>) u')
     else (rc, b, u))"
  by pat_completeness auto
termination
  by (relation "measure (\<lambda>(rc, b, u). nat (tb_size b))") auto

declare tty_write_uart_loop.simps [simp del]

definition tty_write_uart :: "tty \<Rightarrow> tty" where
  "tty_write_uart t =
    (case tty_write_uart_loop 0 (tty_write_buf t) (tty_uart t) of (rc, b, u) \<Rightarrow>
       t\<lparr>tty_write_buf := b, tty_uart := (if rc = 0 then uart_txdis u else u)\<rparr>)"

text \<open>\<open>msg i\<close> is the byte the C code reads as \<^verbatim>\<open>msg[i]\<close>.\<close>

fun tty_write_buff_loop :: "(nat \<Rightarrow> byte) \<Rightarrow> nat \<Rightarrow> nat \<Rightarrow> tty_buff \<Rightarrow> tty_buff" where
  "tty_write_buff_loop msg i 0 b = b"
| "tty_write_buff_loop msg i (Suc n) b =
    tty_write_buff_loop msg (Suc i) n
      (b\<lparr>tb_buf := (tb_buf b)[nat (tb_tail b) := msg i],
         tb_tail := (tb_tail b + 1) mod DEV_BUFF_SIZE\<rparr>)"

definition tty_write_buff :: "(nat \<Rightarrow> byte) \<Rightarrow> int \<Rightarrow> tty_buff \<Rightarrow> tty_buff" where
  "tty_write_buff msg len b =
    (if len > DEV_BUFF_SIZE - tb_size b then b
     else let b' = tty_write_buff_loop msg 0 (nat len) b
          in b'\<lparr>tb_size := tb_size b' + len\<rparr>)"

definition tty_write :: "(nat \<Rightarrow> byte) \<Rightarrow> int \<Rightarrow> tty \<Rightarrow> int \<times> tty" where
  "tty_write msg len t =
    (if len > DEV_BUFF_SIZE then (- 2, t)
     else if len > DEV_BUFF_SIZE - tb_size (tty_write_buf t) then (- 1, t)
     else (0, tty_write_uart (t\<lparr>tty_write_buf := tty_write_buff msg len (tty_write_buf t)\<rparr>)))"

text \<open>
  \<^verbatim>\<open>tty_read_uart\<close>: the character is stored at \<^verbatim>\<open>rx_tail\<close> before the test for a
  free slot, as in the source. The loop ends at the first empty read or at Ctrl-C.
\<close>

definition tty_read_uart_store :: "int \<Rightarrow> tty_buff \<Rightarrow> tty_buff" where
  "tty_read_uart_store c b =
    (let b = b\<lparr>tb_buf := (tb_buf b)[nat (tb_tail b) := word_of_int c]\<rparr>
     in if tb_size b < DEV_BUFF_SIZE
        then b\<lparr>tb_tail := (tb_tail b + 1) mod DEV_BUFF_SIZE, tb_size := tb_size b + 1\<rparr>
        else b)"

partial_function (option) tty_read_uart_loop ::
    "int \<Rightarrow> tty_buff \<Rightarrow> uart \<Rightarrow> (int \<times> tty_buff \<times> uart) option" where
  "tty_read_uart_loop c b u =
    (if c = SPECIAL_CTRL_C then Some (RET_SPECIAL_CHAR, tty_read_uart_store c b, u)
     else if fst (uart_getc u) = - 1 then Some (0, tty_read_uart_store c b, snd (uart_getc u))
     else tty_read_uart_loop (fst (uart_getc u)) (tty_read_uart_store c b) (snd (uart_getc u)))"

definition tty_read_uart :: "tty \<Rightarrow> (int \<times> tty) option" where
  "tty_read_uart t =
    (case uart_getc (tty_uart t) of (c, u) \<Rightarrow>
       if c = - 1 then Some (- 1, t\<lparr>tty_uart := u\<rparr>)
       else do { (rc, b, u') \<leftarrow> tty_read_uart_loop c (tty_read_buf t) u;
                 Some (rc, t\<lparr>tty_read_buf := b, tty_uart := u'\<rparr>) })"

text \<open>The second component is what is stored to \<^verbatim>\<open>*ret_val\<close>: \<open>None\<close> if nothing is.\<close>

definition tty_read :: "tty \<Rightarrow> int \<times> byte option \<times> tty" where
  "tty_read t =
    (let b = tty_read_buf t in
     if tb_size b = 0 then (- 1, None, t)
     else (0, Some (tb_buf b ! nat (tb_head b)),
           t\<lparr>tty_read_buf := b\<lparr>tb_head := (tb_head b + 1) mod DEV_BUFF_SIZE,
                               tb_size := tb_size b - 1\<rparr>\<rparr>))"

definition tty_read_tail :: "tty \<Rightarrow> int \<times> byte option \<times> tty" where
  "tty_read_tail t =
    (let b = tty_read_buf t in
     if tb_size b = 0 then (- 1, None, t)
     else let tail = (if tb_tail b = 0 then DEV_BUFF_SIZE - 1 else tb_tail b - 1)
          in (0, Some (tb_buf b ! nat tail),
              t\<lparr>tty_read_buf := b\<lparr>tb_tail := tail, tb_buf := (tb_buf b)[nat tail := 0],
                                  tb_size := tb_size b - 1\<rparr>\<rparr>))"

partial_function (option) uart_getc_poll :: "uart \<Rightarrow> (int \<times> uart) option" where
  "uart_getc_poll u =
    (case uart_getc u of (c, u') \<Rightarrow> if c = - 1 then uart_getc_poll u' else Some (c, u'))"

fun tty_read_kernel_loop :: "nat \<Rightarrow> uart \<Rightarrow> (byte list \<times> uart) option" where
  "tty_read_kernel_loop 0 u = Some ([], u)"
| "tty_read_kernel_loop (Suc n) u =
    do { (c, u1) \<leftarrow> uart_getc_poll u;
         (cs, u2) \<leftarrow> tty_read_kernel_loop n u1;
         Some (word_of_int c # cs, u2) }"

definition tty_read_kernel :: "int \<Rightarrow> tty \<Rightarrow> (byte list \<times> tty) option" where
  "tty_read_kernel len t =
    do { (cs, u) \<leftarrow> tty_read_kernel_loop (nat len) (tty_uart t);
         Some (cs, t\<lparr>tty_uart := u\<rparr>) }"

definition tty_kernel_mode :: "tty \<Rightarrow> tty" where
  "tty_kernel_mode t = t\<lparr>is_kernel := True\<rparr>"

definition tty_user_mode :: "tty \<Rightarrow> tty" where
  "tty_user_mode t = t\<lparr>is_kernel := False\<rparr>"

text \<open>
  \<^verbatim>\<open>tty_handle_intr\<close> returns \<^verbatim>\<open>rc\<close>, which only the receive branch assigns: \<open>rc0\<close> is
  the indeterminate value of the uninitialised variable.
\<close>

definition tty_handle_intr :: "int \<Rightarrow> tty \<Rightarrow> (int \<times> tty) option" where
  "tty_handle_intr rc0 t =
    (case uart_pend_intr (tty_uart t) of (ip, u) \<Rightarrow>
     let t = t\<lparr>tty_uart := u\<rparr> in
     do { (rc, t1) \<leftarrow> (if ip AND 2 \<noteq> 0 then tty_read_uart t else Some (rc0, t));
          Some (rc, if ip AND 1 \<noteq> 0 then tty_write_uart t1 else t1) })"

partial_function (option) tty_init_wait :: "int \<Rightarrow> uart \<Rightarrow> uart option" where
  "tty_init_wait c u =
    (if c = - 1 then Some u else case uart_getc u of (c', u') \<Rightarrow> tty_init_wait c' u')"

definition tty_init :: "tty \<Rightarrow> tty option" where
  "tty_init t =
    do { u \<leftarrow> tty_init_wait 0 (uart_init 115200 (tty_uart t));
         Some (tty_kernel_mode (tty_buff_init (t\<lparr>tty_uart := u\<rparr>))) }"

subsection \<open>The ring as a queue\<close>

definition tb_inv :: "tty_buff \<Rightarrow> bool" where
  "tb_inv b \<longleftrightarrow> length (tb_buf b) = 128 \<and> 0 \<le> tb_size b \<and> tb_size b \<le> 128
     \<and> 0 \<le> tb_head b \<and> tb_head b < 128 \<and> tb_tail b = (tb_head b + tb_size b) mod 128"

definition tb_list :: "tty_buff \<Rightarrow> byte list" where
  "tb_list b = map (\<lambda>i. tb_buf b ! nat ((tb_head b + int i) mod 128)) [0..<nat (tb_size b)]"

text \<open>The three ring updates the driver is made of.\<close>

definition ring_put :: "byte \<Rightarrow> tty_buff \<Rightarrow> tty_buff" where
  "ring_put c b = b\<lparr>tb_buf := (tb_buf b)[nat (tb_tail b) := c],
     tb_tail := (tb_tail b + 1) mod 128, tb_size := tb_size b + 1\<rparr>"

definition ring_get :: "tty_buff \<Rightarrow> tty_buff" where
  "ring_get b = b\<lparr>tb_head := (tb_head b + 1) mod 128, tb_size := tb_size b - 1\<rparr>"

definition ring_unput :: "tty_buff \<Rightarrow> tty_buff" where
  "ring_unput b =
    (let tail = (if tb_tail b = 0 then 127 else tb_tail b - 1)
     in b\<lparr>tb_tail := tail, tb_buf := (tb_buf b)[nat tail := 0], tb_size := tb_size b - 1\<rparr>)"

text \<open>The contract of a bounded queue that can also give back its newest element.\<close>

locale byte_queue =
  fixes list :: "'q \<Rightarrow> 'a list"
    and invar :: "'q \<Rightarrow> bool"
    and cap :: nat
    and put :: "'a \<Rightarrow> 'q \<Rightarrow> 'q"
    and front :: "'q \<Rightarrow> 'a"
    and get :: "'q \<Rightarrow> 'q"
    and unput :: "'q \<Rightarrow> 'q"
  assumes list_put: "invar q \<Longrightarrow> length (list q) < cap \<Longrightarrow> list (put x q) = list q @ [x]"
    and list_front: "invar q \<Longrightarrow> list q \<noteq> [] \<Longrightarrow> front q = hd (list q)"
    and list_get: "invar q \<Longrightarrow> list q \<noteq> [] \<Longrightarrow> list (get q) = tl (list q)"
    and list_unput: "invar q \<Longrightarrow> list q \<noteq> [] \<Longrightarrow> list (unput q) = butlast (list q)"
    and invar_put: "invar q \<Longrightarrow> length (list q) < cap \<Longrightarrow> invar (put x q)"
    and invar_get: "invar q \<Longrightarrow> list q \<noteq> [] \<Longrightarrow> invar (get q)"
    and invar_unput: "invar q \<Longrightarrow> list q \<noteq> [] \<Longrightarrow> invar (unput q)"
begin

lemma put_all:
  assumes "invar q" "length (list q) + length xs \<le> cap"
  shows "invar (fold put xs q) \<and> list (fold put xs q) = list q @ xs"
  using assms
proof (induction xs arbitrary: q)
  case Nil
  then show ?case by simp
next
  case (Cons x xs)
  then have "length (list q) < cap" by simp
  with Cons.prems have "invar (put x q)" "list (put x q) = list q @ [x]"
    by (simp_all add: invar_put list_put)
  with Cons.IH [of "put x q"] Cons.prems(2) show ?case by simp
qed

lemma unput_put:
  assumes "invar q" "length (list q) < cap"
  shows "list (unput (put x q)) = list q"
  using assms by (simp add: list_unput list_put invar_put)

lemma get_decomp:
  assumes "invar q" "list q \<noteq> []"
  shows "list q = front q # list (get q)"
  using assms by (simp add: list_front list_get)

end

lemma length_tb_list [simp]: "length (tb_list b) = nat (tb_size b)"
  by (simp add: tb_list_def)

lemma tb_list_eq_Nil: "tb_inv b \<Longrightarrow> tb_list b = [] \<longleftrightarrow> tb_size b = 0"
  by (auto simp: tb_list_def tb_inv_def)

lemma tb_list_nth:
  "i < nat (tb_size b) \<Longrightarrow> tb_list b ! i = tb_buf b ! nat ((tb_head b + int i) mod 128)"
  by (simp add: tb_list_def)

lemma ring_index_neq [ring_simps]:
  assumes "0 \<le> i" "i < n" "n < 128"
  shows "(h + i) mod 128 \<noteq> (h + n) mod (128 :: int)"
proof
  assume "(h + i) mod 128 = (h + n) mod 128"
  then have "128 dvd (n - i)"
    by (simp add: mod_eq_dvd_iff dvd_diff_commute)
  with assms show False by (auto dest!: zdvd_imp_le)
qed

lemma ring_nat_inj [ring_simps]: "nat (x mod 128) = nat (y mod 128) \<longleftrightarrow> x mod 128 = y mod (128 :: int)"
  by (auto simp: nat_eq_iff2)

lemma ring_put_inv: "tb_inv b \<Longrightarrow> tb_size b < 128 \<Longrightarrow> tb_inv (ring_put c b)"
  by (auto simp: tb_inv_def ring_put_def mod_simps algebra_simps)

lemma ring_put_list:
  assumes "tb_inv b" "tb_size b < 128"
  shows "tb_list (ring_put c b) = tb_list b @ [c]"
proof (rule nth_equalityI)
  show "length (tb_list (ring_put c b)) = length (tb_list b @ [c])"
    using assms by (simp add: ring_put_def tb_inv_def nat_add_distrib)
next
  fix i
  assume "i < length (tb_list (ring_put c b))"
  then have i: "int i \<le> tb_size b"
    using assms by (simp add: ring_put_def tb_inv_def)
  have "tb_list (ring_put c b) ! i =
      (tb_buf b)[nat (tb_tail b) := c] ! nat ((tb_head b + int i) mod 128)"
    using i assms by (subst tb_list_nth) (auto simp: ring_put_def tb_inv_def)
  also have "\<dots> = (tb_list b @ [c]) ! i"
  proof (cases "int i = tb_size b")
    case True
    with assms show ?thesis by (auto simp: tb_inv_def nth_append)
  next
    case False
    with i have lt: "int i < tb_size b" by simp
    then have "nat ((tb_head b + int i) mod 128) \<noteq> nat (tb_tail b)"
      using assms ring_index_neq [of "int i" "tb_size b" "tb_head b"]
      by (simp add: tb_inv_def ring_nat_inj)
    moreover have "i < nat (tb_size b)" using lt by simp
    ultimately show ?thesis
      by (simp add: nth_append tb_list_nth)
  qed
  finally show "tb_list (ring_put c b) ! i = (tb_list b @ [c]) ! i" .
qed

lemma ring_get_inv: "tb_inv b \<Longrightarrow> 0 < tb_size b \<Longrightarrow> tb_inv (ring_get b)"
  by (auto simp: tb_inv_def ring_get_def mod_simps)

lemma ring_get_list:
  assumes "tb_inv b" "0 < tb_size b"
  shows "tb_list b = tb_buf b ! nat (tb_head b) # tb_list (ring_get b)"
proof (rule nth_equalityI)
  show "length (tb_list b) = length (tb_buf b ! nat (tb_head b) # tb_list (ring_get b))"
    using assms by (simp add: ring_get_def)
next
  fix i
  assume i: "i < length (tb_list b)"
  show "tb_list b ! i = (tb_buf b ! nat (tb_head b) # tb_list (ring_get b)) ! i"
  proof (cases i)
    case 0
    with i assms show ?thesis by (simp add: tb_list_nth tb_inv_def)
  next
    case (Suc j)
    with i assms have "j < nat (tb_size (ring_get b))" by (simp add: ring_get_def)
    with Suc i show ?thesis
      by (simp add: tb_list_nth) (simp add: ring_get_def mod_simps algebra_simps)
  qed
qed

lemma ring_unput_tail:
  assumes "tb_inv b" "0 < tb_size b"
  shows "(if tb_tail b = 0 then 127 else tb_tail b - 1) = (tb_head b + (tb_size b - 1)) mod 128"
proof -
  have "(tb_tail b - 1) mod 128 = (tb_head b + (tb_size b - 1)) mod 128"
    using assms by (simp add: tb_inv_def mod_simps algebra_simps)
  moreover have "0 \<le> tb_tail b" "tb_tail b < 128"
    using assms by (simp_all add: tb_inv_def)
  ultimately show ?thesis
    by (cases "tb_tail b = 0") (simp_all add: mod_pos_pos_trivial)
qed

lemma ring_unput_inv: "tb_inv b \<Longrightarrow> 0 < tb_size b \<Longrightarrow> tb_inv (ring_unput b)"
  using ring_unput_tail [of b] by (auto simp: tb_inv_def ring_unput_def Let_def)

lemma ring_unput_list:
  assumes "tb_inv b" "0 < tb_size b"
  shows "tb_list (ring_unput b) = butlast (tb_list b)"
proof (rule nth_equalityI)
  show "length (tb_list (ring_unput b)) = length (butlast (tb_list b))"
    using assms by (simp add: ring_unput_def Let_def)
next
  fix i
  assume "i < length (tb_list (ring_unput b))"
  then have i: "int i < tb_size b - 1" by (simp add: ring_unput_def Let_def)
  have "nat ((tb_head b + int i) mod 128) \<noteq> nat ((tb_head b + (tb_size b - 1)) mod 128)"
    using i assms ring_index_neq [of "int i" "tb_size b - 1" "tb_head b"]
    by (simp add: tb_inv_def ring_nat_inj)
  with i show "tb_list (ring_unput b) ! i = butlast (tb_list b) ! i"
    using ring_unput_tail [OF assms]
    by (simp add: nth_butlast tb_list_nth) (simp add: ring_unput_def Let_def tb_list_nth)
qed

interpretation ring: byte_queue tb_list tb_inv 128 ring_put
  "\<lambda>b. tb_buf b ! nat (tb_head b)" ring_get ring_unput
proof unfold_locales
  fix q x
  assume q: "tb_inv q"
  show "tb_list (ring_put x q) = tb_list q @ [x]" if "length (tb_list q) < 128"
    using q that by (simp add: ring_put_list)
  show "tb_inv (ring_put x q)" if "length (tb_list q) < 128"
    using q that by (simp add: ring_put_inv)
  assume "tb_list q \<noteq> []"
  with q have "0 < tb_size q" by (simp add: tb_list_eq_Nil) (simp add: tb_inv_def)
  with q show "tb_buf q ! nat (tb_head q) = hd (tb_list q)" "tb_list (ring_get q) = tl (tb_list q)"
    "tb_list (ring_unput q) = butlast (tb_list q)" "tb_inv (ring_get q)" "tb_inv (ring_unput q)"
    by (simp_all add: ring_get_list ring_unput_list ring_get_inv ring_unput_inv)
qed

subsection \<open>Writing\<close>

definition tty_inv :: "tty \<Rightarrow> bool" where
  "tty_inv t \<longleftrightarrow> tb_inv (tty_read_buf t) \<and> tb_inv (tty_write_buf t)"

lemma tty_write_buff_loop_size:
  "tty_write_buff_loop msg i n (b\<lparr>tb_size := z\<rparr>) = (tty_write_buff_loop msg i n b)\<lparr>tb_size := z\<rparr>"
proof (induction n arbitrary: i b)
  case (Suc n)
  let ?b = "b\<lparr>tb_buf := (tb_buf b)[nat (tb_tail b) := msg i], tb_tail := (tb_tail b + 1) mod 128\<rparr>"
  show ?case using Suc [of "Suc i" ?b] by (cases b) simp
qed simp

lemma tty_write_buff_loop_fold:
  "(tty_write_buff_loop msg i n b)\<lparr>tb_size := tb_size b + int n\<rparr> =
     fold ring_put (map msg [i..<i + n]) b"
proof (induction n arbitrary: i b)
  case 0
  then show ?case by simp
next
  case (Suc n)
  let ?b = "b\<lparr>tb_buf := (tb_buf b)[nat (tb_tail b) := msg i], tb_tail := (tb_tail b + 1) mod 128\<rparr>"
  have put: "ring_put (msg i) b = ?b\<lparr>tb_size := tb_size b + 1\<rparr>"
    by (simp add: ring_put_def)
  have "[i..<i + Suc n] = i # [Suc i..<Suc i + n]"
    by (simp add: upt_rec)
  then have "fold ring_put (map msg [i..<i + Suc n]) b =
      fold ring_put (map msg [Suc i..<Suc i + n]) (?b\<lparr>tb_size := tb_size b + 1\<rparr>)"
    by (simp add: put)
  also have "\<dots> = (tty_write_buff_loop msg (Suc i) n (?b\<lparr>tb_size := tb_size b + 1\<rparr>))
      \<lparr>tb_size := tb_size b + 1 + int n\<rparr>"
    using Suc.IH [where i = "Suc i" and b = "?b\<lparr>tb_size := tb_size b + 1\<rparr>"] by simp
  finally show ?case
    by (simp add: tty_write_buff_loop_size algebra_simps)
qed

lemma tty_write_buff_fold:
  assumes "0 \<le> len" "len \<le> 128 - tb_size b"
  shows "tty_write_buff msg len b = fold ring_put (map msg [0..<nat len]) b"
proof -
  have "tb_size (tty_write_buff_loop msg 0 n b) = tb_size b" for n
    using arg_cong [OF tty_write_buff_loop_size [of msg 0 n "tb_size b" b], of tb_size] by simp
  with assms tty_write_buff_loop_fold [where i = 0 and n = "nat len" and b = b and msg = msg] show ?thesis
    by (simp add: tty_write_buff_def Let_def)
qed

text \<open>Handing the buffer to the UART: what leaves the queue is what is transmitted, in order.\<close>

lemma tty_write_uart_loop_spec:
  assumes "tb_inv b" "rc = 0" "tty_write_uart_loop rc b u = (rc', b', u')"
  shows "tb_inv b' \<and> (\<exists>sent. tb_list b = sent @ tb_list b'
           \<and> uart_out u' = uart_out u @ map ucast sent)
         \<and> (rc' = 0 \<and> tb_list b' = [] \<and> uart_ie u' = uart_ie u
            \<or> rc' = - 1 \<and> tb_list b' \<noteq> [] \<and> uart_ie u' = uart_ie u OR 1)"
  using assms
proof (induction rc b u rule: tty_write_uart_loop.induct)
  case (1 rc b u)
  obtain r u1 where p: "uart_putc (uint (tb_buf b ! nat (tb_head b))) u = (r, u1)"
    by (cases "uart_putc (uint (tb_buf b ! nat (tb_head b))) u")
  consider (empty) "tb_size b = 0" | (full) "0 < tb_size b" "r = - 1" | (sent) "0 < tb_size b" "r \<noteq> - 1"
    using "1.prems"(1) by (fastforce simp: tb_inv_def)
  then show ?case
  proof cases
    case empty
    with "1.prems" show ?thesis
      by (simp add: tty_write_uart_loop.simps [of 0 b u] tb_list_eq_Nil)
  next
    case full
    with "1.prems" p show ?thesis
      by (auto simp: tty_write_uart_loop.simps [of 0 b u] tb_list_eq_Nil uart_putc_def
          uart_txen_def Let_def split: if_splits)
  next
    case sent
    let ?c = "tb_buf b ! nat (tb_head b)"
    from p sent(2) have u1: "r = 0" "uart_out u1 = uart_out u @ [ucast ?c]" "uart_ie u1 = uart_ie u"
      by (auto simp: uart_putc_def Let_def split: if_splits)
    have run: "tty_write_uart_loop r (ring_get b) u1 = (rc', b', u')"
      using "1.prems"(2,3) sent p by (simp add: tty_write_uart_loop.simps [of 0 b u] ring_get_def)
    have "tb_inv (ring_get b)" using "1.prems"(1) sent(1) by (rule ring_get_inv)
    with "1.IH" [OF sent(1) p [symmetric] sent(2)] run u1(1)
    have IH: "tb_inv b'" "\<exists>sent. tb_list (ring_get b) = sent @ tb_list b'
         \<and> uart_out u' = uart_out u1 @ map ucast sent"
      "rc' = 0 \<and> tb_list b' = [] \<and> uart_ie u' = uart_ie u1
       \<or> rc' = - 1 \<and> tb_list b' \<noteq> [] \<and> uart_ie u' = uart_ie u1 OR 1"
      by (simp_all add: ring_get_def)
    from IH(2) obtain xs where "tb_list (ring_get b) = xs @ tb_list b'"
      "uart_out u' = uart_out u1 @ map ucast xs" by blast
    then have "tb_list b = (?c # xs) @ tb_list b' \<and> uart_out u' = uart_out u @ map ucast (?c # xs)"
      using ring_get_list [OF "1.prems"(1) sent(1)] u1(2) by simp
    with IH(1,3) u1(3) show ?thesis by metis
  qed
qed

lemma tty_write_uart_spec:
  assumes "tty_inv t"
  shows "tty_inv (tty_write_uart t) \<and> tty_read_buf (tty_write_uart t) = tty_read_buf t
    \<and> (\<exists>sent. tb_list (tty_write_buf t) = sent @ tb_list (tty_write_buf (tty_write_uart t))
         \<and> uart_out (tty_uart (tty_write_uart t)) = uart_out (tty_uart t) @ map ucast sent)
    \<and> (bit (uart_ie (tty_uart (tty_write_uart t))) 0 \<longleftrightarrow> tb_list (tty_write_buf (tty_write_uart t)) \<noteq> [])"
proof -
  obtain rc b u where loop: "tty_write_uart_loop 0 (tty_write_buf t) (tty_uart t) = (rc, b, u)"
    by (metis prod_cases3)
  have "tb_inv (tty_write_buf t)" using assms by (simp add: tty_inv_def)
  from tty_write_uart_loop_spec [OF this refl loop] assms loop show ?thesis
    by (auto simp: tty_write_uart_def tty_inv_def uart_txdis_def bit_simps)
qed

subsection \<open>Reading\<close>

text \<open>\<open>rx_at u k\<close> is what the \<open>k\<close>-th \<^verbatim>\<open>uart_getc\<close> from now on returns.\<close>

definition rx_at :: "uart \<Rightarrow> nat \<Rightarrow> int" where
  "rx_at u k = (let ch = rxdata u (rxcount u + k)
     in if ch AND push_bit 31 1 \<noteq> 0 then - 1 else uint (ch AND 0xFF))"

lemma uart_getc_rx_at: "fst (uart_getc u) = rx_at u 0"
  by (simp add: uart_getc_def rx_at_def Let_def)

lemma rx_at_step: "rx_at (snd (uart_getc u)) k = rx_at u (Suc k)"
  by (simp add: uart_getc_def rx_at_def Let_def)

lemma tty_read_uart_store_put:
  "tb_size b < 128 \<Longrightarrow> tty_read_uart_store c b = ring_put (word_of_int c) b"
  by (cases b) (simp add: tty_read_uart_store_def ring_put_def Let_def)

lemma tty_read_uart_loop_drain:
  assumes "tb_inv b" "tb_size b + int (Suc n) \<le> 128"
    and "\<forall>k<n. rx_at u k \<noteq> - 1"
    and "c \<noteq> 3 \<or> n = 0" "\<forall>k<n. k < n - 1 \<longrightarrow> rx_at u k \<noteq> 3"
    and "(if n = 0 then c else rx_at u (n - 1)) = 3 \<or> rx_at u n = - 1"
  shows "\<exists>b' u'. tty_read_uart_loop c b u =
       Some (if (if n = 0 then c else rx_at u (n - 1)) = 3 then - 3 else 0, b', u')
     \<and> tb_inv b' \<and> tb_list b' = tb_list b @ map word_of_int (c # map (rx_at u) [0..<n])"
  using assms
proof (induction n arbitrary: c b u)
  case 0
  from "0.prems" have put: "tty_read_uart_store c b = ring_put (word_of_int c) b"
    by (simp add: tty_read_uart_store_put)
  have q: "tb_inv (ring_put (word_of_int c) b)"
    "tb_list (ring_put (word_of_int c) b) = tb_list b @ [word_of_int c]"
    using "0.prems"(1,2) by (simp_all add: ring_put_inv ring_put_list)
  from "0.prems"(6) show ?case
    by (subst tty_read_uart_loop.simps) (use put q in \<open>auto simp: uart_getc_rx_at\<close>)
next
  case (Suc n)
  let ?u = "snd (uart_getc u)" and ?c = "rx_at u 0" and ?b = "ring_put (word_of_int c) b"
  from Suc.prems have put: "tty_read_uart_store c b = ?b"
    by (simp add: tty_read_uart_store_put)
  have c: "c \<noteq> 3" "?c \<noteq> - 1" using Suc.prems(3,4) by auto
  have q: "tb_inv ?b" "tb_list ?b = tb_list b @ [word_of_int c]" "tb_size ?b = tb_size b + 1"
    using Suc.prems(1,2) by (simp add: ring_put_inv, simp add: ring_put_list, simp add: ring_put_def)
  have last: "(if n = 0 then ?c else rx_at ?u (n - 1)) = rx_at u n"
    by (cases n) (simp_all add: rx_at_step)
  have "\<exists>b' u'. tty_read_uart_loop ?c ?b ?u =
       Some (if (if n = 0 then ?c else rx_at ?u (n - 1)) = 3 then - 3 else 0, b', u')
     \<and> tb_inv b' \<and> tb_list b' = tb_list ?b @ map word_of_int (?c # map (rx_at ?u) [0..<n])"
  proof (rule Suc.IH)
    show "\<forall>k<n. rx_at ?u k \<noteq> - 1"
      using Suc.prems(3) by (simp add: rx_at_step)
    show "\<forall>k<n. k < n - 1 \<longrightarrow> rx_at ?u k \<noteq> 3"
      using Suc.prems(5) by (auto simp: rx_at_step)
    show "?c \<noteq> 3 \<or> n = 0" using Suc.prems(5) by auto
    show "(if n = 0 then ?c else rx_at ?u (n - 1)) = 3 \<or> rx_at ?u n = - 1"
      unfolding last using Suc.prems(6) by (simp add: rx_at_step)
  qed (use q Suc.prems(2) in simp_all)
  moreover have "map (rx_at u) [0..<Suc n] = ?c # map (rx_at ?u) [0..<n]"
    by (simp add: map_upt_Suc rx_at_step del: upt_Suc)
  moreover have "tty_read_uart_loop c b u = tty_read_uart_loop ?c ?b ?u"
    using c by (subst tty_read_uart_loop.simps) (simp add: put uart_getc_rx_at)
  ultimately show ?case
    by (simp add: last q(2) del: upt_Suc)
qed

text \<open>
  C37. A receive interrupt moves every character the UART holds into the read buffer, in
  order, up to the first empty read or up to and including Ctrl-C, in which case the handler
  says so; provided they fit.
\<close>

theorem tty_read_uart_drain:
  assumes "tty_inv t" "0 < n" "tb_size (tty_read_buf t) + int n \<le> 128"
    and "\<forall>k<n. rx_at (tty_uart t) k \<noteq> - 1"
    and "\<forall>k<n - 1. rx_at (tty_uart t) k \<noteq> 3"
    and "rx_at (tty_uart t) (n - 1) = 3 \<or> rx_at (tty_uart t) n = - 1"
  shows "\<exists>t'. tty_read_uart t =
        Some (if rx_at (tty_uart t) (n - 1) = 3 then RET_SPECIAL_CHAR else 0, t')
      \<and> tty_inv t' \<and> tty_write_buf t' = tty_write_buf t
      \<and> tb_list (tty_read_buf t') =
          tb_list (tty_read_buf t) @ map word_of_int (map (rx_at (tty_uart t)) [0..<n])"
proof -
  let ?u = "tty_uart t" and ?b = "tty_read_buf t"
  obtain m where m: "n = Suc m" using \<open>0 < n\<close> by (cases n) auto
  have last: "(if m = 0 then rx_at ?u 0 else rx_at (snd (uart_getc ?u)) (m - 1)) = rx_at ?u m"
    by (cases m) (simp_all add: rx_at_step)
  have inv: "tb_inv ?b" using assms(1) by (simp add: tty_inv_def)
  obtain b' u' where "tty_read_uart_loop (rx_at ?u 0) ?b (snd (uart_getc ?u)) =
       Some (if rx_at ?u m = 3 then - 3 else 0, b', u')" "tb_inv b'"
       "tb_list b' = tb_list ?b @ map word_of_int (rx_at ?u 0 # map (rx_at (snd (uart_getc ?u))) [0..<m])"
  proof -
    have "rx_at ?u 0 \<noteq> 3 \<or> m = 0" "\<forall>k<m. k < m - 1 \<longrightarrow> rx_at (snd (uart_getc ?u)) k \<noteq> 3"
      "\<forall>k<m. rx_at (snd (uart_getc ?u)) k \<noteq> - 1" "rx_at ?u m = 3 \<or> rx_at (snd (uart_getc ?u)) m = - 1"
      using assms(4-6) m by (auto simp: rx_at_step)
    with tty_read_uart_loop_drain [of ?b m "snd (uart_getc ?u)" "rx_at ?u 0"] inv assms(3) m
    show ?thesis unfolding last using that by auto
  qed
  moreover have "map (rx_at ?u) [0..<n] = rx_at ?u 0 # map (rx_at (snd (uart_getc ?u))) [0..<m]"
    by (simp add: m map_upt_Suc rx_at_step del: upt_Suc)
  moreover have "rx_at ?u 0 \<noteq> - 1" using assms(4) \<open>0 < n\<close> by simp
  ultimately show ?thesis
    using assms(1) m
    by (simp add: tty_read_uart_def tty_inv_def case_prod_beta uart_getc_rx_at del: upt_Suc)
qed

text \<open>A device and a driver state to evaluate the properties on.\<close>

definition sample_uart :: uart where
  "sample_uart = \<lparr>rxdata = (\<lambda>n. if n = 0 then 0x61 else if n = 1 then 3 else 0x80000000), rxcount = 0,
     txdata = (\<lambda>n. if n = 2 then 0x80000000 else 0), txcount = 0, uart_ip = (\<lambda>_. 1), ipcount = 0,
     uart_out = [], uart_ie = 2, uart_txctrl = 0, uart_rxctrl = 0, uart_div = 0, gpio_iof = 0\<rparr>"

definition sample_tty :: tty where
  "sample_tty = \<lparr>tty_read_buf = tb_zero, tty_write_buf = tb_zero, tty_uart = sample_uart,
     is_kernel = False\<rparr>"

lemma tb_inv_zero: "tb_inv tb_zero" and tb_list_zero: "tb_list tb_zero = []"
  by (simp_all add: tb_inv_def tb_list_def tb_zero_def)

lemma sample_tty_simps:
  "tty_read_buf sample_tty = tb_zero" "tty_write_buf sample_tty = tb_zero"
  "tty_uart sample_tty = sample_uart" "tb_size tb_zero = 0" "uart_out sample_uart = []"
  "rx_at sample_uart 0 = 0x61" "rx_at sample_uart (Suc 0) = 3"
  "rx_at (sample_uart\<lparr>rxcount := Suc 0\<rparr>) 0 = 3"
  by (simp_all add: sample_tty_def sample_uart_def tb_zero_def rx_at_def)

lemma sample_tty_inv: "tty_inv sample_tty"
  by (simp add: sample_tty_def tty_inv_def tb_inv_zero)

theorem tty_read_uart_drain_witness:
  "tty_inv sample_tty \<and> (\<exists>t'. tty_read_uart sample_tty = Some (RET_SPECIAL_CHAR, t')
     \<and> tb_list (tty_read_buf t') = [0x61, 3])"
proof -
  have "\<forall>k<2. rx_at (tty_uart sample_tty) k \<noteq> - 1" "\<forall>k<2 - 1. rx_at (tty_uart sample_tty) k \<noteq> 3"
    "rx_at (tty_uart sample_tty) (2 - 1) = 3 \<or> rx_at (tty_uart sample_tty) 2 = - 1"
    by (simp_all add: sample_tty_simps All_less_Suc numeral_2_eq_2)
  from tty_read_uart_drain [OF sample_tty_inv _ _ this] sample_tty_inv show ?thesis
    by (auto simp: sample_tty_simps tb_list_zero upt_rec numeral_2_eq_2)
qed


lemma tty_write_run_sample:
  "tty_write (\<lambda>i. [0x68, 0x69, 0x21] ! i) 3 sample_tty =
     (0, snd (tty_write (\<lambda>i. [0x68, 0x69, 0x21] ! i) 3 sample_tty))"
  by (simp add: tty_write_def sample_tty_def tb_zero_def)


text \<open>
  The read side is first-in first-out: \<^verbatim>\<open>tty_read\<close> fails and changes nothing
  exactly when the queue is empty; otherwise it delivers the oldest character and keeps the
  rest in order.
\<close>

theorem tty_read_fifo:
  assumes "tty_inv t" "tty_read t = (rc, c, t')"
  shows "tty_inv t' \<and> (if tb_list (tty_read_buf t) = [] then rc = - 1 \<and> c = None \<and> t' = t
     else rc = 0 \<and> (\<exists>x. c = Some x \<and> tb_list (tty_read_buf t) = x # tb_list (tty_read_buf t')))"
proof (cases "tb_list (tty_read_buf t) = []")
  case True
  with assms show ?thesis
    by (simp add: tty_read_def tty_inv_def tb_list_eq_Nil Let_def)
next
  case False
  have inv: "tb_inv (tty_read_buf t)" using assms(1) by (simp add: tty_inv_def)
  from assms(2) False inv have "rc = 0" "c = Some (tb_buf (tty_read_buf t) ! nat (tb_head (tty_read_buf t)))"
    "t' = t\<lparr>tty_read_buf := ring_get (tty_read_buf t)\<rparr>"
    by (auto simp: tty_read_def tb_list_eq_Nil ring_get_def Let_def)
  with ring.get_decomp [OF inv False] ring.invar_get [OF inv False] False assms(1) show ?thesis
    by (simp add: tty_inv_def)
qed

theorem tty_read_fifo_witness:
  "tty_inv sample_tty \<and> fst (tty_read sample_tty) = - 1"
  using tty_read_fifo [OF sample_tty_inv, of "fst (tty_read sample_tty)"
      "fst (snd (tty_read sample_tty))" "snd (snd (tty_read sample_tty))"] sample_tty_inv
  by (simp add: sample_tty_simps tb_list_zero)

lemma tty_read_tail_last:
  assumes "tty_inv t" "tb_list (tty_read_buf t) \<noteq> []"
  shows "tty_read_tail t = (0, Some (last (tb_list (tty_read_buf t))),
     t\<lparr>tty_read_buf := ring_unput (tty_read_buf t)\<rparr>)"
proof -
  let ?b = "tty_read_buf t"
  have inv: "tb_inv ?b" "0 < tb_size ?b"
    using assms by (simp_all add: tty_inv_def tb_list_eq_Nil) (simp add: tb_inv_def)
  have "last (tb_list ?b) = tb_buf ?b ! nat ((tb_head ?b + (tb_size ?b - 1)) mod 128)"
    using inv assms(2) by (simp add: last_conv_nth tb_list_nth)
  also have "\<dots> = tb_buf ?b ! nat (if tb_tail ?b = 0 then 127 else tb_tail ?b - 1)"
    by (simp only: ring_unput_tail [OF inv])
  finally show ?thesis
    using inv(2) by (simp add: tty_read_tail_def ring_unput_def Let_def)
qed

text \<open>
  Ctrl-C is taken back out of the line: receiving Ctrl-C in a buffer with a free slot
  and then calling \<^verbatim>\<open>tty_read_tail\<close>, as the kernel does after it killed a process, gives
  Ctrl-C back and restores the characters typed before it.
\<close>

theorem tty_ctrl_c_taken_back:
  assumes "tty_inv t" "tb_size (tty_read_buf t) < 128" "rx_at (tty_uart t) 0 = SPECIAL_CTRL_C"
  shows "\<exists>t1 t2. tty_read_uart t = Some (RET_SPECIAL_CHAR, t1)
     \<and> tty_read_tail t1 = (0, Some 3, t2) \<and> tty_inv t2
     \<and> tb_list (tty_read_buf t2) = tb_list (tty_read_buf t)"
proof -
  let ?b = "tty_read_buf t"
  let ?t1 = "t\<lparr>tty_read_buf := ring_put 3 ?b, tty_uart := snd (uart_getc (tty_uart t))\<rparr>"
  have inv: "tb_inv ?b" "length (tb_list ?b) < 128" "0 \<le> tb_size ?b"
    using assms(1,2) by (simp_all add: tty_inv_def) (simp add: tb_inv_def)
  have "fst (uart_getc (tty_uart t)) = 3"
    using assms(3) by (simp add: uart_getc_rx_at)
  moreover have "tty_read_uart_loop 3 ?b u = Some (- 3, ring_put 3 ?b, u)" for u
    using assms(2) by (subst tty_read_uart_loop.simps) (simp add: tty_read_uart_store_put)
  ultimately have 1: "tty_read_uart t = Some (- 3, ?t1)"
    by (simp add: tty_read_uart_def case_prod_beta)
  have "tb_inv (ring_put 3 ?b)" "tb_list (ring_put 3 ?b) = tb_list ?b @ [3]"
    using ring.invar_put [OF inv(1,2)] ring.list_put [OF inv(1,2)] by simp_all
  with 1 tty_read_tail_last [of ?t1] ring.unput_put [OF inv(1,2), of 3]
    ring.invar_unput [of "ring_put 3 ?b"] assms(1)
  show ?thesis by (simp add: tty_inv_def)
qed

theorem tty_ctrl_c_taken_back_witness:
  "\<exists>t1 t2. tty_read_uart (sample_tty\<lparr>tty_uart := sample_uart\<lparr>rxcount := 1\<rparr>\<rparr>) = Some (RET_SPECIAL_CHAR, t1)
     \<and> tty_read_tail t1 = (0, Some 3, t2) \<and> tb_list (tty_read_buf t2) = []"
  using tty_ctrl_c_taken_back [of "sample_tty\<lparr>tty_uart := sample_uart\<lparr>rxcount := 1\<rparr>\<rparr>"] sample_tty_inv
  by (auto simp: tty_inv_def sample_tty_simps tb_list_zero)

text \<open>
  When the read buffer is full the driver corrupts it: the new character is stored over
  the oldest unread one, so the reader gets the newest character first and the oldest is
  lost (and a Ctrl-C typed then is not at the tail, where the kernel looks for it).
\<close>

theorem tty_read_uart_overflow:
  assumes "tty_inv t" "tb_size (tty_read_buf t) = 128" "rx_at (tty_uart t) 0 = c" "c \<noteq> - 1"
    and "c = SPECIAL_CTRL_C \<or> rx_at (tty_uart t) 1 = - 1"
  shows "\<exists>rc t'. tty_read_uart t = Some (rc, t')
     \<and> tb_list (tty_read_buf t') = word_of_int c # tl (tb_list (tty_read_buf t))"
proof -
  let ?b = "tty_read_buf t" and ?u = "snd (uart_getc (tty_uart t))"
  let ?b' = "?b\<lparr>tb_buf := (tb_buf ?b)[nat (tb_tail ?b) := word_of_int c]\<rparr>"
  have inv: "tb_inv ?b" "0 < tb_size ?b" "tb_tail ?b = tb_head ?b"
    using assms(1,2) by (simp_all add: tty_inv_def) (simp_all add: tb_inv_def)
  then have inv': "tb_inv ?b'" "0 < tb_size ?b'" by (simp_all add: tb_inv_def)
  have store: "tty_read_uart_store c ?b = ?b'"
    using assms(2) by (simp add: tty_read_uart_store_def Let_def)
  have "\<exists>rc u. tty_read_uart_loop c ?b ?u = Some (rc, ?b', u)"
    using assms(5) by (subst tty_read_uart_loop.simps)
      (auto simp: store [symmetric] uart_getc_rx_at rx_at_step)
  moreover have "fst (uart_getc (tty_uart t)) = c" using assms(3) by (simp add: uart_getc_rx_at)
  ultimately have run: "\<exists>rc u. tty_read_uart t = Some (rc, t\<lparr>tty_read_buf := ?b', tty_uart := u\<rparr>)"
    using assms(4) by (fastforce simp: tty_read_uart_def case_prod_beta)
  have "tb_list ?b' = word_of_int c # tl (tb_list ?b)"
  proof (rule nth_equalityI)
    show "length (tb_list ?b') = length (word_of_int c # tl (tb_list ?b))"
      using assms(2) by simp
    fix i assume "i < length (tb_list ?b')"
    then have i: "i < 128" using assms(2) by simp
    have "nat ((tb_head ?b + int i) mod 128) \<noteq> nat (tb_head ?b)" if "0 < i"
      using ring_index_neq [of 0 "int i" "tb_head ?b"] that i inv(1)
      by (auto simp: tb_inv_def nat_eq_iff2 ring_nat_inj)
    with i inv assms(2) show "tb_list ?b' ! i = (word_of_int c # tl (tb_list ?b)) ! i"
      by (cases i) (auto simp: tb_list_nth nth_tl tb_inv_def)
  qed
  with run show ?thesis by fastforce
qed

definition full_tty :: tty where
  "full_tty = sample_tty\<lparr>tty_read_buf := tb_zero\<lparr>tb_size := 128\<rparr>, tty_uart := sample_uart\<lparr>rxcount := 1\<rparr>\<rparr>"

theorem tty_read_uart_overflow_witness:
  "\<exists>rc t'. tty_read_uart full_tty = Some (rc, t')
     \<and> tb_list (tty_read_buf t') = 3 # tl (tb_list (tty_read_buf full_tty))"
proof -
  have "tty_inv full_tty" "tb_size (tty_read_buf full_tty) = 128" "rx_at (tty_uart full_tty) 0 = 3"
    using sample_tty_inv
    by (simp_all add: full_tty_def tty_inv_def sample_tty_simps) (simp add: tb_inv_def tb_zero_def)
  from tty_read_uart_overflow [OF this] show ?thesis by simp
qed

text \<open>
  A write with a negative length is accepted and breaks the write buffer: nothing is
  queued, the call reports success, and the fill count becomes negative.
\<close>

theorem tty_write_negative:
  assumes "tb_size (tty_write_buf t) = 0" "len < 0"
  shows "\<exists>t'. tty_write msg len t = (0, t') \<and> tb_size (tty_write_buf t') = len
     \<and> \<not> tty_inv t'"
proof -
  have "tty_write_uart_loop 0 (b\<lparr>tb_size := len\<rparr>) u = (0, b\<lparr>tb_size := len\<rparr>, u)" for b u
    using assms(2) by (subst tty_write_uart_loop.simps) simp
  with assms show ?thesis
    by (simp add: tty_write_def tty_write_buff_def Let_def tty_write_uart_def tty_inv_def tb_inv_def)
qed

theorem tty_write_negative_witness:
  "\<exists>t'. tty_write (\<lambda>_. 0) (- 1) sample_tty = (0, t') \<and> tb_size (tty_write_buf t') = - 1"
  using tty_write_negative [of sample_tty "- 1" "\<lambda>_. 0"] by (auto simp: sample_tty_simps)

text \<open>
  If the UART interrupt is pending for transmission only, \<^verbatim>\<open>tty_handle_intr\<close> returns
  the value its local variable happened to hold: any result code, Ctrl-C included, can be
  reported although nothing was typed.
\<close>

theorem tty_handle_intr_uninitialised:
  assumes "tty_inv t" "\<not> bit (uart_ip (tty_uart t) (ipcount (tty_uart t))) 1"
  shows "\<exists>t'. tty_handle_intr rc0 t = Some (rc0, t') \<and> tty_inv t' \<and> tty_read_buf t' = tty_read_buf t"
proof -
  let ?ip = "uart_ip (tty_uart t) (ipcount (tty_uart t))"
  have "?ip AND 2 = 0"
    using assms(2) and_exp_eq_0_iff_not_bit [of ?ip 1] by simp
  then show ?thesis
    using assms(1) tty_write_uart_spec [of "t\<lparr>tty_uart := tty_uart t\<lparr>ipcount := Suc (ipcount (tty_uart t))\<rparr>\<rparr>"]
    by (auto simp: tty_handle_intr_def uart_pend_intr_def Let_def tty_inv_def)
qed

theorem tty_handle_intr_uninitialised_witness:
  "\<exists>t'. tty_handle_intr RET_SPECIAL_CHAR sample_tty = Some (RET_SPECIAL_CHAR, t')"
  using tty_handle_intr_uninitialised [OF sample_tty_inv, of RET_SPECIAL_CHAR]
  by (auto simp: sample_tty_simps sample_uart_def bit_1_iff)

subsection \<open>Polled output\<close>

lemma uart_putc_poll_ready:
  assumes "\<not> bit (txdata u (txcount u + k)) 31"
  shows "\<exists>u'. uart_putc_poll c u = Some u' \<and> uart_out u' = uart_out u @ [word_of_int c]
     \<and> txdata u' = txdata u"
  using assms
proof (induction k arbitrary: u)
  case 0
  have "txdata u (txcount u) AND push_bit 31 1 = 0"
    using 0 and_exp_eq_0_iff_not_bit [of "txdata u (txcount u)" 31] by (simp add: push_bit_eq_mult)
  then show ?case by (subst uart_putc_poll.simps) (simp add: uart_putc_def Let_def)
next
  case (Suc k)
  let ?u = "u\<lparr>txcount := Suc (txcount u)\<rparr>"
  show ?case
  proof (cases "txdata u (txcount u) AND push_bit 31 1 = 0")
    case True
    then show ?thesis by (subst uart_putc_poll.simps) (simp add: uart_putc_def Let_def)
  next
    case False
    then have "uart_putc_poll c u = uart_putc_poll c ?u"
      by (subst uart_putc_poll.simps) (simp add: uart_putc_def Let_def)
    with Suc.IH [of ?u] Suc.prems show ?thesis by simp
  qed
qed

lemma tty_write_kernel_loop_ready:
  assumes "\<forall>i. \<exists>k. \<not> bit (txdata u (i + k)) 31"
  shows "\<exists>u'. tty_write_kernel_loop cs u = Some u' \<and> uart_out u' = uart_out u @ map ucast cs"
  using assms
proof (induction cs arbitrary: u)
  case (Cons c cs)
  from Cons.prems obtain k where "\<not> bit (txdata u (txcount u + k)) 31" by blast
  from uart_putc_poll_ready [OF this, of "uint c"] obtain u1 where
    u1: "uart_putc_poll (uint c) u = Some u1" "uart_out u1 = uart_out u @ [ucast c]" "txdata u1 = txdata u"
    by auto
  from Cons.IH [of u1] Cons.prems u1 show ?case by auto
qed simp

text \<open>
  Polled output (\<^verbatim>\<open>tty_write_kernel\<close>) terminates on every UART that keeps making
  room, returns the length of the message and transmits exactly the message, in order.
\<close>

theorem tty_write_kernel_sends:
  assumes "\<forall>i. \<exists>k. \<not> bit (txdata (tty_uart t) (i + k)) 31"
  shows "\<exists>t'. tty_write_kernel msg t = Some (int (length msg), t')
     \<and> uart_out (tty_uart t') = uart_out (tty_uart t) @ map ucast msg"
  using tty_write_kernel_loop_ready [OF assms, of msg] by (auto simp: tty_write_kernel_def)

theorem tty_write_kernel_sends_witness:
  "\<exists>t'. tty_write_kernel [0x68, 0x69] sample_tty = Some (2, t')
     \<and> uart_out (tty_uart t') = [0x68, 0x69]"
proof -
  have "\<not> bit (txdata (tty_uart sample_tty) (i + Suc 2)) 31" for i
    by (simp add: sample_tty_simps) (simp add: sample_uart_def)
  from tty_write_kernel_sends [of sample_tty "[0x68, 0x69]"] this show ?thesis
    by (auto simp: sample_tty_simps)
qed

end
