(* ===== verification/Timer.thy ===== *)
theory Timer
  imports Prelude
begin

section \<open>The machine timer\<close>

text \<open>
  \<^verbatim>\<open>earth/cpu_timer.c\<close>. \<open>mtime_at n\<close> is the value of the 64-bit \<^verbatim>\<open>mtime\<close> counter at
  the \<open>n\<close>-th access of one of its two 32-bit halves, for any counter that runs by itself;
  \<open>mtime_reads\<close> counts the accesses. \<open>cmp_lo\<close> and \<open>cmp_hi\<close> are the halves of
  \<^verbatim>\<open>mtimecmp\<close>, and \<open>cmp_trace\<close> lists the values the comparator has held after each of
  the driver's stores.
\<close>

datatype platform = QEMU | ARTY

record timer =
  mtime_at :: "nat \<Rightarrow> u64"
  mtime_reads :: nat
  cmp_lo :: u32
  cmp_hi :: u32
  cmp_trace :: "u64 list"
  QUANTUM :: u32

definition lo32 :: "u64 \<Rightarrow> u32" where "lo32 w = ucast w"

definition hi32 :: "u64 \<Rightarrow> u32" where "hi32 w = ucast (drop_bit 32 w)"

definition join64 :: "u32 \<Rightarrow> u32 \<Rightarrow> u64" where
  "join64 high low = push_bit 32 (ucast high) OR ucast low"

partial_function (option) mtime_get_from :: "(nat \<Rightarrow> u64) \<Rightarrow> nat \<Rightarrow> (u64 \<times> nat) option" where
  "mtime_get_from m n =
    (if hi32 (m (n + 2)) \<noteq> hi32 (m n) then mtime_get_from m (n + 3)
     else Some (join64 (hi32 (m n)) (lo32 (m (n + 1))), n + 3))"

definition mtime_get :: "timer \<Rightarrow> (u64 \<times> timer) option" where
  "mtime_get t =
    do { (v, n) \<leftarrow> mtime_get_from (mtime_at t) (mtime_reads t);
         Some (v, t\<lparr>mtime_reads := n\<rparr>) }"

definition cmp_store_hi :: "u32 \<Rightarrow> timer \<Rightarrow> timer" where
  "cmp_store_hi v t = t\<lparr>cmp_hi := v, cmp_trace := cmp_trace t @ [join64 v (cmp_lo t)]\<rparr>"

definition cmp_store_lo :: "u32 \<Rightarrow> timer \<Rightarrow> timer" where
  "cmp_store_lo v t = t\<lparr>cmp_lo := v, cmp_trace := cmp_trace t @ [join64 (cmp_hi t) v]\<rparr>"

definition mtimecmp_set :: "u64 \<Rightarrow> timer \<Rightarrow> timer" where
  "mtimecmp_set time t =
    cmp_store_hi (hi32 time) (cmp_store_lo (lo32 time) (cmp_store_hi 0xFFFFFFFF t))"

definition timer_reset :: "timer \<Rightarrow> timer option" where
  "timer_reset t =
    do { (now, t') \<leftarrow> mtime_get t; Some (mtimecmp_set (now + ucast (QUANTUM t')) t') }"

definition timer_init :: "platform \<Rightarrow> timer \<Rightarrow> timer" where
  "timer_init p t =
    mtimecmp_set 0x0FFFFFFFFFFFFFFF (t\<lparr>QUANTUM := (if p = ARTY then 5000 else 500000)\<rparr>)"

subsection \<open>Halves of a 64-bit word\<close>

lemma join64_halves [simp]: "join64 (hi32 w) (lo32 w) = w"
  by (rule bit_word_eqI) (auto simp: join64_def hi32_def lo32_def bit_simps)

lemma hi32_join64 [simp]: "hi32 (join64 h l) = h"
  by (rule bit_word_eqI) (auto simp: join64_def hi32_def bit_simps dest: bit_imp_le_length)

lemma lo32_join64 [simp]: "lo32 (join64 h l) = l"
  by (rule bit_word_eqI) (auto simp: join64_def lo32_def bit_simps)

lemma unat_hi32: "unat (hi32 w) = unat w div 4294967296"
proof -
  have "unat w < 2 ^ 64" using unsigned_less [where ?'b = 64 and ?'a = nat, of w] by simp
  then have "unat w div 4294967296 < 4294967296"
    by (simp add: less_mult_imp_div_less)
  then show ?thesis
    by (simp add: hi32_def unsigned_ucast_eq take_bit_nat_eq_self drop_bit_eq_div unat_div)
qed

lemma hi32_mono: "v \<le> w \<Longrightarrow> hi32 v \<le> hi32 w"
  by (simp add: word_le_nat_alt unat_hi32 div_le_mono)

subsection \<open>Reading the counter\<close>

lemma mtime_get_from_returns:
  assumes "\<forall>i j. i \<le> j \<longrightarrow> m i \<le> m j"
  shows "\<exists>k\<ge>n. mtime_get_from m n = Some (m (k + 1), k + 3)"
proof (induction "2 ^ 32 - unat (hi32 (m n))" arbitrary: n rule: less_induct)
  case less
  show ?case
  proof (cases "hi32 (m (n + 2)) = hi32 (m n)")
    case True
    have "hi32 (m n) \<le> hi32 (m (n + 1))" "hi32 (m (n + 1)) \<le> hi32 (m (n + 2))"
      using assms by (simp_all add: hi32_mono)
    with True have "hi32 (m n) = hi32 (m (n + 1))" by simp
    then have "mtime_get_from m n = Some (m (n + 1), n + 3)"
      using True by (subst mtime_get_from.simps) simp
    then show ?thesis by blast
  next
    case False
    have "hi32 (m n) \<le> hi32 (m (n + 2))" "hi32 (m (n + 2)) \<le> hi32 (m (n + 3))"
      using assms by (simp_all add: hi32_mono)
    with False have "hi32 (m n) < hi32 (m (n + 3))" by simp
    moreover have "unat (hi32 (m (n + 3))) < 2 ^ 32"
      using unsigned_less [where ?'b = 32 and ?'a = nat, of "hi32 (m (n + 3))"] by simp
    ultimately have "2 ^ 32 - unat (hi32 (m (n + 3))) < 2 ^ 32 - unat (hi32 (m n))"
      by (simp add: word_less_nat_alt)
    from less [OF this] obtain k where "n + 3 \<le> k" "mtime_get_from m (n + 3) = Some (m (k + 1), k + 3)"
      by blast
    moreover have "mtime_get_from m n = mtime_get_from m (n + 3)"
      using False by (subst mtime_get_from.simps) simp
    ultimately show ?thesis by (metis add_leD1)
  qed
qed

text \<open>
  C39. Reading the 64-bit counter in two halves always terminates on a counter that never
  goes backwards, and never tears: the value is the whole counter at one of the accesses made.
\<close>

theorem mtime_get_untorn:
  assumes "\<forall>i j. i \<le> j \<longrightarrow> mtime_at t i \<le> mtime_at t j"
  shows "\<exists>k t'. mtime_get t = Some (mtime_at t k, t') \<and> mtime_reads t < k \<and> k < mtime_reads t'"
  using mtime_get_from_returns [OF assms, of "mtime_reads t"]
  by (fastforce simp: mtime_get_def)

definition sample_timer :: timer where
  "sample_timer = \<lparr>mtime_at = (\<lambda>n. 0xFFFFFFFE + of_nat (min n 5)), mtime_reads = 0,
     cmp_lo = 7, cmp_hi = 0, cmp_trace = [], QUANTUM = 500000\<rparr>"

lemma sample_timer_mono: "i \<le> j \<Longrightarrow> mtime_at sample_timer i \<le> mtime_at sample_timer j"
proof -
  assume "i \<le> j"
  then have "min i 5 \<le> min j 5" "min j 5 < 4294967296" by simp_all
  then show ?thesis
    by (simp add: sample_timer_def word_le_nat_alt unat_word_ariths unat_of_nat)
qed

theorem mtime_get_untorn_witness:
  "\<exists>k t'. mtime_get sample_timer = Some (mtime_at sample_timer k, t') \<and> 0 < k"
  using mtime_get_untorn [of sample_timer] sample_timer_mono by (fastforce simp: sample_timer_def)

subsection \<open>Setting the comparator\<close>

text \<open>
  C40. Programming \<^verbatim>\<open>mtimecmp\<close> in two halves never lets the comparator fall below the new
  deadline on the way (which would raise a spurious timer interrupt), and ends at the deadline.
\<close>

theorem mtimecmp_set_no_spurious:
  assumes "hi32 time < 0xFFFFFFFF"
  shows "\<exists>vs. cmp_trace (mtimecmp_set time t) = cmp_trace t @ vs \<and> (\<forall>v\<in>set vs. time \<le> v)
     \<and> join64 (cmp_hi (mtimecmp_set time t)) (cmp_lo (mtimecmp_set time t)) = time"
proof -
  have "time \<le> w" if "hi32 w = 0xFFFFFFFF" for w
  proof (rule ccontr)
    assume "\<not> time \<le> w"
    then have "hi32 w \<le> hi32 time" by (simp add: hi32_mono)
    with that assms show False by (simp add: linorder_not_less [symmetric])
  qed
  then show ?thesis
    by (simp add: mtimecmp_set_def cmp_store_hi_def cmp_store_lo_def)
qed

theorem mtimecmp_set_no_spurious_witness:
  "\<not> (\<exists>v\<in>set (cmp_trace (mtimecmp_set 1000 sample_timer)). v < 1000)"
  using mtimecmp_set_no_spurious [of 1000 sample_timer]
  by (auto simp: hi32_def sample_timer_def not_less)

end
