(* ===== verification/Process.thy ===== *)
theory Process
  imports Prelude
begin

section \<open>The process table\<close>

text \<open>
  \<^verbatim>\<open>grass/process.h\<close> and \<^verbatim>\<open>grass/process.c\<close>. The array \<^verbatim>\<open>proc_set\<close> is a list of
  16 records; the static counter \<^verbatim>\<open>proc_nprocs\<close> of \<^verbatim>\<open>proc_alloc\<close> is an argument.
  \<^verbatim>\<open>proc_free\<close> also calls \<^verbatim>\<open>earth->mmu_free\<close>: the function pointer is the argument
  \<open>mmu_free\<close>, on an MMU state of any type.
\<close>

datatype proc_status = PROC_UNUSED | PROC_LOADING | PROC_READY | PROC_RUNNING
  | PROC_RUNNABLE | PROC_REQUESTING | PROC_ZOMBIE

record process =
  pid :: int
  status :: proc_status
  killable :: bool
  sp :: u32
  mepc :: u32

definition proc_set_status :: "int \<Rightarrow> proc_status \<Rightarrow> process list \<Rightarrow> process list" where
  "proc_set_status p st ps = map (\<lambda>q. if pid q = p then q\<lparr>status := st\<rparr> else q) ps"

definition proc_set_ready :: "int \<Rightarrow> process list \<Rightarrow> process list" where
  "proc_set_ready p = proc_set_status p PROC_READY"

definition proc_set_running :: "int \<Rightarrow> process list \<Rightarrow> process list" where
  "proc_set_running p = proc_set_status p PROC_RUNNING"

definition proc_set_runnable :: "int \<Rightarrow> process list \<Rightarrow> process list" where
  "proc_set_runnable p = proc_set_status p PROC_RUNNABLE"

definition proc_set_requesting :: "int \<Rightarrow> process list \<Rightarrow> process list" where
  "proc_set_requesting p = proc_set_status p PROC_REQUESTING"

definition proc_set_zombie :: "int \<Rightarrow> process list \<Rightarrow> process list" where
  "proc_set_zombie p = proc_set_status p PROC_ZOMBIE"

text \<open>\<open>None\<close> is the \<^verbatim>\<open>FATAL\<close> of a full table.\<close>

definition proc_alloc :: "int \<Rightarrow> process list \<Rightarrow> (int \<times> int \<times> process list) option" where
  "proc_alloc proc_nprocs ps =
    (case find_index (\<lambda>p. status p = PROC_UNUSED) ps of
       None \<Rightarrow> None
     | Some i \<Rightarrow>
         let n = proc_nprocs + 1
         in Some (n, n, ps[i := (ps ! i)\<lparr>pid := n, status := PROC_LOADING,
                                         killable := n \<ge> GPID_USER_START\<rparr>]))"

fun proc_free_all :: "(int \<Rightarrow> 'm \<Rightarrow> 'm) \<Rightarrow> process list \<Rightarrow> 'm \<Rightarrow> process list \<times> 'm" where
  "proc_free_all mmu_free [] m = ([], m)"
| "proc_free_all mmu_free (p # ps) m =
    (if pid p \<ge> GPID_USER_START \<and> status p \<noteq> PROC_UNUSED then
       (case proc_free_all mmu_free ps (mmu_free (pid p) m) of
          (ps', m') \<Rightarrow> (p\<lparr>status := PROC_UNUSED\<rparr> # ps', m'))
     else (case proc_free_all mmu_free ps m of (ps', m') \<Rightarrow> (p # ps', m')))"

definition proc_free :: "(int \<Rightarrow> 'm \<Rightarrow> 'm) \<Rightarrow> int \<Rightarrow> process list \<Rightarrow> 'm \<Rightarrow> process list \<times> 'm" where
  "proc_free mmu_free p ps m =
    (if p \<noteq> - 1 then (proc_set_status p PROC_UNUSED ps, mmu_free p m)
     else proc_free_all mmu_free ps m)"

lemmas proc_set_defs =
  proc_set_ready_def proc_set_running_def proc_set_runnable_def
  proc_set_requesting_def proc_set_zombie_def

subsection \<open>Well-formed tables\<close>

text \<open>
  A slot that was never allocated has pid 0 and is unused; every other pid was handed out
  by \<^verbatim>\<open>proc_alloc\<close>, so it is between 1 and the counter, and no two slots share it.
\<close>

definition ptable_inv :: "int \<Rightarrow> process list \<Rightarrow> bool" where
  "ptable_inv n ps \<longleftrightarrow> length ps = MAX_NPROCESS \<and> 0 \<le> n
     \<and> (\<forall>i<length ps. 0 \<le> pid (ps ! i) \<and> pid (ps ! i) \<le> n
          \<and> (pid (ps ! i) = 0 \<longrightarrow> status (ps ! i) = PROC_UNUSED))
     \<and> (\<forall>i<length ps. \<forall>j<length ps. pid (ps ! i) = pid (ps ! j) \<and> pid (ps ! i) \<noteq> 0 \<longrightarrow> i = j)"

definition killable_inv :: "process list \<Rightarrow> bool" where
  "killable_inv ps \<longleftrightarrow>
     (\<forall>p\<in>set ps. status p \<noteq> PROC_UNUSED \<longrightarrow> killable p = (pid p \<ge> GPID_USER_START))"

lemma ptable_invD:
  assumes "ptable_inv n ps"
  shows "length ps = MAX_NPROCESS" "0 \<le> n"
    "i < length ps \<Longrightarrow> 0 \<le> pid (ps ! i)" "i < length ps \<Longrightarrow> pid (ps ! i) \<le> n"
    "i < length ps \<Longrightarrow> pid (ps ! i) = 0 \<Longrightarrow> status (ps ! i) = PROC_UNUSED"
    "i < length ps \<Longrightarrow> j < length ps \<Longrightarrow> pid (ps ! i) = pid (ps ! j) \<Longrightarrow> pid (ps ! i) \<noteq> 0 \<Longrightarrow> i = j"
  using assms unfolding ptable_inv_def by blast+

lemma proc_set_status_length [simp]: "length (proc_set_status p st ps) = length ps"
  by (simp add: proc_set_status_def)

lemma proc_set_status_nth:
  "i < length ps \<Longrightarrow> proc_set_status p st ps ! i =
     (if pid (ps ! i) = p then (ps ! i)\<lparr>status := st\<rparr> else ps ! i)"
  by (simp add: proc_set_status_def)

lemma proc_set_status_pid [simp]:
  "i < length ps \<Longrightarrow> pid (proc_set_status p st ps ! i) = pid (ps ! i)"
  by (simp add: proc_set_status_nth)

lemma proc_set_status_ptable:
  assumes "ptable_inv n ps" "p \<noteq> 0"
  shows "ptable_inv n (proc_set_status p st ps)"
  using assms unfolding ptable_inv_def by (auto simp: proc_set_status_nth)

lemma proc_set_status_update:
  assumes "ptable_inv n ps" "i < length ps" "pid (ps ! i) = p" "p \<noteq> 0"
  shows "proc_set_status p st ps = ps[i := (ps ! i)\<lparr>status := st\<rparr>]"
proof (rule nth_equalityI)
  fix j
  assume "j < length (proc_set_status p st ps)"
  then have "j < length ps" by simp
  with assms ptable_invD(6) [OF assms(1), of i j]
  show "proc_set_status p st ps ! j = ps[i := (ps ! i)\<lparr>status := st\<rparr>] ! j"
    by (auto simp: proc_set_status_nth nth_list_update)
qed simp

lemma proc_alloc_spec:
  assumes "ptable_inv n ps" "killable_inv ps"
  shows "case proc_alloc n ps of
      None \<Rightarrow> \<forall>p\<in>set ps. status p \<noteq> PROC_UNUSED
    | Some (p, n', ps') \<Rightarrow> n < p \<and> p \<notin> pid ` set ps \<and> ptable_inv n' ps' \<and> killable_inv ps'
        \<and> (\<exists>i<length ps. status (ps ! i) = PROC_UNUSED \<and> pid (ps' ! i) = p
             \<and> status (ps' ! i) = PROC_LOADING \<and> killable (ps' ! i) = (p \<ge> GPID_USER_START)
             \<and> (\<forall>j<length ps. j \<noteq> i \<longrightarrow> ps' ! j = ps ! j))"
proof (cases "find_index (\<lambda>p. status p = PROC_UNUSED) ps")
  case None
  moreover from this have "\<forall>p\<in>set ps. status p \<noteq> PROC_UNUSED" by (simp only: find_index_None_iff)
  ultimately show ?thesis by (simp add: proc_alloc_def)
next
  case (Some i)
  note i = find_index_SomeD [OF Some]
  let ?ps = "ps[i := (ps ! i)\<lparr>pid := n + 1, status := PROC_LOADING, killable := n + 1 \<ge> GPID_USER_START\<rparr>]"
  have le: "pid (ps ! j) \<le> n" "0 \<le> pid (ps ! j)" if "j < length ps" for j
    using ptable_invD(3,4) [OF assms(1)] that by auto
  then have "n + 1 \<notin> pid ` set ps" by (force simp: in_set_conv_nth)
  moreover have "ptable_inv (n + 1) ?ps"
    unfolding ptable_inv_def using assms(1) le i(1)
    by (auto simp: nth_list_update dest: ptable_invD) (force dest: ptable_invD)+
  moreover have "killable_inv ?ps"
    using assms(2) i(1) by (auto simp: killable_inv_def dest!: set_update_subset_insert [THEN subsetD])
  ultimately show ?thesis
    using Some i(1,2) by (auto simp: proc_alloc_def Let_def intro!: exI [of _ i])
qed

text \<open>
  Allocation hands out a fresh pid: it fails exactly when all 16 slots are in use;
  otherwise the new pid differs from every pid in the table, one unused slot becomes a
  loading process with that pid, killable exactly if it is a user process, all other slots
  are untouched and the table stays well formed.
\<close>

theorem proc_alloc_fresh:
  assumes "ptable_inv n ps" "killable_inv ps"
  shows "case proc_alloc n ps of
      None \<Rightarrow> \<forall>p\<in>set ps. status p \<noteq> PROC_UNUSED
    | Some (p, n', ps') \<Rightarrow> n < p \<and> p \<notin> pid ` set ps \<and> ptable_inv n' ps' \<and> killable_inv ps'
        \<and> (\<exists>i<length ps. status (ps ! i) = PROC_UNUSED \<and> pid (ps' ! i) = p
             \<and> status (ps' ! i) = PROC_LOADING \<and> killable (ps' ! i) = (p \<ge> GPID_USER_START)
             \<and> (\<forall>j<length ps. j \<noteq> i \<longrightarrow> ps' ! j = ps ! j))"
  using assms by (rule proc_alloc_spec)

definition sample_procs :: "process list" where
  "sample_procs = \<lparr>pid = 1, status = PROC_RUNNING, killable = False, sp = 0, mepc = 0\<rparr>
     # replicate 15 \<lparr>pid = 0, status = PROC_UNUSED, killable = False, sp = 0, mepc = 0\<rparr>"

lemma sample_procs_nth:
  "i < 16 \<Longrightarrow> sample_procs ! i = (if i = 0 then \<lparr>pid = 1, status = PROC_RUNNING, killable = False, sp = 0, mepc = 0\<rparr>
     else \<lparr>pid = 0, status = PROC_UNUSED, killable = False, sp = 0, mepc = 0\<rparr>)"
  by (simp add: sample_procs_def nth_Cons')

lemma sample_procs_length: "length sample_procs = 16"
  by (simp add: sample_procs_def)

lemma sample_procs_inv: "ptable_inv 1 sample_procs" "killable_inv sample_procs"
proof -
  show "ptable_inv 1 sample_procs"
    by (auto simp: ptable_inv_def sample_procs_length sample_procs_nth split: if_splits)
  show "killable_inv sample_procs"
    by (auto simp: killable_inv_def sample_procs_def)
qed

theorem proc_alloc_fresh_witness:
  "\<exists>ps'. proc_alloc 1 sample_procs = Some (2, 2, ps') \<and> ptable_inv 2 ps'"
proof -
  have "find_index (\<lambda>p. status p = PROC_UNUSED) sample_procs = Some 1"
    by (simp add: sample_procs_def numeral_eq_Suc)
  then have "\<exists>ps'. proc_alloc 1 sample_procs = Some (2, 2, ps')" by (simp add: proc_alloc_def)
  with proc_alloc_fresh [OF sample_procs_inv] show ?thesis by auto
qed

lemma proc_free_all_eq:
  "proc_free_all mmu_free ps m =
     (map (\<lambda>p. if pid p \<ge> GPID_USER_START then p\<lparr>status := PROC_UNUSED\<rparr> else p) ps,
      fold mmu_free (map pid (filter (\<lambda>p. pid p \<ge> GPID_USER_START \<and> status p \<noteq> PROC_UNUSED) ps)) m)"
  by (induction ps arbitrary: m) auto

text \<open>
  Freeing every user application (\<^verbatim>\<open>proc_free(-1)\<close>, the \<^verbatim>\<open>killall\<close> of the process
  server) releases exactly the user processes: their slots become unused, system processes
  keep their slots unchanged, and the MMU is told to free each freed pid, in table order.
\<close>

theorem proc_free_killall:
  "proc_free mmu_free (- 1) ps m =
     (map (\<lambda>p. if pid p \<ge> GPID_USER_START then p\<lparr>status := PROC_UNUSED\<rparr> else p) ps,
      fold mmu_free (map pid (filter (\<lambda>p. pid p \<ge> GPID_USER_START \<and> status p \<noteq> PROC_UNUSED) ps)) m)"
  by (simp add: proc_free_def proc_free_all_eq)

end
