(* ===== verification/Kernel.thy ===== *)
theory Kernel
  imports Tty Timer Process
begin

section \<open>The grass kernel: traps, system calls, scheduling\<close>

text \<open>
  \<^verbatim>\<open>grass/kernel.c\<close>, \<^verbatim>\<open>grass/syscall.c\<close> and the trap side of
  \<^verbatim>\<open>earth/cpu_intr.c\<close>, as functions on one state record. The record holds the kernel's
  globals (\<^verbatim>\<open>proc_set\<close>, \<^verbatim>\<open>proc_curr_idx\<close>, \<^verbatim>\<open>KERNEL_MSG_BUFF\<close>), the drivers' states,
  the CSRs the kernel uses, the software interrupt register at \<^verbatim>\<open>0x2000000\<close> and the
  address spaces. \<open>spaces k p\<close> is the user memory of process \<open>p\<close>: the
  \<^verbatim>\<open>struct syscall\<close> at \<^verbatim>\<open>SYSCALL_ARG\<close>, kept apart as a record, and the rest as
  bytes. The pointer \<^verbatim>\<open>sc\<close> reads whichever space is mapped, \<open>vm_pid\<close>, and
  \<open>mmu_switch\<close> changes only that: this is the contract of the MMU that the theory
  \<open>Mmu\<close> proves for the copying implementation of \<^verbatim>\<open>earth/cpu_mmu.c\<close>.
  What devices and uninitialised memory return is an input: \<open>plic_claim n\<close> is the
  \<open>n\<close>-th claim read from the PLIC, \<open>stack_rc n\<close> what the uninitialised \<^verbatim>\<open>rc\<close> of
  \<^verbatim>\<open>tty_handle_intr\<close> holds then, \<open>stack_junk\<close> the bytes of the partly
  initialised request in \<^verbatim>\<open>special_handle\<close>. A handler that never gives control back
  is \<open>None\<close>.
\<close>

subsection \<open>State\<close>

abbreviation (input) SYS_UNUSED :: int where "SYS_UNUSED \<equiv> 0"
abbreviation (input) SYS_RECV :: int where "SYS_RECV \<equiv> 1"
abbreviation (input) SYS_SEND :: int where "SYS_SEND \<equiv> 2"
abbreviation (input) TTY_READ :: int where "TTY_READ \<equiv> 3"
abbreviation (input) TTY_WRITE :: int where "TTY_WRITE \<equiv> 4"

record sys_msg =
  msg_sender :: int
  msg_receiver :: int
  msg_content :: "byte list"

record syscall =
  sc_type :: int
  sc_msg :: sys_msg
  sc_retval :: int

record uspace =
  us_sc :: syscall
  us_mem :: "u32 \<Rightarrow> byte"

record kernel_msg =
  in_use :: int
  km_sender :: int
  km_receiver :: int
  km_msg :: "byte list"

record kernel =
  proc_set :: "process list"
  proc_nprocs :: int
  proc_curr_idx :: nat
  kmsg :: kernel_msg
  spaces :: "int \<Rightarrow> uspace"
  vm_pid :: int
  ktty :: tty
  ktimer :: timer
  plic_claim :: "nat \<Rightarrow> u32"
  claim_count :: nat
  claim_done :: "u32 list"
  stack_rc :: "nat \<Rightarrow> int"
  stack_junk :: "nat \<Rightarrow> byte"
  proc_idle_pc :: u32
  csr_mepc :: u32
  csr_mscratch :: u32
  csr_mie :: u32
  msip :: int
  reg_a0 :: u32
  reg_a1 :: u32
  intr_registered :: bool
  excp_registered :: bool

datatype kexit = Return | Ctx_jump | Enter_app
datatype kentry = Proc_yield | Proc_syscall | Proc_external

abbreviation (input) INTR_ID_SOFT :: nat where "INTR_ID_SOFT \<equiv> 3"
abbreviation (input) INTR_ID_TIMER :: nat where "INTR_ID_TIMER \<equiv> 7"
abbreviation (input) INTR_ID_EXTERNAL :: nat where "INTR_ID_EXTERNAL \<equiv> 11"
abbreviation (input) PLIC_UART0_ID :: u32 where "PLIC_UART0_ID \<equiv> 3"

definition curr_pid :: "kernel \<Rightarrow> int" where
  "curr_pid k = pid (proc_set k ! proc_curr_idx k)"

definition curr_status :: "kernel \<Rightarrow> proc_status" where
  "curr_status k = status (proc_set k ! proc_curr_idx k)"

definition set_procs :: "(process list \<Rightarrow> process list) \<Rightarrow> kernel \<Rightarrow> kernel" where
  "set_procs f k = k\<lparr>proc_set := f (proc_set k)\<rparr>"

definition mmu_switch :: "int \<Rightarrow> kernel \<Rightarrow> kernel" where
  "mmu_switch p k = k\<lparr>vm_pid := p\<rparr>"

text \<open>\<open>sc k\<close> is \<^verbatim>\<open>*sc\<close>, \<open>set_sc\<close> a store through the pointer.\<close>

definition sc :: "kernel \<Rightarrow> syscall" where
  "sc k = us_sc (spaces k (vm_pid k))"

definition set_sc :: "syscall \<Rightarrow> kernel \<Rightarrow> kernel" where
  "set_sc v k = k\<lparr>spaces := (spaces k)(vm_pid k := (spaces k (vm_pid k))\<lparr>us_sc := v\<rparr>)\<rparr>"

definition store_user :: "u32 \<Rightarrow> byte \<Rightarrow> kernel \<Rightarrow> kernel" where
  "store_user a c k =
    k\<lparr>spaces := (spaces k)(vm_pid k := (spaces k (vm_pid k))
        \<lparr>us_mem := (us_mem (spaces k (vm_pid k)))(a := c)\<rparr>)\<rparr>"

subsection \<open>System call interface of the applications (grass/syscall.c)\<close>

text \<open>
  Each call writes its arguments into \<^verbatim>\<open>*sc\<close>, raises the software interrupt
  (\<^verbatim>\<open>sys_invoke\<close>) and then spins until the kernel has reset \<^verbatim>\<open>sc->type\<close>. \<open>Inl rc\<close> is
  the early return, \<open>Inr k\<close> the state in which the caller starts to spin.
\<close>

definition sys_invoke :: "kernel \<Rightarrow> kernel" where
  "sys_invoke k = k\<lparr>msip := 1\<rparr>"

definition sys_spins :: "kernel \<Rightarrow> bool" where
  "sys_spins k \<longleftrightarrow> sc_type (sc k) \<noteq> SYS_UNUSED"

definition sys_send_req :: "int \<Rightarrow> byte list \<Rightarrow> nat \<Rightarrow> kernel \<Rightarrow> int + kernel" where
  "sys_send_req receiver msg sz k =
    (if sz > SYSCALL_MSG_LEN then Inl (- 1)
     else Inr (sys_invoke (set_sc (sc k\<lparr>sc_type := SYS_SEND,
       sc_msg := (sc_msg (sc k))\<lparr>msg_receiver := receiver,
         msg_content := take sz msg @ drop sz (msg_content (sc_msg (sc k)))\<rparr>\<rparr>) k)))"

definition sys_recv_req :: "nat \<Rightarrow> kernel \<Rightarrow> int + kernel" where
  "sys_recv_req sz k =
    (if sz > SYSCALL_MSG_LEN then Inl (- 1)
     else Inr (sys_invoke (set_sc (sc k\<lparr>sc_type := SYS_RECV\<rparr>) k)))"

text \<open>What \<^verbatim>\<open>sys_recv\<close> hands to its caller after the spin: buffer, sender, return value.\<close>

definition sys_recv_result :: "nat \<Rightarrow> kernel \<Rightarrow> byte list \<times> int \<times> int" where
  "sys_recv_result sz k =
    (take sz (msg_content (sc_msg (sc k))), msg_sender (sc_msg (sc k)), sc_retval (sc k))"

definition sys_tty_read_req :: "u32 \<Rightarrow> kernel \<Rightarrow> kernel" where
  "sys_tty_read_req c k =
    sys_invoke (set_sc (sc k\<lparr>sc_type := TTY_READ,
      sc_msg := (sc_msg (sc k))\<lparr>msg_content := put32 (msg_content (sc_msg (sc k))) 0 (unat c)\<rparr>\<rparr>) k)"

definition sys_tty_write_req :: "u32 \<Rightarrow> int \<Rightarrow> kernel \<Rightarrow> kernel" where
  "sys_tty_write_req msg len k =
    sys_invoke (set_sc (sc k\<lparr>sc_type := TTY_WRITE,
      sc_msg := (sc_msg (sc k))\<lparr>msg_content :=
        put32 (put32 (msg_content (sc_msg (sc k))) 0 (unat msg)) 1 (u32_of_int len)\<rparr>\<rparr>) k)"

subsection \<open>System call handlers (grass/kernel.c)\<close>

definition kernel_init :: "kernel \<Rightarrow> kernel" where
  "kernel_init k = k\<lparr>kmsg := (kmsg k)\<lparr>in_use := 0\<rparr>\<rparr>"

definition y_send :: "kernel \<Rightarrow> int \<times> kernel" where
  "y_send k =
    (if in_use (kmsg k) = 1 then (- 1, k)
     else (0, k\<lparr>kmsg := \<lparr>in_use = 1, km_sender = curr_pid k,
       km_receiver = msg_receiver (sc_msg (sc k)), km_msg = msg_content (sc_msg (sc k))\<rparr>\<rparr>))"

definition y_recv :: "kernel \<Rightarrow> int \<times> kernel" where
  "y_recv k =
    (if in_use (kmsg k) = 0 \<or> km_receiver (kmsg k) \<noteq> curr_pid k then (- 1, k)
     else let k = k\<lparr>kmsg := (kmsg k)\<lparr>in_use := 0\<rparr>\<rparr>
          in (0, set_sc (sc k\<lparr>sc_msg := (sc_msg (sc k))\<lparr>msg_content := km_msg (kmsg k),
                                                       msg_sender := km_sender (kmsg k)\<rparr>\<rparr>) k))"

definition proc_tty_read :: "kernel \<Rightarrow> int \<times> kernel" where
  "proc_tty_read k =
    (let c = word_of_nat (get32 (msg_content (sc_msg (sc k))) 0)
     in case tty_read (ktty k) of (rc, ch, t) \<Rightarrow>
          (rc, case ch of None \<Rightarrow> k\<lparr>ktty := t\<rparr> | Some b \<Rightarrow> store_user c b (k\<lparr>ktty := t\<rparr>)))"

definition proc_tty_write :: "kernel \<Rightarrow> int \<times> kernel" where
  "proc_tty_write k =
    (let msg = word_of_nat (get32 (msg_content (sc_msg (sc k))) 0) :: u32;
         len = int_of_u32 (get32 (msg_content (sc_msg (sc k))) 1)
     in case tty_write (\<lambda>i. us_mem (spaces k (vm_pid k)) (msg + of_nat i)) len (ktty k) of
          (rc, t) \<Rightarrow> (rc, k\<lparr>ktty := t\<rparr>))"

definition syscall_dispatch :: "int \<Rightarrow> kernel \<Rightarrow> int \<times> kernel" where
  "syscall_dispatch type k =
    (if type = SYS_RECV then y_recv k
     else if type = SYS_SEND then y_send k
     else if type = TTY_READ then proc_tty_read k
     else if type = TTY_WRITE then proc_tty_write k
     else (- 1, k))"

definition syscall_handle :: "kernel \<Rightarrow> kernel" where
  "syscall_handle k =
    (let type = sc_type (sc k);
         k = set_sc (sc k\<lparr>sc_retval := 0, sc_type := SYS_UNUSED\<rparr>) k;
         k = k\<lparr>msip := 0\<rparr>;
         k = set_procs (proc_set_requesting (curr_pid k)) k
     in case syscall_dispatch type k of (rc, k) \<Rightarrow>
          if rc = 0 then set_procs (proc_set_runnable (curr_pid k)) k
          else if rc = - 1 then set_sc (sc k\<lparr>sc_type := type\<rparr>) k
          else let k = set_procs (proc_set_runnable (curr_pid k)) k
               in set_sc (sc k\<lparr>sc_retval := - 1\<rparr>) k)"

subsection \<open>External interrupts\<close>

definition trap_external :: "kernel \<Rightarrow> (int \<times> kernel) option" where
  "trap_external k =
    (let n = claim_count k; intr_cause = plic_claim k n
     in do { (rc, t) \<leftarrow> (if intr_cause = PLIC_UART0_ID then tty_handle_intr (stack_rc k n) (ktty k)
                         else Some (0, ktty k));
             Some (rc, k\<lparr>ktty := t, claim_count := Suc n,
                          claim_done := claim_done k @ [intr_cause]\<rparr>) })"

text \<open>
  \<^verbatim>\<open>special_handle\<close>: the loop returns \<open>None\<close> for the early \<^verbatim>\<open>return\<close> and otherwise
  \<^verbatim>\<open>killall_sent\<close>. The request copied to the victim's \<^verbatim>\<open>sc->msg.content\<close> has only its
  first field set: \<^verbatim>\<open>PROC_KILLALL\<close> is 2 and the structure has 520 bytes.
\<close>

definition send_killall :: "nat \<Rightarrow> kernel \<Rightarrow> kernel" where
  "send_killall i k =
    (let p = pid (proc_set k ! i);
         k = mmu_switch p k;
         req = [2, 0, 0, 0] @ map (stack_junk k) [0..<516];
         k = set_sc (sc k\<lparr>sc_msg := (sc_msg (sc k))\<lparr>msg_content :=
               req @ drop 520 (msg_content (sc_msg (sc k)))\<rparr>\<rparr>) k;
         k = set_sc (sc k\<lparr>sc_type := SYS_SEND\<rparr>) k;
         k = set_procs (proc_set_requesting p) k
     in set_procs (\<lambda>ps. ps[i := (ps ! i)\<lparr>mepc := proc_idle_pc k\<rparr>]) k)"

fun special_loop :: "nat \<Rightarrow> nat \<Rightarrow> nat \<Rightarrow> kernel \<Rightarrow> nat option \<times> kernel" where
  "special_loop 0 i killall_sent k = (Some killall_sent, k)"
| "special_loop (Suc n) i killall_sent k =
    (let proc = proc_set k ! i in
     if pid proc \<le> GPID_SHELL \<and> status proc \<noteq> PROC_UNUSED \<and> status proc \<noteq> PROC_REQUESTING
     then (None, k)
     else if \<not> killable proc \<or> status proc = PROC_UNUSED
     then special_loop n (Suc i) killall_sent k
     else if killall_sent \<noteq> 0
     then special_loop n (Suc i) killall_sent (set_procs (proc_set_zombie (pid proc)) k)
     else special_loop n (Suc i) (Suc killall_sent) (send_killall i k))"

definition special_handle :: "kernel \<Rightarrow> kernel option" where
  "special_handle k =
    (case special_loop MAX_NPROCESS 0 0 k of
       (None, k) \<Rightarrow> Some k
     | (Some killall_sent, k) \<Rightarrow>
         if killall_sent \<noteq> 0 then
           do { (_, t) \<leftarrow> tty_write_kernel [0x5E, 0x43, 0x0A] (ktty k);
                Some (k\<lparr>ktty := snd (snd (tty_read_tail t))\<rparr>) }
         else Some k)"

fun external_loop :: "nat \<Rightarrow> nat \<Rightarrow> kernel \<Rightarrow> kernel" where
  "external_loop 0 i k = k"
| "external_loop (Suc n) i k =
    external_loop n (Suc i)
      (if status (proc_set k ! i) = PROC_REQUESTING
       then syscall_handle (mmu_switch (pid (proc_set k ! i)) (k\<lparr>proc_curr_idx := i\<rparr>))
       else k)"

definition external_handle :: "kernel \<Rightarrow> kernel option" where
  "external_handle k =
    do { (rc, k) \<leftarrow> trap_external k;
         let orig_proc_idx = proc_curr_idx k;
         k \<leftarrow> (if rc = RET_SPECIAL_CHAR then special_handle k else Some k);
         let k = external_loop MAX_NPROCESS 0 k;
         let k = k\<lparr>proc_curr_idx := orig_proc_idx\<rparr>;
         Some (mmu_switch (curr_pid k) k) }"

definition proc_wait :: "kernel \<Rightarrow> kernel option" where
  "proc_wait k =
    (let mie = csr_mie k;
         k = k\<lparr>csr_mie := mie AND NOT 0x88\<rparr>;
         k = k\<lparr>csr_mie := mie OR 0x88\<rparr>
     in external_handle k)"

subsection \<open>Scheduling\<close>

definition schedulable :: "proc_status \<Rightarrow> bool" where
  "schedulable st \<longleftrightarrow> st = PROC_READY \<or> st = PROC_RUNNING \<or> st = PROC_RUNNABLE"

definition find_next :: "kernel \<Rightarrow> nat option" where
  "find_next k =
    List.find (\<lambda>j. schedulable (status (proc_set k ! j)))
      (map (\<lambda>i. (proc_curr_idx k + i) mod MAX_NPROCESS) [1..<Suc MAX_NPROCESS])"

partial_function (option) yield_find :: "kernel \<Rightarrow> (nat \<times> kernel) option" where
  "yield_find k =
    (case find_next k of
       Some next_idx \<Rightarrow> Some (next_idx, k)
     | None \<Rightarrow> do { k' \<leftarrow> proc_wait k; yield_find k' })"

definition proc_yield :: "kernel \<Rightarrow> (kexit \<times> kernel) option" where
  "proc_yield k =
    do { k \<leftarrow> external_handle k;
         (next_idx, k) \<leftarrow> yield_find k;
         let next_status = status (proc_set k ! next_idx);
         let k = (if curr_status k = PROC_RUNNING
                  then set_procs (proc_set_runnable (curr_pid k)) k else k);
         let k = k\<lparr>proc_curr_idx := next_idx\<rparr>;
         let k = mmu_switch (curr_pid k) k;
         t \<leftarrow> timer_reset (ktimer k);
         let k = k\<lparr>ktimer := t\<rparr>;
         let k = set_procs (proc_set_running (curr_pid k)) k;
         if next_status = PROC_READY
         then Some (Enter_app, k\<lparr>ktty := tty_user_mode (ktty k), reg_a0 := APPS_ARG,
                     reg_a1 := APPS_ARG + 4, csr_mepc := APPS_ENTRY\<rparr>)
         else Some (Return, k) }"

definition proc_syscall :: "kernel \<Rightarrow> (kexit \<times> kernel) option" where
  "proc_syscall k = proc_yield (syscall_handle k)"

definition proc_external :: "kernel \<Rightarrow> (kexit \<times> kernel) option" where
  "proc_external k = do { k \<leftarrow> external_handle k; proc_yield k }"

fun kernel_entry :: "kentry \<Rightarrow> kernel \<Rightarrow> (kexit \<times> kernel) option" where
  "kernel_entry Proc_yield k = proc_yield k"
| "kernel_entry Proc_syscall k = proc_syscall k"
| "kernel_entry Proc_external k = proc_external k"

definition ctx_entry :: "kentry \<Rightarrow> kernel \<Rightarrow> (kexit \<times> kernel) option" where
  "ctx_entry e k =
    do { let k = set_procs (\<lambda>ps. ps[proc_curr_idx k := (ps ! proc_curr_idx k)
                 \<lparr>mepc := csr_mepc k, sp := csr_mscratch k\<rparr>]) k;
         (x, k) \<leftarrow> kernel_entry e k;
         if x = Enter_app then Some (Enter_app, k)
         else Some (Ctx_jump, k\<lparr>csr_mepc := mepc (proc_set k ! proc_curr_idx k),
                csr_mscratch := sp (proc_set k ! proc_curr_idx k), ktty := tty_user_mode (ktty k)\<rparr>) }"

definition intr_entry :: "nat \<Rightarrow> kernel \<Rightarrow> (kexit \<times> kernel) option" where
  "intr_entry i k =
    (if i = INTR_ID_TIMER \<and> curr_pid k < GPID_SHELL then
       do { t \<leftarrow> timer_reset (ktimer k);
            Some (Ctx_jump, k\<lparr>ktimer := t, ktty := tty_user_mode (ktty k)\<rparr>) }
     else if i = INTR_ID_SOFT then ctx_entry Proc_syscall k
     else if i = INTR_ID_TIMER then ctx_entry Proc_yield k
     else if i = INTR_ID_EXTERNAL then ctx_entry Proc_external k
     else None)"

text \<open>\<^verbatim>\<open>excp_entry\<close> has an empty body.\<close>

definition excp_entry :: "nat \<Rightarrow> kernel \<Rightarrow> (kexit \<times> kernel) option" where
  "excp_entry i k = Some (Return, k)"

definition trap_entry :: "u32 \<Rightarrow> kernel \<Rightarrow> (kexit \<times> kernel) option" where
  "trap_entry mcause k =
    (let k = k\<lparr>ktty := tty_kernel_mode (ktty k)\<rparr>;
         i = unat (mcause AND 0x3FF)
     in if mcause AND push_bit 31 1 \<noteq> 0
        then (if intr_registered k then intr_entry i k else None)
        else (if excp_registered k then excp_entry i k else None))"

subsection \<open>Start of the grass layer (grass/grass.c)\<close>

text \<open>
  \<^verbatim>\<open>main\<close> of the grass layer. \<open>img\<close> is the address space that \<^verbatim>\<open>elf_load\<close> builds for the
  first process; the function pointers of \<^verbatim>\<open>struct grass\<close> are not state of the model.
\<close>

definition grass_main :: "uspace \<Rightarrow> kernel \<Rightarrow> kernel option" where
  "grass_main img k =
    do { let k = kernel_init k;
         let k = k\<lparr>intr_registered := True, excp_registered := True\<rparr>;
         let k = k\<lparr>spaces := (spaces k)(GPID_PROCESS := img)\<rparr>;
         (p, n, ps) \<leftarrow> proc_alloc (proc_nprocs k) (proc_set k);
         let k = k\<lparr>proc_nprocs := n, proc_set := proc_set_running p ps\<rparr>;
         let k = mmu_switch GPID_PROCESS k;
         Some (k\<lparr>ktty := tty_user_mode (ktty k), reg_a0 := APPS_ARG, csr_mepc := APPS_ENTRY\<rparr>) }"

end
