(* ===== verification/Ipc.thy ===== *)
theory Ipc
  imports Kernel
begin

section \<open>Inter-process communication through the kernel's message buffer\<close>

text \<open>
  The one-message buffer \<^verbatim>\<open>KERNEL_MSG_BUFF\<close> with \<^verbatim>\<open>y_send\<close> and \<^verbatim>\<open>y_recv\<close> is a
  mailbox for one message: the locale \<open>mailbox\<close> is its contract, interpreted on the
  kernel's own functions. On top of it come the system calls: a send followed by a receive
  transfers the message, its length and the sender's identity between two address spaces.
\<close>

subsection \<open>The contract of a one-place mailbox\<close>

locale mailbox =
  fixes chan :: "'s \<Rightarrow> ('p \<times> 'p \<times> 'm) option"
    and me :: "'s \<Rightarrow> 'p"
    and outgoing :: "'s \<Rightarrow> 'p \<times> 'm"
    and incoming :: "'s \<Rightarrow> 'p \<times> 'm"
    and send :: "'s \<Rightarrow> int \<times> 's"
    and recv :: "'s \<Rightarrow> int \<times> 's"
    and ok :: "'s \<Rightarrow> bool"
  assumes send_free: "ok s \<Longrightarrow> chan s = None \<Longrightarrow>
      fst (send s) = 0 \<and> chan (snd (send s)) = Some (me s, outgoing s) \<and> ok (snd (send s))"
    and send_busy: "ok s \<Longrightarrow> chan s \<noteq> None \<Longrightarrow> send s = (- 1, s)"
    and recv_mine: "ok s \<Longrightarrow> chan s = Some (p, me s, m) \<Longrightarrow>
      fst (recv s) = 0 \<and> chan (snd (recv s)) = None \<and> incoming (snd (recv s)) = (p, m)
      \<and> ok (snd (recv s))"
    and recv_wait: "ok s \<Longrightarrow> \<forall>p m. chan s \<noteq> Some (p, me s, m) \<Longrightarrow> recv s = (- 1, s)"
begin

lemma ok_send: "ok s \<Longrightarrow> ok (snd (send s))"
  by (cases "chan s = None") (simp_all add: send_free send_busy)

lemma ok_recv: "ok s \<Longrightarrow> ok (snd (recv s))"
  by (cases "\<exists>p m. chan s = Some (p, me s, m)") (auto simp: recv_mine recv_wait)

text \<open>A message arrives as it was sent, at the addressed process, whoever ran in between.\<close>

lemma transfer:
  assumes "ok s" "chan s = None" "ok s2" "chan s2 = chan (snd (send s))" "me s2 = fst (outgoing s)"
  shows "fst (send s) = 0 \<and> fst (recv s2) = 0 \<and> chan (snd (recv s2)) = None
     \<and> incoming (snd (recv s2)) = (me s, snd (outgoing s))"
proof -
  from send_free [OF assms(1,2)] assms(4,5)
  have "chan s2 = Some (me s, me s2, snd (outgoing s))" by simp
  from recv_mine [OF assms(3) this] send_free [OF assms(1,2)] show ?thesis by simp
qed

text \<open>Nobody but the addressee can take a message or replace it.\<close>

lemma protected:
  assumes "ok s" "chan s = Some (p, r, m)" "me s \<noteq> r"
  shows "send s = (- 1, s) \<and> recv s = (- 1, s)"
  using assms by (auto intro: send_busy recv_wait)

text \<open>A message is delivered once: the next receive waits.\<close>

lemma delivered_once:
  assumes "ok s" "chan s = Some (p, me s, m)"
  shows "recv (snd (recv s)) = (- 1, snd (recv s))"
  using recv_mine [OF assms] by (intro recv_wait) auto

end

subsection \<open>The kernel buffer is a mailbox\<close>

definition msg_chan :: "kernel \<Rightarrow> (int \<times> int \<times> byte list) option" where
  "msg_chan k = (if in_use (kmsg k) = 0 then None
     else Some (km_sender (kmsg k), km_receiver (kmsg k), km_msg (kmsg k)))"

definition msg_out :: "kernel \<Rightarrow> int \<times> byte list" where
  "msg_out k = (msg_receiver (sc_msg (sc k)), msg_content (sc_msg (sc k)))"

definition msg_in :: "kernel \<Rightarrow> int \<times> byte list" where
  "msg_in k = (msg_sender (sc_msg (sc k)), msg_content (sc_msg (sc k)))"

definition kmsg_ok :: "kernel \<Rightarrow> bool" where
  "kmsg_ok k \<longleftrightarrow> in_use (kmsg k) = 0 \<or> in_use (kmsg k) = 1"

lemma sc_set_sc [simp, kernel_simps]: "sc (set_sc v k) = v"
  by (simp add: sc_def set_sc_def)

lemma set_sc_fields [simp, kernel_simps]:
  "kmsg (set_sc v k) = kmsg k" "proc_set (set_sc v k) = proc_set k"
  "proc_curr_idx (set_sc v k) = proc_curr_idx k" "vm_pid (set_sc v k) = vm_pid k"
  "curr_pid (set_sc v k) = curr_pid k" "ktty (set_sc v k) = ktty k"
  "proc_nprocs (set_sc v k) = proc_nprocs k" "ktimer (set_sc v k) = ktimer k"
  "msip (set_sc v k) = msip k" "csr_mepc (set_sc v k) = csr_mepc k"
  "csr_mscratch (set_sc v k) = csr_mscratch k"
  "plic_claim (set_sc v k) = plic_claim k" "claim_count (set_sc v k) = claim_count k"
  by (simp_all add: set_sc_def curr_pid_def)

lemma set_procs_fields [simp, kernel_simps]:
  "kmsg (set_procs f k) = kmsg k" "proc_set (set_procs f k) = f (proc_set k)"
  "proc_curr_idx (set_procs f k) = proc_curr_idx k" "vm_pid (set_procs f k) = vm_pid k"
  "sc (set_procs f k) = sc k" "ktty (set_procs f k) = ktty k" "spaces (set_procs f k) = spaces k"
  "proc_nprocs (set_procs f k) = proc_nprocs k" "ktimer (set_procs f k) = ktimer k"
  "msip (set_procs f k) = msip k" "csr_mepc (set_procs f k) = csr_mepc k"
  "csr_mscratch (set_procs f k) = csr_mscratch k"
  "plic_claim (set_procs f k) = plic_claim k" "claim_count (set_procs f k) = claim_count k"
  by (simp_all add: set_procs_def sc_def)

lemma mmu_switch_fields [simp, kernel_simps]:
  "kmsg (mmu_switch p k) = kmsg k" "proc_set (mmu_switch p k) = proc_set k"
  "proc_curr_idx (mmu_switch p k) = proc_curr_idx k" "vm_pid (mmu_switch p k) = p"
  "curr_pid (mmu_switch p k) = curr_pid k" "ktty (mmu_switch p k) = ktty k"
  "spaces (mmu_switch p k) = spaces k" "proc_nprocs (mmu_switch p k) = proc_nprocs k"
  "ktimer (mmu_switch p k) = ktimer k" "sc (mmu_switch p k) = us_sc (spaces k p)"
  "msip (mmu_switch p k) = msip k" "csr_mepc (mmu_switch p k) = csr_mepc k"
  "csr_mscratch (mmu_switch p k) = csr_mscratch k"
  "plic_claim (mmu_switch p k) = plic_claim k" "claim_count (mmu_switch p k) = claim_count k"
  by (simp_all add: mmu_switch_def curr_pid_def sc_def)

lemma field_updates [simp, kernel_simps]:
  "sc (k\<lparr>msip := n\<rparr>) = sc k" "sc (k\<lparr>kmsg := m\<rparr>) = sc k" "sc (k\<lparr>ktty := t\<rparr>) = sc k"
  "curr_pid (k\<lparr>msip := n\<rparr>) = curr_pid k" "curr_pid (k\<lparr>kmsg := m\<rparr>) = curr_pid k"
  "curr_pid (k\<lparr>ktty := t\<rparr>) = curr_pid k"
  by (simp_all add: sc_def curr_pid_def)

interpretation kernel_mail: mailbox msg_chan curr_pid msg_out msg_in y_send y_recv kmsg_ok
proof unfold_locales
  fix k :: kernel
  assume ok: "kmsg_ok k"
  show "fst (y_send k) = 0 \<and> msg_chan (snd (y_send k)) = Some (curr_pid k, msg_out k) \<and> kmsg_ok (snd (y_send k))"
    if "msg_chan k = None"
    using that by (auto simp: msg_chan_def y_send_def msg_out_def kmsg_ok_def split: if_splits)
  show "y_send k = (- 1, k)" if "msg_chan k \<noteq> None"
    using that ok by (auto simp: msg_chan_def y_send_def kmsg_ok_def split: if_splits)
  show "fst (y_recv k) = 0 \<and> msg_chan (snd (y_recv k)) = None \<and> msg_in (snd (y_recv k)) = (p, m)
      \<and> kmsg_ok (snd (y_recv k))" if "msg_chan k = Some (p, curr_pid k, m)" for p m
    using that by (auto simp: msg_chan_def y_recv_def msg_in_def kmsg_ok_def Let_def split: if_splits)
  show "y_recv k = (- 1, k)" if "\<forall>p m. msg_chan k \<noteq> Some (p, curr_pid k, m)"
    using that by (auto simp: msg_chan_def y_recv_def split: if_splits)
qed

subsection \<open>One system call\<close>

lemma proc_set_status_twice [simp]:
  "proc_set_status p a (proc_set_status p b ps) = proc_set_status p a ps"
  by (simp add: proc_set_status_def)

text \<open>The state in which \<^verbatim>\<open>syscall_handle\<close> reaches its \<^verbatim>\<open>switch\<close>, and the outcome.\<close>

definition syscall_begin :: "kernel \<Rightarrow> kernel" where
  "syscall_begin k = set_procs (proc_set_requesting (curr_pid k))
     (set_sc (sc k\<lparr>sc_retval := 0, sc_type := SYS_UNUSED\<rparr>) k\<lparr>msip := 0\<rparr>)"

definition syscall_rc :: "kernel \<Rightarrow> int" where
  "syscall_rc k = fst (syscall_dispatch (sc_type (sc k)) (syscall_begin k))"

definition sched_frame :: "kernel \<Rightarrow> kernel \<Rightarrow> bool" where
  "sched_frame k k' \<longleftrightarrow> proc_curr_idx k' = proc_curr_idx k \<and> proc_nprocs k' = proc_nprocs k
     \<and> vm_pid k' = vm_pid k \<and> ktimer k' = ktimer k \<and> csr_mepc k' = csr_mepc k
     \<and> csr_mscratch k' = csr_mscratch k \<and> plic_claim k' = plic_claim k
     \<and> claim_count k' = claim_count k \<and> (\<forall>p. p \<noteq> vm_pid k \<longrightarrow> spaces k' p = spaces k p)"

lemma sched_frame_refl [simp]: "sched_frame k k"
  by (simp add: sched_frame_def)

lemma sched_frame_trans: "sched_frame a b \<Longrightarrow> sched_frame b c \<Longrightarrow> sched_frame a c"
  by (simp add: sched_frame_def)

lemma sched_frame_prims [simp]:
  "sched_frame k (set_sc v k)" "sched_frame k (set_procs f k)" "sched_frame k (k\<lparr>kmsg := m\<rparr>)"
  "sched_frame k (k\<lparr>ktty := t\<rparr>)" "sched_frame k (k\<lparr>msip := n\<rparr>)" "sched_frame k (store_user a c k)"
  by (simp_all add: sched_frame_def set_sc_def set_procs_def store_user_def)

lemma syscall_dispatch_frame:
  "sched_frame k (snd (syscall_dispatch t k)) \<and> proc_set (snd (syscall_dispatch t k)) = proc_set k"
proof -
  have "sched_frame k (snd (y_recv k))"
    unfolding y_recv_def Let_def
    by (auto intro: sched_frame_trans [OF sched_frame_prims(3) sched_frame_prims(1)])
  moreover have "sched_frame k (snd (proc_tty_read k))"
    by (auto simp: proc_tty_read_def Let_def intro: sched_frame_trans [OF sched_frame_prims(4) sched_frame_prims(6)]
        split: prod.splits option.splits)
  moreover have "proc_set (store_user a c k) = proc_set k" for a c k
    by (simp add: store_user_def)
  ultimately show ?thesis
    by (auto simp: syscall_dispatch_def y_send_def proc_tty_write_def y_recv_def proc_tty_read_def Let_def
        split: prod.splits option.splits)
qed

lemma curr_pid_begin:
  assumes "proc_curr_idx k < length (proc_set k)"
  shows "curr_pid (syscall_begin k) = curr_pid k"
  using assms by (simp add: curr_pid_def syscall_begin_def proc_set_defs)

lemma syscall_begin_frame: "sched_frame k (syscall_begin k)"
  by (auto simp: sched_frame_def syscall_begin_def set_sc_def set_procs_def)

lemma syscall_handle_alt:
  assumes "proc_curr_idx k < length (proc_set k)"
  shows "syscall_handle k =
    (let k' = snd (syscall_dispatch (sc_type (sc k)) (syscall_begin k)) in
     if syscall_rc k = 0 then set_procs (proc_set_runnable (curr_pid k)) k'
     else if syscall_rc k = - 1 then set_sc (sc k'\<lparr>sc_type := sc_type (sc k)\<rparr>) k'
     else set_sc (sc k'\<lparr>sc_retval := - 1\<rparr>) (set_procs (proc_set_runnable (curr_pid k)) k'))"
proof -
  have "curr_pid (snd (syscall_dispatch t (syscall_begin k))) = curr_pid k" for t
    using syscall_dispatch_frame [of "syscall_begin k" t] curr_pid_begin [OF assms]
    by (simp add: curr_pid_def sched_frame_def)
  then show ?thesis
    unfolding syscall_handle_def syscall_rc_def
    by (simp add: syscall_begin_def [symmetric] Let_def case_prod_unfold)
qed

lemma syscall_handle_procs:
  assumes "proc_curr_idx k < length (proc_set k)"
  shows "proc_set (syscall_handle k) = proc_set_status (curr_pid k)
     (if syscall_rc k = - 1 then PROC_REQUESTING else PROC_RUNNABLE) (proc_set k)"
proof -
  have "proc_set (syscall_begin k) = proc_set_status (curr_pid k) PROC_REQUESTING (proc_set k)"
    by (simp add: syscall_begin_def proc_set_defs)
  then show ?thesis
    by (simp add: syscall_handle_alt [OF assms] Let_def proc_set_defs syscall_dispatch_frame)
qed

lemma syscall_handle_frame:
  assumes "proc_curr_idx k < length (proc_set k)"
  shows "sched_frame k (syscall_handle k)"
proof -
  let ?k = "snd (syscall_dispatch (sc_type (sc k)) (syscall_begin k))"
  have "sched_frame k ?k"
    using syscall_begin_frame syscall_dispatch_frame sched_frame_trans by blast
  moreover have "sched_frame ?k (syscall_handle k)"
    unfolding syscall_handle_alt [OF assms] Let_def
    by (auto intro: sched_frame_trans [OF sched_frame_prims(2) sched_frame_prims(1)])
  ultimately show ?thesis by (rule sched_frame_trans)
qed

lemma tty_retry:
  "fst (tty_write m l t) = - 1 \<Longrightarrow> snd (tty_write m l t) = t"
  "fst (tty_read t) = - 1 \<Longrightarrow> snd (tty_read t) = (None, t)"
  by (simp_all add: tty_write_def tty_read_def Let_def split: if_splits)

lemma dispatch_retry:
  assumes "fst (syscall_dispatch t k) = - 1"
  shows "snd (syscall_dispatch t k) = k"
proof -
  have "fst (y_send k) = - 1 \<Longrightarrow> snd (y_send k) = k" "fst (y_recv k) = - 1 \<Longrightarrow> snd (y_recv k) = k"
    by (auto simp: y_send_def y_recv_def Let_def split: if_splits)
  moreover have "fst (proc_tty_read k) = - 1 \<Longrightarrow> snd (proc_tty_read k) = k"
    using tty_retry(2) [of "ktty k"]
    by (simp add: proc_tty_read_def Let_def case_prod_unfold)
  moreover have "fst (proc_tty_write k) = - 1 \<Longrightarrow> snd (proc_tty_write k) = k"
    using tty_retry(1) by (simp add: proc_tty_write_def Let_def case_prod_unfold)
  ultimately show ?thesis
    using assms by (simp add: syscall_dispatch_def split: if_splits)
qed

lemma set_sc_twice [simp]: "set_sc v (set_sc w k) = set_sc v k"
  by (simp add: set_sc_def)

lemma syscall_retry:
  assumes "proc_curr_idx k < length (proc_set k)" "syscall_rc k = - 1"
  shows "syscall_handle k = set_procs (proc_set_requesting (curr_pid k))
     (set_sc (sc k\<lparr>sc_retval := 0\<rparr>) k\<lparr>msip := 0\<rparr>)"
proof -
  have "snd (syscall_dispatch (sc_type (sc k)) (syscall_begin k)) = syscall_begin k"
    using assms(2) unfolding syscall_rc_def by (rule dispatch_retry)
  then have "syscall_handle k = set_sc (sc (syscall_begin k)\<lparr>sc_type := sc_type (sc k)\<rparr>) (syscall_begin k)"
    using assms by (simp add: syscall_handle_alt Let_def)
  then show ?thesis
    by (simp add: syscall_begin_def set_sc_def set_procs_def sc_def)
qed

text \<open>
  C35. A system call that cannot make progress yet leaves no trace: the caller becomes
  requesting, its request is as it wrote it (with the return value cleared), the
  software interrupt is acknowledged, and the message buffer, the terminal, every other
  process and every other byte of memory are as before; so the retry at the next external
  interrupt starts from the same request.
\<close>

theorem syscall_retry_intact:
  assumes "proc_curr_idx k < length (proc_set k)" "syscall_rc k = - 1"
  shows "syscall_handle k = set_procs (proc_set_requesting (curr_pid k))
     (set_sc (sc k\<lparr>sc_retval := 0\<rparr>) k\<lparr>msip := 0\<rparr>)"
  using assms by (rule syscall_retry)

lemma send_completes:
  assumes "proc_curr_idx k < length (proc_set k)" "in_use (kmsg k) = 0" "sc_type (sc k) = SYS_SEND"
  shows "sc (syscall_handle k) = sc k\<lparr>sc_retval := 0, sc_type := SYS_UNUSED\<rparr>"
    "kmsg (syscall_handle k) = \<lparr>in_use = 1, km_sender = curr_pid k,
       km_receiver = msg_receiver (sc_msg (sc k)), km_msg = msg_content (sc_msg (sc k))\<rparr>"
    "proc_set (syscall_handle k) = proc_set_runnable (curr_pid k) (proc_set k)"
proof -
  have d: "syscall_dispatch (sc_type (sc k)) (syscall_begin k) = y_send (syscall_begin k)"
    using assms(3) by (simp add: syscall_dispatch_def)
  then have "syscall_rc k = 0"
    using assms(2) by (simp add: syscall_rc_def y_send_def syscall_begin_def)
  then show "sc (syscall_handle k) = sc k\<lparr>sc_retval := 0, sc_type := SYS_UNUSED\<rparr>"
    "kmsg (syscall_handle k) = \<lparr>in_use = 1, km_sender = curr_pid k,
       km_receiver = msg_receiver (sc_msg (sc k)), km_msg = msg_content (sc_msg (sc k))\<rparr>"
    "proc_set (syscall_handle k) = proc_set_runnable (curr_pid k) (proc_set k)"
    using assms(2) d curr_pid_begin [OF assms(1)] syscall_handle_procs [OF assms(1)]
    by (simp_all add: syscall_handle_alt [OF assms(1)] Let_def y_send_def proc_set_defs)
      (simp_all add: syscall_begin_def)
qed

lemma recv_completes:
  assumes "proc_curr_idx k < length (proc_set k)" "in_use (kmsg k) \<noteq> 0"
    and "km_receiver (kmsg k) = curr_pid k" "sc_type (sc k) = SYS_RECV"
  shows "sc (syscall_handle k) = sc k\<lparr>sc_retval := 0, sc_type := SYS_UNUSED, sc_msg := (sc_msg (sc k))
       \<lparr>msg_content := km_msg (kmsg k), msg_sender := km_sender (kmsg k)\<rparr>\<rparr>"
    "kmsg (syscall_handle k) = (kmsg k)\<lparr>in_use := 0\<rparr>"
    "proc_set (syscall_handle k) = proc_set_runnable (curr_pid k) (proc_set k)"
proof -
  have d: "syscall_dispatch (sc_type (sc k)) (syscall_begin k) = y_recv (syscall_begin k)"
    using assms(4) by (simp add: syscall_dispatch_def)
  note c = curr_pid_begin [OF assms(1)]
  have "syscall_rc k = 0"
    using assms(2,3) d c by (simp add: syscall_rc_def y_recv_def Let_def) (simp add: syscall_begin_def)
  then show "sc (syscall_handle k) = sc k\<lparr>sc_retval := 0, sc_type := SYS_UNUSED, sc_msg := (sc_msg (sc k))
       \<lparr>msg_content := km_msg (kmsg k), msg_sender := km_sender (kmsg k)\<rparr>\<rparr>"
    "kmsg (syscall_handle k) = (kmsg k)\<lparr>in_use := 0\<rparr>"
    "proc_set (syscall_handle k) = proc_set_runnable (curr_pid k) (proc_set k)"
    using assms(2,3) d c syscall_handle_procs [OF assms(1)]
    by (simp_all add: syscall_handle_alt [OF assms(1)] Let_def y_recv_def proc_set_defs)
      (simp_all add: syscall_begin_def)
qed

lemma ipc_transfer_ok:
  assumes "proc_curr_idx k < length (proc_set k)" "in_use (kmsg k) = 0" "sys_send_req r msg sz k = Inr k1"
    and "proc_curr_idx k2 < length (proc_set k2)" "kmsg k2 = kmsg (syscall_handle k1)"
    and "curr_pid k2 = r" "sys_recv_req n k2 = Inr k3"
  shows "\<not> sys_spins (syscall_handle k1) \<and> sc_retval (sc (syscall_handle k1)) = 0
     \<and> proc_set (syscall_handle k1) = proc_set_runnable (curr_pid k) (proc_set k)
     \<and> \<not> sys_spins (syscall_handle k3)
     \<and> sys_recv_result n (syscall_handle k3) = (take n (take sz msg @ drop sz (msg_content (sc_msg (sc k)))), curr_pid k, 0)
     \<and> proc_set (syscall_handle k3) = proc_set_runnable r (proc_set k2)
     \<and> in_use (kmsg (syscall_handle k3)) = 0"
proof -
  from assms(3) have k1: "k1 = sys_invoke (set_sc (sc k\<lparr>sc_type := SYS_SEND,
       sc_msg := (sc_msg (sc k))\<lparr>msg_receiver := r,
         msg_content := take sz msg @ drop sz (msg_content (sc_msg (sc k)))\<rparr>\<rparr>) k)"
    by (simp add: sys_send_req_def split: if_splits)
  have k3: "k3 = sys_invoke (set_sc (sc k2\<lparr>sc_type := SYS_RECV\<rparr>) k2)"
    using assms(7) by (simp add: sys_recv_req_def split: if_splits)
  have 1: "proc_curr_idx k1 < length (proc_set k1)" "in_use (kmsg k1) = 0" "sc_type (sc k1) = SYS_SEND"
    using assms(1,2) by (simp_all add: k1 sys_invoke_def)
  note send = send_completes [OF 1]
  have 3: "proc_curr_idx k3 < length (proc_set k3)" "in_use (kmsg k3) \<noteq> 0"
    "km_receiver (kmsg k3) = curr_pid k3" "sc_type (sc k3) = SYS_RECV"
    using assms(4-6) send(2) by (simp_all add: k3 k1 sys_invoke_def)
  note recv = recv_completes [OF 3]
  have m: "kmsg k3 = kmsg (syscall_handle k1)" using assms(5) by (simp add: k3 sys_invoke_def)
  have "curr_pid k1 = curr_pid k" "curr_pid k3 = r" "proc_set k1 = proc_set k" "proc_set k3 = proc_set k2"
    using assms(6) by (simp_all add: k1 k3 sys_invoke_def)
  with send recv m show ?thesis
    by (simp add: sys_spins_def sys_recv_result_def) (simp add: k1 sys_invoke_def)
qed

text \<open>
  C19. Message passing: when the buffer is free, \<^verbatim>\<open>sys_send\<close> completes at once, and the
  next \<^verbatim>\<open>sys_recv\<close> of the addressed process, after any steps that leave the buffer alone,
  completes with the bytes that were sent, followed, where the receiver asks for more, by what the
  sender had in its system call area before; it gets the sender's pid and return value 0, and the
  buffer is free. Sender and receiver both become runnable and stop spinning.
\<close>

theorem ipc_transfer:
  assumes "proc_curr_idx k < length (proc_set k)" "in_use (kmsg k) = 0" "sys_send_req r msg sz k = Inr k1"
    and "proc_curr_idx k2 < length (proc_set k2)" "kmsg k2 = kmsg (syscall_handle k1)"
    and "curr_pid k2 = r" "sys_recv_req n k2 = Inr k3"
  shows "\<not> sys_spins (syscall_handle k1) \<and> sc_retval (sc (syscall_handle k1)) = 0
     \<and> proc_set (syscall_handle k1) = proc_set_runnable (curr_pid k) (proc_set k)
     \<and> \<not> sys_spins (syscall_handle k3)
     \<and> sys_recv_result n (syscall_handle k3) = (take n (take sz msg @ drop sz (msg_content (sc_msg (sc k)))), curr_pid k, 0)
     \<and> proc_set (syscall_handle k3) = proc_set_runnable r (proc_set k2)
     \<and> in_use (kmsg (syscall_handle k3)) = 0"
  using assms by (rule ipc_transfer_ok)

subsection \<open>A concrete machine\<close>

text \<open>The process server, pid 1, is runnable and the application with pid 5 is running.\<close>

definition demo_procs :: "process list" where
  "demo_procs = \<lparr>pid = 1, status = PROC_RUNNABLE, killable = False, sp = 0, mepc = 0\<rparr>
     # \<lparr>pid = 5, status = PROC_RUNNING, killable = True, sp = 0, mepc = 0\<rparr>
     # replicate 14 \<lparr>pid = 0, status = PROC_UNUSED, killable = False, sp = 0, mepc = 0\<rparr>"

definition demo_kernel :: kernel where
  "demo_kernel = \<lparr>proc_set = demo_procs, proc_nprocs = 5, proc_curr_idx = 1,
     kmsg = \<lparr>in_use = 0, km_sender = 0, km_receiver = 0, km_msg = replicate 1024 0\<rparr>,
     spaces = (\<lambda>p. \<lparr>us_sc = \<lparr>sc_type = 0, sc_msg = \<lparr>msg_sender = 0, msg_receiver = 0,
       msg_content = replicate 1024 0\<rparr>, sc_retval = 0\<rparr>, us_mem = (\<lambda>a. 0)\<rparr>),
     vm_pid = 5, ktty = sample_tty, ktimer = sample_timer, plic_claim = (\<lambda>n. 0), claim_count = 0,
     claim_done = [], stack_rc = (\<lambda>n. 0), stack_junk = (\<lambda>n. 0), proc_idle_pc = 0, csr_mepc = 0,
     csr_mscratch = 0, csr_mie = 0x888, msip = 0, reg_a0 = 0, reg_a1 = 0, intr_registered = True,
     excp_registered = True\<rparr>"

lemma demo_procs_nth:
  "length demo_procs = 16"
  "i < 16 \<Longrightarrow> demo_procs ! i =
    (if i = 0 then \<lparr>pid = 1, status = PROC_RUNNABLE, killable = False, sp = 0, mepc = 0\<rparr>
     else if i = 1 then \<lparr>pid = 5, status = PROC_RUNNING, killable = True, sp = 0, mepc = 0\<rparr>
     else \<lparr>pid = 0, status = PROC_UNUSED, killable = False, sp = 0, mepc = 0\<rparr>)"
  by (simp_all add: demo_procs_def nth_Cons')

lemma demo_kernel_simps:
  "proc_set demo_kernel = demo_procs" "proc_curr_idx demo_kernel = Suc 0" "vm_pid demo_kernel = 5"
  "in_use (kmsg demo_kernel) = 0" "curr_pid demo_kernel = 5" "proc_nprocs demo_kernel = 5"
  by (simp_all add: demo_kernel_def curr_pid_def demo_procs_nth)

theorem syscall_retry_intact_witness:
  "syscall_rc demo_kernel = - 1 \<and> syscall_handle demo_kernel =
     set_procs (proc_set_requesting 5) (set_sc (sc demo_kernel\<lparr>sc_retval := 0\<rparr>) demo_kernel\<lparr>msip := 0\<rparr>)"
proof -
  have "sc_type (sc demo_kernel) = 0" by (simp add: sc_def demo_kernel_def)
  then have "syscall_rc demo_kernel = - 1" by (simp add: syscall_rc_def syscall_dispatch_def)
  with syscall_retry_intact [of demo_kernel] show ?thesis
    by (simp add: demo_kernel_simps demo_procs_nth)
qed

theorem ipc_transfer_witness:
  "\<exists>k1 k3. sys_send_req 1 [7, 8, 9] 3 demo_kernel = Inr k1
     \<and> sys_recv_req 3 ((syscall_handle k1)\<lparr>proc_curr_idx := 0, vm_pid := 1\<rparr>) = Inr k3
     \<and> sys_recv_result 3 (syscall_handle k3) = ([7, 8, 9], 5, 0)"
proof -
  obtain k1 where k1: "sys_send_req 1 [7, 8, 9] 3 demo_kernel = Inr k1"
    by (simp add: sys_send_req_def)
  let ?k2 = "(syscall_handle k1)\<lparr>proc_curr_idx := 0, vm_pid := 1\<rparr>"
  obtain k3 where k3: "sys_recv_req 3 ?k2 = Inr k3" by (simp add: sys_recv_req_def)
  have p: "proc_set k1 = demo_procs" "proc_curr_idx k1 = Suc 0"
    using k1 by (auto simp: sys_send_req_def sys_invoke_def demo_kernel_simps)
  have "proc_curr_idx ?k2 < length (proc_set ?k2)" "curr_pid ?k2 = 1"
    using syscall_handle_procs [of k1] by (simp_all add: p demo_procs_nth curr_pid_def)
  with ipc_transfer [of demo_kernel 1 "[7, 8, 9]" 3 k1 ?k2 3 k3] k1 k3 show ?thesis
    by (simp add: demo_kernel_simps demo_procs_nth)
qed

text \<open>
  C20. While a message waits for its receiver, no other process can take it or overwrite
  it: a send or a receive of any other process becomes a pending request and the buffer
  keeps the message.
\<close>

theorem ipc_protected:
  assumes "proc_curr_idx k < length (proc_set k)" "kmsg_ok k" "msg_chan k = Some (p, r, m)"
    and "curr_pid k \<noteq> r" "sc_type (sc k) = SYS_SEND \<or> sc_type (sc k) = SYS_RECV"
  shows "msg_chan (syscall_handle k) = Some (p, r, m)
     \<and> status (proc_set (syscall_handle k) ! proc_curr_idx k) = PROC_REQUESTING
     \<and> sc_type (sc (syscall_handle k)) = sc_type (sc k)"
proof -
  let ?b = "syscall_begin k"
  have "kmsg ?b = kmsg k" by (simp add: syscall_begin_def)
  then have "kmsg_ok ?b = kmsg_ok k" "msg_chan ?b = msg_chan k"
    by (simp_all add: kmsg_ok_def msg_chan_def)
  then have "kmsg_ok ?b" "msg_chan ?b = Some (p, r, m)" "curr_pid ?b \<noteq> r"
    using assms(2-4) by (simp_all add: curr_pid_begin [OF assms(1)])
  from kernel_mail.protected [OF this] assms(5) have "syscall_rc k = - 1"
    by (auto simp: syscall_rc_def syscall_dispatch_def)
  then have h: "syscall_handle k = set_procs (proc_set_requesting (curr_pid k))
     (set_sc (sc k\<lparr>sc_retval := 0\<rparr>) k\<lparr>msip := 0\<rparr>)"
    by (rule syscall_retry [OF assms(1)])
  then have "msg_chan (syscall_handle k) = msg_chan k" by (simp add: msg_chan_def)
  with assms(1,3) show ?thesis
    by (simp add: h proc_set_defs proc_set_status_nth curr_pid_def)
qed

definition waiting_kernel :: kernel where
  "waiting_kernel = set_sc (sc demo_kernel\<lparr>sc_type := SYS_RECV\<rparr>) demo_kernel
     \<lparr>kmsg := \<lparr>in_use = 1, km_sender = 4, km_receiver = 1, km_msg = replicate 1024 0\<rparr>\<rparr>"

theorem ipc_protected_witness:
  "msg_chan (syscall_handle waiting_kernel) = Some (4, 1, replicate 1024 0)"
proof -
  have "msg_chan waiting_kernel = Some (4, 1, replicate 1024 0)" "kmsg_ok waiting_kernel"
    "curr_pid waiting_kernel = 5" "sc_type (sc waiting_kernel) = SYS_RECV"
    "proc_curr_idx waiting_kernel < length (proc_set waiting_kernel)"
    by (simp_all add: waiting_kernel_def msg_chan_def kmsg_ok_def demo_kernel_simps demo_procs_nth)
  with ipc_protected [of waiting_kernel 4 1 "replicate 1024 0"] show ?thesis by simp
qed

end
