(* ===== verification/Scheduler.thy ===== *)
theory Scheduler
  imports Ipc
begin

section \<open>Scheduling and interrupt handling\<close>

text \<open>
  The invariant of the kernel between traps and what the handlers of \<^verbatim>\<open>grass/kernel.c\<close> keep
  of it: which process runs, which address space is mapped, what happens to the saved
  contexts, and whom the round-robin scheduler picks.
\<close>

subsection \<open>What a handler may do to the process table\<close>

text \<open>
  A handler never changes a pid, a killable flag or a saved stack pointer, never frees or
  allocates a slot, never starts a process. The saved program counter changes only when
  Ctrl-C redirects a killable process to \<^verbatim>\<open>proc_idle\<close>.
\<close>

definition slot_frame :: "u32 \<Rightarrow> process \<Rightarrow> process \<Rightarrow> bool" where
  "slot_frame idle p q \<longleftrightarrow> pid q = pid p \<and> killable q = killable p \<and> sp q = sp p
     \<and> (mepc q = mepc p \<or> killable p \<and> mepc q = idle)
     \<and> (status q = PROC_UNUSED \<longleftrightarrow> status p = PROC_UNUSED)
     \<and> (status q = PROC_RUNNING \<longrightarrow> status p = PROC_RUNNING)"

definition table_frame :: "u32 \<Rightarrow> process list \<Rightarrow> process list \<Rightarrow> bool" where
  "table_frame idle = list_all2 (slot_frame idle)"

lemma table_frame_refl [simp]: "table_frame idle ps ps"
  by (simp add: table_frame_def slot_frame_def list_all2_same)

lemma table_frame_trans:
  assumes "table_frame idle ps qs" "table_frame idle qs rs" shows "table_frame idle ps rs"
proof -
  have "slot_frame idle p r" if "slot_frame idle p q" "slot_frame idle q r" for p q r
    using that by (auto simp: slot_frame_def)
  with assms show ?thesis
    unfolding table_frame_def by (blast intro: list_all2_trans)
qed

lemma table_frameD:
  assumes "table_frame idle ps qs"
  shows "length qs = length ps" "i < length ps \<Longrightarrow> slot_frame idle (ps ! i) (qs ! i)"
  using assms by (auto simp: table_frame_def list_all2_lengthD list_all2_nthD)

lemma table_frame_inv:
  assumes "table_frame idle ps qs"
  shows "ptable_inv n ps \<Longrightarrow> ptable_inv n qs" "killable_inv ps \<Longrightarrow> killable_inv qs"
proof -
  note len = table_frameD(1) [OF assms]
  have s: "pid (qs ! i) = pid (ps ! i)" "killable (qs ! i) = killable (ps ! i)"
    "status (qs ! i) = PROC_UNUSED \<longleftrightarrow> status (ps ! i) = PROC_UNUSED" if "i < length ps" for i
    using table_frameD(2) [OF assms that] by (simp_all add: slot_frame_def)
  show "ptable_inv n ps \<Longrightarrow> ptable_inv n qs"
    unfolding ptable_inv_def len by (simp add: s)
  show "killable_inv ps \<Longrightarrow> killable_inv qs"
    unfolding killable_inv_def by (auto simp: all_set_conv_all_nth len s)
qed

lemma set_status_frame:
  assumes "ptable_inv n ps" "i < length ps" "status (ps ! i) \<noteq> PROC_UNUSED"
    and "st \<noteq> PROC_UNUSED" "st \<noteq> PROC_RUNNING"
  shows "table_frame idle ps (proc_set_status (pid (ps ! i)) st ps)"
proof -
  have nz: "pid (ps ! i) \<noteq> 0" using ptable_invD(5) [OF assms(1,2)] assms(3) by blast
  have "proc_set_status (pid (ps ! i)) st ps = ps[i := (ps ! i)\<lparr>status := st\<rparr>]"
    by (rule proc_set_status_update [OF assms(1,2) refl nz])
  then show ?thesis
    using assms by (auto simp: table_frame_def list_all2_conv_all_nth nth_list_update slot_frame_def)
qed

definition handler_frame :: "kernel \<Rightarrow> kernel \<Rightarrow> bool" where
  "handler_frame k k' \<longleftrightarrow> table_frame (proc_idle_pc k) (proc_set k) (proc_set k')
     \<and> proc_nprocs k' = proc_nprocs k \<and> proc_idle_pc k' = proc_idle_pc k
     \<and> ktimer k' = ktimer k \<and> csr_mepc k' = csr_mepc k \<and> csr_mscratch k' = csr_mscratch k
     \<and> (kmsg_ok k \<longrightarrow> kmsg_ok k')"

lemma handler_frame_refl [simp]: "handler_frame k k"
  by (simp add: handler_frame_def)

lemma handler_frame_trans [trans]:
  "handler_frame a b \<Longrightarrow> handler_frame b c \<Longrightarrow> handler_frame a c"
  by (auto simp: handler_frame_def intro: table_frame_trans)

definition sched_inv :: "kernel \<Rightarrow> bool" where
  "sched_inv k \<longleftrightarrow> ptable_inv (proc_nprocs k) (proc_set k) \<and> killable_inv (proc_set k)
     \<and> proc_curr_idx k < MAX_NPROCESS \<and> kmsg_ok k"

lemma handler_frame_inv:
  assumes "handler_frame k k'" "sched_inv k" "proc_curr_idx k' < MAX_NPROCESS"
  shows "sched_inv k'"
  using assms table_frame_inv unfolding sched_inv_def handler_frame_def by metis

lemma sched_inv_length: "sched_inv k \<Longrightarrow> length (proc_set k) = 16"
  by (simp add: sched_inv_def ptable_inv_def)

lemma sched_inv_idx: "sched_inv k \<Longrightarrow> proc_curr_idx k < length (proc_set k)"
  by (simp add: sched_inv_def ptable_inv_def)

subsection \<open>System calls and external interrupts\<close>

lemma dispatch_kmsg_ok: "kmsg_ok k \<Longrightarrow> kmsg_ok (snd (syscall_dispatch t k))"
  using kernel_mail.ok_send [of k] kernel_mail.ok_recv [of k]
  by (auto simp: syscall_dispatch_def kmsg_ok_def proc_tty_read_def proc_tty_write_def store_user_def
      split: prod.splits option.splits)

lemma dispatch_idle: "proc_idle_pc (snd (syscall_dispatch t k)) = proc_idle_pc k"
  by (auto simp: syscall_dispatch_def y_send_def y_recv_def proc_tty_read_def proc_tty_write_def
      store_user_def set_sc_def Let_def split: prod.splits option.splits)

lemma syscall_handle_handler:
  assumes "sched_inv k" "curr_status k \<noteq> PROC_UNUSED"
  shows "handler_frame k (syscall_handle k)"
proof -
  note i = sched_inv_idx [OF assms(1)]
  let ?k = "snd (syscall_dispatch (sc_type (sc k)) (syscall_begin k))"
  have "kmsg_ok (syscall_begin k) = kmsg_ok k" by (simp add: syscall_begin_def kmsg_ok_def)
  then have "kmsg_ok k \<longrightarrow> kmsg_ok ?k" by (simp add: dispatch_kmsg_ok)
  moreover have "kmsg (syscall_handle k) = kmsg ?k"
    by (simp add: syscall_handle_alt [OF i] Let_def)
  moreover have "proc_idle_pc (syscall_handle k) = proc_idle_pc ?k"
    by (simp add: syscall_handle_alt [OF i] Let_def set_sc_def set_procs_def)
  moreover have "proc_idle_pc ?k = proc_idle_pc k"
    by (simp add: dispatch_idle) (simp add: syscall_begin_def set_sc_def set_procs_def)
  moreover have "table_frame (proc_idle_pc k) (proc_set k) (proc_set (syscall_handle k))"
    unfolding syscall_handle_procs [OF i] curr_pid_def
    using assms i by (intro set_status_frame) (auto simp: sched_inv_def curr_status_def)
  ultimately show ?thesis
    using syscall_handle_frame [OF i] by (simp add: handler_frame_def sched_frame_def kmsg_ok_def)
qed

lemma handler_frame_prims [simp]:
  "handler_frame k (k\<lparr>proc_curr_idx := i\<rparr>)" "handler_frame k (mmu_switch p k)"
  "handler_frame k (set_sc v k)" "handler_frame k (k\<lparr>ktty := t\<rparr>)" "handler_frame k (k\<lparr>csr_mie := m\<rparr>)"
  by (simp_all add: handler_frame_def mmu_switch_def set_sc_def kmsg_ok_def)

lemma external_loop_handler:
  assumes "sched_inv k" "i + n \<le> MAX_NPROCESS"
  shows "handler_frame k (external_loop n i k) \<and> proc_curr_idx (external_loop n i k) < MAX_NPROCESS"
  using assms
proof (induction n arbitrary: i k)
  case 0
  then show ?case by (simp add: sched_inv_def)
next
  case (Suc n)
  let ?k = "if status (proc_set k ! i) = PROC_REQUESTING
     then syscall_handle (mmu_switch (pid (proc_set k ! i)) (k\<lparr>proc_curr_idx := i\<rparr>)) else k"
  let ?m = "mmu_switch (pid (proc_set k ! i)) (k\<lparr>proc_curr_idx := i\<rparr>)"
  have f: "handler_frame k ?m" by (rule handler_frame_trans) (rule handler_frame_prims)+
  have m: "sched_inv ?m" using handler_frame_inv [OF f Suc.prems(1)] Suc.prems(2) by simp
  have "proc_curr_idx (syscall_handle ?m) = i"
    using syscall_handle_frame [OF sched_inv_idx [OF m]] by (simp add: sched_frame_def)
  moreover have "handler_frame k (syscall_handle ?m)" if "status (proc_set k ! i) = PROC_REQUESTING"
    using that by (intro handler_frame_trans [OF f] syscall_handle_handler [OF m])
      (simp add: curr_status_def)
  ultimately have k: "handler_frame k ?k" "proc_curr_idx ?k < MAX_NPROCESS"
    using Suc.prems by (simp_all add: sched_inv_def)
  have "sched_inv ?k" by (rule handler_frame_inv [OF k(1) Suc.prems(1) k(2)])
  from Suc.IH [OF this, of "Suc i"] Suc.prems(2) handler_frame_trans [OF k(1)] show ?case
    by simp
qed

lemma send_killall_handler:
  assumes "sched_inv k" "i < MAX_NPROCESS" "status (proc_set k ! i) \<noteq> PROC_UNUSED" "killable (proc_set k ! i)"
  shows "handler_frame k (send_killall i k)" "proc_curr_idx (send_killall i k) = proc_curr_idx k"
proof -
  let ?p = "pid (proc_set k ! i)"
  let ?ps = "proc_set_status ?p PROC_REQUESTING (proc_set k)"
  have i: "i < length (proc_set k)" using assms(1,2) by (simp add: sched_inv_length)
  have "table_frame (proc_idle_pc k) (proc_set k) ?ps"
    using assms i by (intro set_status_frame) (auto simp: sched_inv_def)
  moreover have "table_frame (proc_idle_pc k) ?ps (?ps[i := (?ps ! i)\<lparr>mepc := proc_idle_pc k\<rparr>])"
    using i assms(4) by (auto simp: table_frame_def list_all2_conv_all_nth nth_list_update slot_frame_def
        proc_set_status_nth)
  moreover have "proc_set (send_killall i k) = ?ps[i := (?ps ! i)\<lparr>mepc := proc_idle_pc k\<rparr>]"
    by (simp add: send_killall_def Let_def proc_set_defs) (simp add: set_procs_def set_sc_def mmu_switch_def)
  ultimately show "handler_frame k (send_killall i k)"
    by (auto simp: handler_frame_def kmsg_ok_def send_killall_def Let_def set_procs_def set_sc_def mmu_switch_def
        intro: table_frame_trans)
  show "proc_curr_idx (send_killall i k) = proc_curr_idx k"
    by (simp add: send_killall_def Let_def)
qed

lemma zombie_handler:
  assumes "sched_inv k" "i < MAX_NPROCESS" "status (proc_set k ! i) \<noteq> PROC_UNUSED"
  shows "handler_frame k (set_procs (proc_set_zombie (pid (proc_set k ! i))) k)"
proof -
  have "table_frame (proc_idle_pc k) (proc_set k) (proc_set_status (pid (proc_set k ! i)) PROC_ZOMBIE (proc_set k))"
    using assms by (intro set_status_frame) (auto simp: sched_inv_def ptable_inv_def)
  then show ?thesis by (simp add: handler_frame_def set_procs_def kmsg_ok_def proc_set_defs)
qed

lemma special_loop_handler:
  assumes "sched_inv k" "i + n \<le> MAX_NPROCESS"
  shows "handler_frame k (snd (special_loop n i s k))
     \<and> proc_curr_idx (snd (special_loop n i s k)) = proc_curr_idx k"
  using assms
proof (induction n arbitrary: i s k)
  case (Suc n)
  let ?p = "proc_set k ! i"
  let ?z = "set_procs (proc_set_zombie (pid ?p)) k" and ?s = "send_killall i k"
  have step: "handler_frame k (snd (special_loop n (Suc i) s' k'))
     \<and> proc_curr_idx (snd (special_loop n (Suc i) s' k')) = proc_curr_idx k"
    if "handler_frame k k'" "proc_curr_idx k' = proc_curr_idx k" for s' k'
  proof -
    have "sched_inv k'" using that Suc.prems(1) handler_frame_inv by (auto simp: sched_inv_def)
    with Suc.IH [of k' "Suc i" s'] Suc.prems(2) that show ?thesis by (auto intro: handler_frame_trans)
  qed
  have i: "i < MAX_NPROCESS" using Suc.prems(2) by simp
  show ?case
    using step [of k] step [of ?z] step [of ?s] zombie_handler [OF Suc.prems(1) i]
      send_killall_handler [OF Suc.prems(1) i]
    by (simp add: Let_def)
qed simp

lemma special_handle_handler:
  assumes "sched_inv k" "special_handle k = Some k'"
  shows "handler_frame k k' \<and> proc_curr_idx k' = proc_curr_idx k"
proof -
  obtain r k1 where k1: "special_loop MAX_NPROCESS 0 0 k = (r, k1)" by fastforce
  with special_loop_handler [OF assms(1), of 0 16 0]
  have "handler_frame k k1 \<and> proc_curr_idx k1 = proc_curr_idx k" by simp
  moreover have "\<exists>t. k' = k1\<lparr>ktty := t\<rparr>"
    using assms(2) k1 by (auto simp: special_handle_def bind_eq_Some_conv split: option.splits if_splits)
      (metis kernel.surjective kernel.update_convs(7))+
  ultimately show ?thesis by (auto intro: handler_frame_trans)
qed

lemma trap_external_handler:
  assumes "trap_external k = Some (rc, k')"
  shows "handler_frame k k' \<and> proc_curr_idx k' = proc_curr_idx k"
  using assms by (auto simp: trap_external_def Let_def bind_eq_Some_conv handler_frame_def kmsg_ok_def)

lemma external_handle_handler:
  assumes "sched_inv k" "external_handle k = Some k'"
  shows "handler_frame k k' \<and> proc_curr_idx k' = proc_curr_idx k \<and> vm_pid k' = curr_pid k' \<and> sched_inv k'"
proof -
  from assms(2) obtain rc k1 k2 where
    k1: "trap_external k = Some (rc, k1)"
    and k2: "(if rc = RET_SPECIAL_CHAR then special_handle k1 else Some k1) = Some k2"
    and k': "k' = (let k = (external_loop MAX_NPROCESS 0 k2)\<lparr>proc_curr_idx := proc_curr_idx k1\<rparr>
                   in mmu_switch (curr_pid k) k)"
    by (auto simp: external_handle_def bind_eq_Some_conv Let_def)
  have 1: "handler_frame k k1" "proc_curr_idx k1 = proc_curr_idx k" using trap_external_handler [OF k1] by auto
  then have i1: "sched_inv k1" using assms(1) handler_frame_inv by (auto simp: sched_inv_def)
  have 2: "handler_frame k1 k2" "proc_curr_idx k2 = proc_curr_idx k1"
    using k2 special_handle_handler [OF i1] by (auto split: if_splits)
  then have i2: "sched_inv k2" using i1 handler_frame_inv by (auto simp: sched_inv_def)
  have "handler_frame k2 k'"
    unfolding k' Let_def using external_loop_handler [OF i2, of 0 16]
    by (auto intro: handler_frame_trans [OF _ handler_frame_trans [OF handler_frame_prims(1,2)]])
  with 1 2 have "handler_frame k k'" by (blast intro: handler_frame_trans)
  moreover have "proc_curr_idx k' = proc_curr_idx k" "vm_pid k' = curr_pid k'"
    unfolding k' Let_def using 1 by simp_all
  ultimately show ?thesis
    using assms(1) handler_frame_inv by (auto simp: sched_inv_def)
qed

subsection \<open>Round robin\<close>

lemma find_first:
  assumes "List.find P (map f [1..<Suc n]) = Some y"
  shows "\<exists>d. 1 \<le> d \<and> d \<le> n \<and> y = f d \<and> P y \<and> (\<forall>e. 1 \<le> e \<and> e < d \<longrightarrow> \<not> P (f e))"
proof -
  from assms obtain i where i: "i < n" "P y" "y = f (Suc i)" "\<forall>j<i. \<not> P (f (Suc j))"
    by (auto simp: find_Some_iff nth_upt simp del: upt_Suc)
  then have "\<not> P (f e)" if "1 \<le> e" "e < Suc i" for e
    using that by (cases e) auto
  with i show ?thesis by (intro exI [of _ "Suc i"]) auto
qed

lemma find_next_Some:
  assumes "find_next k = Some j"
  shows "\<exists>d. 1 \<le> d \<and> d \<le> 16 \<and> j = (proc_curr_idx k + d) mod 16 \<and> schedulable (status (proc_set k ! j))
     \<and> (\<forall>e. 1 \<le> e \<and> e < d \<longrightarrow> \<not> schedulable (status (proc_set k ! ((proc_curr_idx k + e) mod 16))))"
  using find_first [OF assms [unfolded find_next_def]] by auto

lemma find_next_less: "find_next k = Some j \<Longrightarrow> j < MAX_NPROCESS"
  using find_next_Some by fastforce

lemma find_next_None:
  assumes "find_next k = None" "j < MAX_NPROCESS"
  shows "\<not> schedulable (status (proc_set k ! j))"
proof -
  let ?d = "if proc_curr_idx k mod 16 < j then j - proc_curr_idx k mod 16 else j + 16 - proc_curr_idx k mod 16"
  have "proc_curr_idx k mod 16 < 16" by simp
  then have "?d \<in> set [1..<Suc 16]" "(proc_curr_idx k mod 16 + ?d) mod 16 = j" using assms(2) by auto
  then have "(proc_curr_idx k + ?d) mod 16 = j" "?d \<in> set [1..<Suc 16]" by (simp_all only: mod_add_left_eq)
  then have "j \<in> set (map (\<lambda>i. (proc_curr_idx k + i) mod 16) [1..<Suc 16])"
    unfolding set_map by (intro image_eqI) (rule sym)
  with assms(1) show ?thesis unfolding find_next_def find_None_iff by blast
qed

lemma proc_wait_handler:
  assumes "sched_inv k" "proc_wait k = Some k'"
  shows "handler_frame k k' \<and> proc_curr_idx k' = proc_curr_idx k \<and> vm_pid k' = curr_pid k' \<and> sched_inv k'"
proof -
  let ?k = "k\<lparr>csr_mie := csr_mie k OR 0x88\<rparr>"
  have "sched_inv ?k" using assms(1) by (simp add: sched_inv_def kmsg_ok_def)
  from external_handle_handler [OF this] assms(2) show ?thesis
    by (auto simp: proc_wait_def Let_def intro: handler_frame_trans [OF handler_frame_prims(5)])
qed

lemma yield_find_spec:
  assumes "yield_find k = Some (n, k')" "sched_inv k"
  shows "handler_frame k k' \<and> proc_curr_idx k' = proc_curr_idx k \<and> sched_inv k' \<and> find_next k' = Some n"
proof -
  have "sched_inv k \<longrightarrow> handler_frame k (snd y) \<and> proc_curr_idx (snd y) = proc_curr_idx k
      \<and> sched_inv (snd y) \<and> find_next (snd y) = Some (fst y)" if "yield_find k = Some y" for k y
    using that
  proof (induction rule: yield_find.raw_induct [rotated 1, consumes 1])
    case (1 f k y)
    show ?case
    proof (cases "find_next k")
      case (Some n)
      with 1(2) show ?thesis by auto
    next
      case None
      with 1(2) obtain k1 where k1: "proc_wait k = Some k1" "f k1 = Some y"
        by (auto simp: bind_eq_Some_conv)
      show ?thesis
        using proc_wait_handler [OF _ k1(1)] 1(1) [OF k1(2)] by (auto intro: handler_frame_trans)
    qed
  qed
  from this [OF assms(1)] assms(2) show ?thesis by simp
qed

text \<open>The table after a switch from slot \<open>c\<close> to slot \<open>j\<close>.\<close>

definition switched :: "nat \<Rightarrow> nat \<Rightarrow> process list \<Rightarrow> process list" where
  "switched c j ps = proc_set_running (pid (ps ! j))
     (if status (ps ! c) = PROC_RUNNING then proc_set_runnable (pid (ps ! c)) ps else ps)"

lemma switched_nth:
  assumes "ptable_inv n ps" "c < length ps" "j < length ps" "status (ps ! j) \<noteq> PROC_UNUSED" "i < length ps"
  shows "switched c j ps ! i = (ps ! i)\<lparr>status := if i = j then PROC_RUNNING
     else if i = c \<and> status (ps ! c) = PROC_RUNNING then PROC_RUNNABLE else status (ps ! i)\<rparr>"
proof -
  let ?qs = "if status (ps ! c) = PROC_RUNNING then proc_set_runnable (pid (ps ! c)) ps else ps"
  have nz: "pid (ps ! i) \<noteq> 0" if "i < length ps" "status (ps ! i) \<noteq> PROC_UNUSED" for i
    using ptable_invD(5) [OF assms(1)] that by blast
  have q: "?qs = (if status (ps ! c) = PROC_RUNNING then ps[c := (ps ! c)\<lparr>status := PROC_RUNNABLE\<rparr>] else ps)"
    using proc_set_status_update [OF assms(1,2) refl] nz [OF assms(2)] by (simp add: proc_set_defs)
  have inv: "ptable_inv n ?qs"
    using proc_set_status_ptable [OF assms(1)] nz [OF assms(2)] assms(1) by (simp add: proc_set_defs)
  have l: "length ?qs = length ps" "pid (?qs ! j) = pid (ps ! j)"
    using assms(3) by (simp_all add: proc_set_defs)
  have "switched c j ps = ?qs[j := (?qs ! j)\<lparr>status := PROC_RUNNING\<rparr>]"
    unfolding switched_def proc_set_running_def
    using assms(3) l nz [OF assms(3,4)] by (intro proc_set_status_update [OF inv]) simp_all
  then show ?thesis
    unfolding q using assms(2,3,5) by (simp add: nth_list_update)
qed

lemma switched_length [simp]: "length (switched c j ps) = length ps"
  by (simp add: switched_def proc_set_defs)

lemma proc_yield_cases:
  assumes "sched_inv k" "proc_yield k = Some (x, k')"
  obtains k1 where "handler_frame k k1" "proc_curr_idx k1 = proc_curr_idx k" "sched_inv k1"
    "find_next k1 = Some (proc_curr_idx k')"
    "proc_set k' = switched (proc_curr_idx k) (proc_curr_idx k') (proc_set k1)"
    "vm_pid k' = curr_pid k'" "kmsg k' = kmsg k1" "proc_nprocs k' = proc_nprocs k"
    "proc_idle_pc k' = proc_idle_pc k" "csr_mscratch k' = csr_mscratch k" "timer_reset (ktimer k) = Some (ktimer k')"
    "x = (if status (proc_set k1 ! proc_curr_idx k') = PROC_READY then Enter_app else Return)"
    "csr_mepc k' = (if status (proc_set k1 ! proc_curr_idx k') = PROC_READY then APPS_ENTRY else csr_mepc k)"
proof -
  from assms(2) obtain k0 k1 j t where
    k0: "external_handle k = Some k0" and k1: "yield_find k0 = Some (j, k1)"
    and t: "timer_reset (ktimer k1) = Some t"
    and k': "(x, k') = (let ns = status (proc_set k1 ! j);
         k2 = (if curr_status k1 = PROC_RUNNING then set_procs (proc_set_runnable (curr_pid k1)) k1 else k1);
         k3 = mmu_switch (curr_pid (k2\<lparr>proc_curr_idx := j\<rparr>)) (k2\<lparr>proc_curr_idx := j\<rparr>);
         k4 = set_procs (proc_set_running (curr_pid (k3\<lparr>ktimer := t\<rparr>))) (k3\<lparr>ktimer := t\<rparr>)
       in if ns = PROC_READY
          then (Enter_app, k4\<lparr>ktty := tty_user_mode (ktty k4), reg_a0 := APPS_ARG,
                     reg_a1 := APPS_ARG + 4, csr_mepc := APPS_ENTRY\<rparr>)
          else (Return, k4))"
    by (auto simp: proc_yield_def bind_eq_Some_conv Let_def split: if_splits)
  have 0: "handler_frame k k0" "proc_curr_idx k0 = proc_curr_idx k" "sched_inv k0"
    using external_handle_handler [OF assms(1) k0] by auto
  have 1: "handler_frame k0 k1" "proc_curr_idx k1 = proc_curr_idx k0" "sched_inv k1" "find_next k1 = Some j"
    using yield_find_spec [OF k1 0(3)] by auto
  have j: "j < length (proc_set k1)" using find_next_less [OF 1(4)] sched_inv_length [OF 1(3)] by simp
  have f: "handler_frame k k1" using 0(1) 1(1) by (rule handler_frame_trans)
  then have eqs: "proc_nprocs k1 = proc_nprocs k" "proc_idle_pc k1 = proc_idle_pc k" "csr_mepc k1 = csr_mepc k"
    "csr_mscratch k1 = csr_mscratch k" "ktimer k1 = ktimer k"
    by (simp_all add: handler_frame_def)
  have c: "proc_curr_idx k' = j" "kmsg k' = kmsg k1" "proc_nprocs k' = proc_nprocs k1"
    "proc_idle_pc k' = proc_idle_pc k1" "csr_mscratch k' = csr_mscratch k1" "ktimer k' = t"
    "proc_set k' = switched (proc_curr_idx k1) j (proc_set k1)" "vm_pid k' = pid (proc_set k1 ! j)"
    "x = (if status (proc_set k1 ! j) = PROC_READY then Enter_app else Return)"
    "csr_mepc k' = (if status (proc_set k1 ! j) = PROC_READY then APPS_ENTRY else csr_mepc k1)"
    using k' j by (auto simp: Let_def switched_def curr_status_def curr_pid_def proc_set_defs
        split: if_splits simp add: set_procs_def mmu_switch_def)
  have "curr_pid k' = pid (proc_set k1 ! j)"
    using j by (simp add: curr_pid_def c switched_def proc_set_defs)
  with 0 1 c t eqs f show thesis by (intro that [of k1]) simp_all
qed

subsection \<open>From trap to resumption\<close>

lemma kernel_entry_yields:
  assumes "sched_inv k" "curr_status k \<noteq> PROC_UNUSED" "kernel_entry e k = Some y"
  obtains k0 where "proc_yield k0 = Some y" "handler_frame k k0" "sched_inv k0"
    "proc_curr_idx k0 = proc_curr_idx k"
proof (cases e)
  case Proc_yield
  with assms that [of k] show thesis by simp
next
  case Proc_syscall
  have "handler_frame k (syscall_handle k)" by (rule syscall_handle_handler [OF assms(1,2)])
  moreover have i: "proc_curr_idx (syscall_handle k) = proc_curr_idx k"
    using syscall_handle_frame [OF sched_inv_idx [OF assms(1)]] by (simp add: sched_frame_def)
  moreover have "sched_inv (syscall_handle k)"
    using calculation(1) assms(1) i by (intro handler_frame_inv [OF _ assms(1)]) (simp_all add: sched_inv_def)
  ultimately show thesis
    using Proc_syscall assms(3) that by (simp add: proc_syscall_def)
next
  case Proc_external
  with assms(3) obtain k0 where "external_handle k = Some k0" "proc_yield k0 = Some y"
    by (auto simp: proc_external_def bind_eq_Some_conv)
  with external_handle_handler [OF assms(1)] that show thesis by blast
qed

definition saved :: "kernel \<Rightarrow> kernel" where
  "saved k = set_procs (\<lambda>ps. ps[proc_curr_idx k := (ps ! proc_curr_idx k)
     \<lparr>mepc := csr_mepc k, sp := csr_mscratch k\<rparr>]) k"

lemma saved_nth:
  assumes "sched_inv k" "i < MAX_NPROCESS"
  shows "proc_set (saved k) ! i = (if i = proc_curr_idx k
     then (proc_set k ! i)\<lparr>mepc := csr_mepc k, sp := csr_mscratch k\<rparr> else proc_set k ! i)"
  using assms sched_inv_length [OF assms(1)] by (auto simp: saved_def nth_list_update sched_inv_def)

lemma saved_inv:
  assumes "sched_inv k" shows "sched_inv (saved k)"
proof -
  have [simp]: "length (proc_set (saved k)) = length (proc_set k)" by (simp add: saved_def)
  have *: "i < length (proc_set k) \<Longrightarrow> pid (proc_set (saved k) ! i) = pid (proc_set k ! i)
      \<and> status (proc_set (saved k) ! i) = status (proc_set k ! i)
      \<and> killable (proc_set (saved k) ! i) = killable (proc_set k ! i)" for i
    using saved_nth [OF assms, of i] sched_inv_length [OF assms] by simp
  then have "ptable_inv (proc_nprocs k) (proc_set (saved k))" "killable_inv (proc_set (saved k))"
    using assms by (simp_all add: sched_inv_def ptable_inv_def killable_inv_def all_set_conv_all_nth)
  then show ?thesis using assms by (simp add: sched_inv_def kmsg_ok_def) (simp add: saved_def)
qed

lemma ctx_entry_cases:
  assumes "sched_inv k" "curr_status k \<noteq> PROC_UNUSED" "ctx_entry e k = Some (x, k')"
  obtains k1 where "handler_frame (saved k) k1" "proc_curr_idx k1 = proc_curr_idx k" "sched_inv k1"
    "find_next k1 = Some (proc_curr_idx k')"
    "proc_set k' = switched (proc_curr_idx k) (proc_curr_idx k') (proc_set k1)"
    "vm_pid k' = curr_pid k'" "kmsg k' = kmsg k1" "proc_nprocs k' = proc_nprocs k"
    "proc_idle_pc k' = proc_idle_pc k"
    "x = (if status (proc_set k1 ! proc_curr_idx k') = PROC_READY then Enter_app else Ctx_jump)"
    "x = Ctx_jump \<Longrightarrow> csr_mepc k' = mepc (proc_set k' ! proc_curr_idx k')
        \<and> csr_mscratch k' = sp (proc_set k' ! proc_curr_idx k')"
    "x = Enter_app \<Longrightarrow> csr_mepc k' = APPS_ENTRY"
proof -
  from assms(3) obtain y k2 where k2: "kernel_entry e (saved k) = Some (y, k2)"
    and k': "(x, k') = (if y = Enter_app then (Enter_app, k2)
      else (Ctx_jump, k2\<lparr>csr_mepc := mepc (proc_set k2 ! proc_curr_idx k2),
                csr_mscratch := sp (proc_set k2 ! proc_curr_idx k2), ktty := tty_user_mode (ktty k2)\<rparr>))"
    by (auto simp: ctx_entry_def saved_def bind_eq_Some_conv split: if_splits)
  have s: "sched_inv (saved k)" "curr_status (saved k) \<noteq> PROC_UNUSED" "proc_curr_idx (saved k) = proc_curr_idx k"
    "proc_nprocs (saved k) = proc_nprocs k" "proc_idle_pc (saved k) = proc_idle_pc k"
    using saved_inv [OF assms(1)] assms(1,2) saved_nth [OF assms(1), of "proc_curr_idx k"]
    by (simp_all add: sched_inv_def curr_status_def saved_def) (simp_all add: set_procs_def)
  obtain k0 where k0: "proc_yield k0 = Some (y, k2)" "handler_frame (saved k) k0" "sched_inv k0"
    "proc_curr_idx k0 = proc_curr_idx (saved k)"
    using kernel_entry_yields [OF s(1,2) k2] .
  obtain k1 where k1: "handler_frame k0 k1" "proc_curr_idx k1 = proc_curr_idx k0" "sched_inv k1"
    "find_next k1 = Some (proc_curr_idx k2)"
    "proc_set k2 = switched (proc_curr_idx k0) (proc_curr_idx k2) (proc_set k1)"
    "vm_pid k2 = curr_pid k2" "kmsg k2 = kmsg k1" "proc_nprocs k2 = proc_nprocs k0"
    "proc_idle_pc k2 = proc_idle_pc k0"
    "y = (if status (proc_set k1 ! proc_curr_idx k2) = PROC_READY then Enter_app else Return)"
    "csr_mepc k2 = (if status (proc_set k1 ! proc_curr_idx k2) = PROC_READY then APPS_ENTRY else csr_mepc k0)"
    using proc_yield_cases [OF k0(3,1)] by metis
  have f: "handler_frame (saved k) k1" using k0(2) k1(1) by (rule handler_frame_trans)
  have g: "proc_nprocs k0 = proc_nprocs k" "proc_idle_pc k0 = proc_idle_pc k"
    using k0(2) s by (simp_all add: handler_frame_def)
  show thesis
    using k' k0(4) k1 s f g by (intro that [of k1]) (auto simp: curr_pid_def split: if_splits)
qed

subsection \<open>The state in which processes run\<close>

text \<open>
  Between traps exactly the current process is running, its address space is the mapped
  one, and the kernel's tables are well formed.
\<close>

definition user_state :: "kernel \<Rightarrow> bool" where
  "user_state k \<longleftrightarrow> sched_inv k \<and> vm_pid k = curr_pid k
     \<and> (\<forall>i<MAX_NPROCESS. status (proc_set k ! i) = PROC_RUNNING \<longleftrightarrow> i = proc_curr_idx k)"

lemma user_state_curr: "user_state k \<Longrightarrow> curr_status k = PROC_RUNNING"
  by (simp add: user_state_def sched_inv_def curr_status_def)

lemma switched_inv:
  assumes "ptable_inv n ps" "killable_inv ps" "c < length ps" "j < length ps" "status (ps ! j) \<noteq> PROC_UNUSED"
  shows "ptable_inv n (switched c j ps)" "killable_inv (switched c j ps)"
proof -
  note n = switched_nth [OF assms(1,3,4,5)]
  have *: "pid (switched c j ps ! i) = pid (ps ! i)" "killable (switched c j ps ! i) = killable (ps ! i)"
    "status (switched c j ps ! i) = PROC_UNUSED \<longleftrightarrow> status (ps ! i) = PROC_UNUSED" if "i < length ps" for i
    using n [OF that] assms(5) by auto
  show "ptable_inv n (switched c j ps)"
    using assms(1) by (simp add: ptable_inv_def *)
  show "killable_inv (switched c j ps)"
    using assms(2) by (simp add: killable_inv_def all_set_conv_all_nth *)
qed

lemma ctx_entry_user_state:
  assumes "user_state k" "ctx_entry e k = Some (x, k')"
  shows "user_state k'"
proof -
  have k: "sched_inv k" "curr_status k \<noteq> PROC_UNUSED"
    using assms(1) user_state_curr [OF assms(1)] by (simp_all add: user_state_def)
  from ctx_entry_cases [OF k assms(2)] obtain k1 where
    k1: "handler_frame (saved k) k1" "proc_curr_idx k1 = proc_curr_idx k" "sched_inv k1"
    "find_next k1 = Some (proc_curr_idx k')"
    "proc_set k' = switched (proc_curr_idx k) (proc_curr_idx k') (proc_set k1)"
    "vm_pid k' = curr_pid k'" "kmsg k' = kmsg k1" "proc_nprocs k' = proc_nprocs k"
    by metis
  have n: "proc_nprocs k1 = proc_nprocs k" "table_frame (proc_idle_pc k) (proc_set (saved k)) (proc_set k1)"
    using k1(1) by (simp_all add: handler_frame_def saved_def) (simp_all add: set_procs_def)
  have l: "length (proc_set k1) = 16" "proc_curr_idx k < 16" "proc_curr_idx k' < 16"
    using sched_inv_length [OF k1(3)] k(1) find_next_less [OF k1(4)] by (auto simp: sched_inv_def)
  have u: "status (proc_set k1 ! proc_curr_idx k') \<noteq> PROC_UNUSED"
    using find_next_Some [OF k1(4)] by (auto simp: schedulable_def)
  have r: "i = proc_curr_idx k" if "i < 16" "status (proc_set k1 ! i) = PROC_RUNNING" for i
  proof -
    have "i < length (proc_set (saved k))" using sched_inv_length [OF k(1)] that(1) by (simp add: saved_def)
    from table_frameD(2) [OF n(2) this] that(2) have "status (proc_set (saved k) ! i) = PROC_RUNNING"
      by (simp add: slot_frame_def)
    with saved_nth [OF k(1), of i] that(1) assms(1) show ?thesis by (auto simp: user_state_def split: if_splits)
  qed
  have inv: "ptable_inv (proc_nprocs k) (proc_set k1)" "killable_inv (proc_set k1)" "kmsg_ok k1"
    using k1(3) n(1) by (simp_all add: sched_inv_def)
  have "sched_inv k'"
    using switched_inv [OF inv(1,2) _ _ u] l inv(3) k1(5,7,8)
    by (simp add: sched_inv_def kmsg_ok_def)
  moreover have "status (proc_set k' ! i) = PROC_RUNNING \<longleftrightarrow> i = proc_curr_idx k'" if "i < 16" for i
  proof -
    have "status (proc_set k' ! i) = (if i = proc_curr_idx k' then PROC_RUNNING
        else if i = proc_curr_idx k \<and> status (proc_set k1 ! proc_curr_idx k) = PROC_RUNNING then PROC_RUNNABLE
        else status (proc_set k1 ! i))"
      unfolding k1(5) using switched_nth [OF inv(1) _ _ u, of "proc_curr_idx k" i] l that by simp
    with r [OF that] show ?thesis
      by (cases "i = proc_curr_idx k'"; cases "status (proc_set k1 ! i) = PROC_RUNNING") simp_all
  qed
  ultimately show ?thesis using k1(6) by (simp add: user_state_def)
qed

lemma intr_entry_user_state:
  assumes "user_state k" "intr_entry i k = Some (x, k')"
  shows "user_state k'"
proof -
  have "user_state (k\<lparr>ktimer := t, ktty := u\<rparr>)" for t u
    using assms(1) by (simp add: user_state_def sched_inv_def kmsg_ok_def curr_pid_def)
  with assms ctx_entry_user_state [OF assms(1)] show ?thesis
    by (auto simp: intr_entry_def bind_eq_Some_conv split: if_splits)
qed

subsection \<open>The whole system as a step relation\<close>

text \<open>
  What happens while a process runs: it changes its own memory and registers and raises the
  software interrupt; the process server also allocates a process, fills the address space
  of a process it is loading, makes it ready, and frees processes. And traps.
\<close>

inductive user_step :: "kernel \<Rightarrow> kernel \<Rightarrow> bool" where
  memory: "user_step k (k\<lparr>spaces := (spaces k)(vm_pid k := s)\<rparr>)"
| registers: "user_step k (k\<lparr>csr_mepc := pc, csr_mscratch := s\<rparr>)"
| invoke: "user_step k (sys_invoke k)"
| alloc: "curr_pid k = GPID_PROCESS \<Longrightarrow> proc_alloc (proc_nprocs k) (proc_set k) = Some (p, n, ps)
    \<Longrightarrow> user_step k (k\<lparr>proc_nprocs := n, proc_set := ps\<rparr>)"
| load: "curr_pid k = GPID_PROCESS \<Longrightarrow> q \<in> set (proc_set k) \<Longrightarrow> status q = PROC_LOADING
    \<Longrightarrow> user_step k (k\<lparr>spaces := (spaces k)(pid q := s)\<rparr>)"
| ready: "curr_pid k = GPID_PROCESS \<Longrightarrow> q \<in> set (proc_set k) \<Longrightarrow> status q = PROC_LOADING
    \<Longrightarrow> user_step k (set_procs (proc_set_ready (pid q)) k)"
| free: "curr_pid k = GPID_PROCESS \<Longrightarrow> p \<noteq> GPID_PROCESS \<Longrightarrow> p \<noteq> 0
    \<Longrightarrow> proc_free mmu_free p (proc_set k) (m :: unit) = (ps, m')
    \<Longrightarrow> user_step k (k\<lparr>proc_set := ps\<rparr>)"

inductive system_step :: "kernel \<Rightarrow> kernel \<Rightarrow> bool" where
  user: "user_step k k' \<Longrightarrow> system_step k k'"
| trap: "trap_entry mcause k = Some (x, k') \<Longrightarrow> x \<noteq> Return \<Longrightarrow> system_step k k'"

inductive_cases user_stepE: "user_step k k'"
inductive_cases system_stepE: "system_step k k'"

lemma user_state_cong:
  assumes "user_state k" "proc_set k' = proc_set k" "proc_nprocs k' = proc_nprocs k" "kmsg k' = kmsg k"
    "proc_curr_idx k' = proc_curr_idx k" "vm_pid k' = vm_pid k"
  shows "user_state k'"
  using assms by (simp add: user_state_def sched_inv_def kmsg_ok_def curr_pid_def)

text \<open>A change of the table that keeps the running slot and no other slot running.\<close>

lemma user_state_table:
  assumes "user_state k" "ptable_inv n ps" "killable_inv ps" "pid (ps ! proc_curr_idx k) = curr_pid k"
    and "\<forall>i<MAX_NPROCESS. status (ps ! i) = PROC_RUNNING \<longleftrightarrow> status (proc_set k ! i) = PROC_RUNNING"
  shows "user_state (k\<lparr>proc_nprocs := n, proc_set := ps\<rparr>)"
  using assms by (simp add: user_state_def sched_inv_def kmsg_ok_def curr_pid_def)

lemma alloc_user_state:
  assumes "user_state k" "proc_alloc (proc_nprocs k) (proc_set k) = Some (p, n, ps)"
  shows "user_state (k\<lparr>proc_nprocs := n, proc_set := ps\<rparr>)"
proof -
  have inv: "ptable_inv (proc_nprocs k) (proc_set k)" "killable_inv (proc_set k)"
    using assms(1) by (simp_all add: user_state_def sched_inv_def)
  note len = ptable_invD(1) [OF inv(1)]
  from proc_alloc_spec [OF inv] assms(2) obtain i where
    new: "ptable_inv n ps" "killable_inv ps" "i < 16" "status (proc_set k ! i) = PROC_UNUSED"
      "status (ps ! i) = PROC_LOADING" "\<forall>j<16. j \<noteq> i \<longrightarrow> ps ! j = proc_set k ! j"
    using len by auto
  have "proc_curr_idx k \<noteq> i"
    using new(4) user_state_curr [OF assms(1)] by (auto simp: curr_status_def)
  then have "pid (ps ! proc_curr_idx k) = curr_pid k"
    using new(6) assms(1) by (simp add: curr_pid_def user_state_def sched_inv_def)
  moreover have "status (ps ! j) = PROC_RUNNING \<longleftrightarrow> status (proc_set k ! j) = PROC_RUNNING" if "j < 16" for j
    using new(4-6) that by (cases "j = i") simp_all
  ultimately show ?thesis using user_state_table [OF assms(1) new(1,2)] by simp
qed

lemma set_status_user_state:
  assumes "user_state k" "p \<noteq> curr_pid k" "p \<noteq> 0" "st \<noteq> PROC_RUNNING"
    and "\<forall>q\<in>set (proc_set k). pid q = p \<longrightarrow> status q \<noteq> PROC_RUNNING"
    and "st = PROC_UNUSED \<or> (\<forall>q\<in>set (proc_set k). pid q = p \<longrightarrow> status q \<noteq> PROC_UNUSED)"
  shows "user_state (k\<lparr>proc_set := proc_set_status p st (proc_set k)\<rparr>)"
proof -
  have inv: "ptable_inv (proc_nprocs k) (proc_set k)" "killable_inv (proc_set k)" "proc_curr_idx k < 16"
    using assms(1) by (simp_all add: user_state_def sched_inv_def)
  note len = ptable_invD(1) [OF inv(1)]
  have "killable_inv (proc_set_status p st (proc_set k))"
    using inv(2) assms(6) by (auto simp: killable_inv_def proc_set_status_def)
  moreover have "\<forall>i<16. status (proc_set_status p st (proc_set k) ! i) = PROC_RUNNING
      \<longleftrightarrow> status (proc_set k ! i) = PROC_RUNNING"
    using assms(4,5) len by (auto simp: proc_set_status_nth)
  ultimately have "user_state (k\<lparr>proc_nprocs := proc_nprocs k, proc_set := proc_set_status p st (proc_set k)\<rparr>)"
    using proc_set_status_ptable [OF inv(1) assms(3)] inv(3) len
    by (intro user_state_table [OF assms(1)]) (simp_all add: curr_pid_def)
  then show ?thesis by simp
qed

lemma killall_user_state:
  assumes "user_state k" "curr_pid k = GPID_PROCESS"
  shows "user_state (k\<lparr>proc_set := map (\<lambda>p. if pid p \<ge> GPID_USER_START
     then p\<lparr>status := PROC_UNUSED\<rparr> else p) (proc_set k)\<rparr>)" (is "user_state (k\<lparr>proc_set := ?ps\<rparr>)")
proof -
  have inv: "ptable_inv (proc_nprocs k) (proc_set k)" "killable_inv (proc_set k)" "proc_curr_idx k < 16"
    using assms(1) by (simp_all add: user_state_def sched_inv_def)
  note len = ptable_invD(1) [OF inv(1)]
  have "ptable_inv (proc_nprocs k) ?ps" using inv(1) by (simp add: ptable_inv_def)
  moreover have "killable_inv ?ps" using inv(2) by (auto simp: killable_inv_def)
  moreover have "status (?ps ! i) = PROC_RUNNING \<longleftrightarrow> status (proc_set k ! i) = PROC_RUNNING" if "i < 16" for i
    using assms that len by (auto simp: user_state_def curr_pid_def)
  ultimately have "user_state (k\<lparr>proc_nprocs := proc_nprocs k, proc_set := ?ps\<rparr>)"
    using assms inv(3) len by (intro user_state_table) (simp_all add: curr_pid_def)
  then show ?thesis by simp
qed

lemma other_not_running:
  assumes "user_state k" "p \<noteq> curr_pid k" "q \<in> set (proc_set k)" "pid q = p"
  shows "status q \<noteq> PROC_RUNNING"
proof -
  from assms(3) obtain i where "i < length (proc_set k)" "q = proc_set k ! i" by (auto simp: in_set_conv_nth)
  with assms sched_inv_length [of k] show ?thesis by (auto simp: user_state_def curr_pid_def)
qed

lemma ready_user_state:
  assumes "user_state k" "q \<in> set (proc_set k)" "status q = PROC_LOADING"
  shows "user_state (set_procs (proc_set_ready (pid q)) k)"
proof -
  have inv: "ptable_inv (proc_nprocs k) (proc_set k)" "proc_curr_idx k < 16"
    using assms(1) by (simp_all add: user_state_def sched_inv_def)
  note D = ptable_invD [OF inv(1)]
  from assms(2) obtain i where i: "i < length (proc_set k)" "q = proc_set k ! i"
    by (auto simp: in_set_conv_nth)
  have nz: "pid q \<noteq> 0" using D(5) [OF i(1)] assms(3) i(2) by auto
  have uniq: "r = q" if "r \<in> set (proc_set k)" "pid r = pid q" for r
    using that D(6) i nz by (metis in_set_conv_nth)
  then have loading: "status r = PROC_LOADING" if "r \<in> set (proc_set k)" "pid r = pid q" for r
    using that assms(3) by metis
  have "pid q \<noteq> curr_pid k"
    using uniq [of "proc_set k ! proc_curr_idx k"] user_state_curr [OF assms(1)] inv(2) D(1) assms(3)
    by (auto simp: curr_pid_def curr_status_def)
  moreover have "\<forall>r\<in>set (proc_set k). pid r = pid q \<longrightarrow> status r \<noteq> PROC_RUNNING"
    "\<forall>r\<in>set (proc_set k). pid r = pid q \<longrightarrow> status r \<noteq> PROC_UNUSED"
    by (simp_all add: loading)
  ultimately have "user_state (k\<lparr>proc_set := proc_set_status (pid q) PROC_READY (proc_set k)\<rparr>)"
    using nz by (intro set_status_user_state [OF assms(1)]) auto
  then show ?thesis by (simp add: set_procs_def proc_set_defs)
qed

lemma user_step_user_state:
  assumes "user_step k k'" "user_state k"
  shows "user_state k' \<and> proc_curr_idx k' = proc_curr_idx k"
  using assms
proof (cases rule: user_step.cases)
  case (free p mmu_free m ps m')
  show ?thesis
  proof (cases "p = - 1")
    case True
    then show ?thesis
      using killall_user_state [OF assms(2) free(2)] free by (simp add: proc_free_def proc_free_all_eq)
  next
    case False
    have "user_state (k\<lparr>proc_set := proc_set_status p PROC_UNUSED (proc_set k)\<rparr>)"
      using free other_not_running [OF assms(2)] by (intro set_status_user_state [OF assms(2)]) auto
    with False free show ?thesis by (simp add: proc_free_def)
  qed
qed (auto intro: user_state_cong alloc_user_state ready_user_state simp: sys_invoke_def)

lemma system_step_user_state:
  assumes "system_step k k'" "user_state k"
  shows "user_state k'"
  using assms
proof cases
  case (trap mcause x)
  have "user_state (k\<lparr>ktty := t\<rparr>)" for t by (rule user_state_cong [OF assms(2)]) simp_all
  with trap show ?thesis
    by (auto simp: trap_entry_def Let_def excp_entry_def intro: intr_entry_user_state split: if_splits)
qed (auto dest: user_step_user_state)

end
