(* ===== verification/Traps.thy ===== *)
theory Traps
  imports Scheduler
begin

section \<open>What traps guarantee to the processes\<close>

text \<open>
  The properties of the kernel as a whole, over the handlers' lemmas: the invariant of every
  reachable state, the preservation of every process's execution context across traps, and
  the scheduler's fairness.
\<close>

subsection \<open>Reachable states\<close>

text \<open>The state in which the grass layer starts: a cleared bss section.\<close>

definition boot_state :: "kernel \<Rightarrow> bool" where
  "boot_state k \<longleftrightarrow> proc_set k = replicate MAX_NPROCESS
       \<lparr>pid = 0, status = PROC_UNUSED, killable = False, sp = 0, mepc = 0\<rparr>
     \<and> proc_nprocs k = 0 \<and> proc_curr_idx k = 0"

lemma grass_main_user_state:
  assumes "boot_state k"
  shows "\<exists>k0. grass_main img k = Some k0 \<and> user_state k0 \<and> curr_pid k0 = GPID_PROCESS"
proof -
  let ?z = "\<lparr>pid = 0, status = PROC_UNUSED, killable = False, sp = 0, mepc = 0\<rparr>"
  have "proc_alloc 0 (replicate 16 ?z) = Some (1, 1, ?z\<lparr>pid := 1, status := PROC_LOADING\<rparr> # replicate 15 ?z)"
    by (simp add: proc_alloc_def numeral_eq_Suc Let_def)
  then have "\<exists>k0. grass_main img k = Some k0 \<and> proc_set k0 = sample_procs \<and> proc_nprocs k0 = 1
      \<and> proc_curr_idx k0 = 0 \<and> in_use (kmsg k0) = 0 \<and> vm_pid k0 = 1"
    using assms by (simp add: boot_state_def grass_main_def kernel_init_def Let_def proc_set_defs
        proc_set_status_def sample_procs_def)
  then obtain k0 where k0: "grass_main img k = Some k0" "proc_set k0 = sample_procs" "proc_nprocs k0 = 1"
    "proc_curr_idx k0 = 0" "in_use (kmsg k0) = 0" "vm_pid k0 = 1" by blast
  then have "user_state k0"
    using sample_procs_inv by (simp add: user_state_def sched_inv_def kmsg_ok_def curr_pid_def sample_procs_nth)
  with k0 show ?thesis by (simp add: curr_pid_def sample_procs_nth)
qed

text \<open>
  C10. From boot on, in every reachable state exactly one process is running, it is the
  current one and its address space is the mapped one; pids are unique, slots in use have a
  pid the allocator handed out, a process is killable exactly if it is a user application,
  and the message buffer is either free or holds one message. Reachable means: after
  \<^verbatim>\<open>main\<close> of the grass layer, by any interleaving of process steps and of timer, software
  and external interrupts.
\<close>

theorem system_invariant:
  assumes "boot_state k"
  shows "\<exists>k0. grass_main img k = Some k0 \<and> (\<forall>k'. system_step\<^sup>*\<^sup>* k0 k' \<longrightarrow> user_state k')"
proof -
  obtain k0 where k0: "grass_main img k = Some k0" "user_state k0"
    using grass_main_user_state [OF assms] by blast
  have "user_state k'" if "system_step\<^sup>*\<^sup>* k0 k'" for k'
    using that k0(2) by (induction rule: rtranclp_induct) (auto intro: system_step_user_state)
  with k0(1) show ?thesis by blast
qed

subsection \<open>Execution contexts\<close>

text \<open>
  Where a process continues: the current one at the CSRs \<^verbatim>\<open>mepc\<close> and \<^verbatim>\<open>mscratch\<close>, any other
  one at what its slot saved.
\<close>

definition context_of :: "kernel \<Rightarrow> nat \<Rightarrow> u32 \<times> u32" where
  "context_of k j = (if j = proc_curr_idx k then (csr_mepc k, csr_mscratch k)
     else (mepc (proc_set k ! j), sp (proc_set k ! j)))"

lemma ctx_entry_context:
  assumes "user_state k" "ctx_entry e k = Some (x, k')" "j < MAX_NPROCESS"
    and "x = Ctx_jump \<or> j \<noteq> proc_curr_idx k'"
  shows "snd (context_of k' j) = snd (context_of k j)"
    "fst (context_of k' j) = fst (context_of k j)
     \<or> killable (proc_set k ! j) \<and> fst (context_of k' j) = proc_idle_pc k"
proof -
  have k: "sched_inv k" "curr_status k \<noteq> PROC_UNUSED"
    using assms(1) user_state_curr [OF assms(1)] by (simp_all add: user_state_def)
  from ctx_entry_cases [OF k assms(2)] obtain k1 where
    k1: "handler_frame (saved k) k1" "sched_inv k1" "find_next k1 = Some (proc_curr_idx k')"
    "proc_set k' = switched (proc_curr_idx k) (proc_curr_idx k') (proc_set k1)"
    "x = Ctx_jump \<Longrightarrow> csr_mepc k' = mepc (proc_set k' ! proc_curr_idx k')
        \<and> csr_mscratch k' = sp (proc_set k' ! proc_curr_idx k')"
    by metis
  have u: "status (proc_set k1 ! proc_curr_idx k') \<noteq> PROC_UNUSED"
    using find_next_Some [OF k1(3)] by (auto simp: schedulable_def)
  have l: "length (proc_set k1) = 16" "proc_curr_idx k < 16" "proc_curr_idx k' < 16"
    "length (proc_set (saved k)) = 16"
    using sched_inv_length [OF k1(2)] k(1) find_next_less [OF k1(3)] sched_inv_length [OF saved_inv [OF k(1)]]
    by (auto simp: sched_inv_def)
  have "ptable_inv (proc_nprocs k1) (proc_set k1)" using k1(2) by (simp add: sched_inv_def)
  from switched_nth [OF this _ _ u, of "proc_curr_idx k" j] l assms(3)
  have s: "mepc (proc_set k' ! j) = mepc (proc_set k1 ! j)" "sp (proc_set k' ! j) = sp (proc_set k1 ! j)"
    unfolding k1(4) by simp_all
  have c: "context_of k' j = (mepc (proc_set k1 ! j), sp (proc_set k1 ! j))"
    using k1(5) assms(4) s by (auto simp: context_of_def)
  have i: "proc_idle_pc (saved k) = proc_idle_pc k" by (simp add: saved_def set_procs_def)
  have "slot_frame (proc_idle_pc k) (proc_set (saved k) ! j) (proc_set k1 ! j)"
    using k1(1) table_frameD(2) l(4) assms(3) i by (simp add: handler_frame_def)
  then show "snd (context_of k' j) = snd (context_of k j)"
    "fst (context_of k' j) = fst (context_of k j)
     \<or> killable (proc_set k ! j) \<and> fst (context_of k' j) = proc_idle_pc k"
    unfolding c saved_nth [OF k(1) assms(3)] by (auto simp: context_of_def slot_frame_def split: if_splits)
qed

text \<open>
  A trap does not disturb any process: after an interrupt of any kind, every process
  will continue at the program counter and on the stack at which it stopped, whichever
  process the scheduler picked. The only exceptions are a process that is entered for the
  first time, which starts at \<^verbatim>\<open>APPS_ENTRY\<close>, and a killable process redirected to
  \<^verbatim>\<open>proc_idle\<close> by Ctrl-C; system servers are never redirected.
\<close>

theorem trap_preserves_contexts:
  assumes "user_state k" "intr_entry i k = Some (x, k')" "j < MAX_NPROCESS"
  shows "if x = Enter_app \<and> j = proc_curr_idx k' then csr_mepc k' = APPS_ENTRY
     else snd (context_of k' j) = snd (context_of k j)
       \<and> (fst (context_of k' j) = fst (context_of k j)
          \<or> killable (proc_set k ! j) \<and> fst (context_of k' j) = proc_idle_pc k)"
proof (cases "i = INTR_ID_TIMER \<and> curr_pid k < GPID_SHELL")
  case True
  with assms(2) obtain t u where "k' = k\<lparr>ktimer := t, ktty := u\<rparr>" "x = Ctx_jump"
    by (auto simp: intr_entry_def bind_eq_Some_conv)
  then show ?thesis by (simp add: context_of_def)
next
  case False
  with assms(2) obtain e where e: "ctx_entry e k = Some (x, k')"
    by (auto simp: intr_entry_def split: if_splits)
  have k: "sched_inv k" "curr_status k \<noteq> PROC_UNUSED"
    using assms(1) user_state_curr [OF assms(1)] by (simp_all add: user_state_def)
  have x: "x = Enter_app \<or> x = Ctx_jump" "x = Enter_app \<Longrightarrow> csr_mepc k' = APPS_ENTRY"
    using ctx_entry_cases [OF k e] by metis+
  show ?thesis
  proof (cases "x = Enter_app \<and> j = proc_curr_idx k'")
    case True
    with x(2) show ?thesis by simp
  next
    case False
    with x(1) have "x = Ctx_jump \<or> j \<noteq> proc_curr_idx k'" by blast
    from ctx_entry_context [OF assms(1) e assms(3) this] False show ?thesis by auto
  qed
qed

subsection \<open>Fairness\<close>

text \<open>How many slots after \<open>c\<close> the scheduler looks at \<open>j\<close>.\<close>

definition turn :: "nat \<Rightarrow> nat \<Rightarrow> nat" where
  "turn c j = (if c < j then j - c else j + MAX_NPROCESS - c)"

lemma turn_bounds: "c < 16 \<Longrightarrow> j < 16 \<Longrightarrow> 1 \<le> turn c j \<and> turn c j \<le> 16 \<and> j = (c + turn c j) mod 16"
  by (auto simp: turn_def)

lemma turn_decreases:
  assumes "c < 16" "j < 16" "1 \<le> d" "d \<le> 16" "c' = (c + d) mod 16" "j \<noteq> c'"
    and "\<forall>e. 1 \<le> e \<and> e < d \<longrightarrow> j \<noteq> (c + e) mod 16"
  shows "turn c' j < turn c j"
proof -
  have "d < turn c j"
    using assms(5-7) turn_bounds [OF assms(1,2)] by (metis linorder_neqE_nat)
  moreover have "c' = (if c + d < 16 then c + d else c + d - 16)" "c' < 16"
    using assms(1,4,5) by (auto simp: mod_if)
  ultimately show ?thesis using assms(1-4) by (auto simp: turn_def split: if_splits)
qed

lemma ctx_entry_turn:
  assumes "user_state k" "ctx_entry e k = Some (x, k')" "j < MAX_NPROCESS"
    and "schedulable (status (proc_set k' ! j))" "j \<noteq> proc_curr_idx k'"
  shows "turn (proc_curr_idx k') j < turn (proc_curr_idx k) j"
proof -
  have k: "sched_inv k" "curr_status k \<noteq> PROC_UNUSED"
    using assms(1) user_state_curr [OF assms(1)] by (simp_all add: user_state_def)
  from ctx_entry_cases [OF k assms(2)] obtain k1 where
    k1: "proc_curr_idx k1 = proc_curr_idx k" "sched_inv k1" "find_next k1 = Some (proc_curr_idx k')"
    "proc_set k' = switched (proc_curr_idx k) (proc_curr_idx k') (proc_set k1)"
    by metis
  obtain d where d: "1 \<le> d" "d \<le> 16" "proc_curr_idx k' = (proc_curr_idx k + d) mod 16"
    "schedulable (status (proc_set k1 ! proc_curr_idx k'))"
    "\<forall>e. 1 \<le> e \<and> e < d \<longrightarrow> \<not> schedulable (status (proc_set k1 ! ((proc_curr_idx k + e) mod 16)))"
    using find_next_Some [OF k1(3)] unfolding k1(1) by blast
  have l: "length (proc_set k1) = 16" "proc_curr_idx k < 16" "proc_curr_idx k' < 16"
    using sched_inv_length [OF k1(2)] k(1) find_next_less [OF k1(3)] by (auto simp: sched_inv_def)
  have "ptable_inv (proc_nprocs k1) (proc_set k1)" using k1(2) by (simp add: sched_inv_def)
  from switched_nth [OF this, of "proc_curr_idx k" "proc_curr_idx k'" j] d(4) l assms(3-5)
  have "schedulable (status (proc_set k1 ! j))"
    unfolding k1(4) by (auto simp: schedulable_def split: if_splits)
  with d(5) have "\<forall>e. 1 \<le> e \<and> e < d \<longrightarrow> j \<noteq> (proc_curr_idx k + e) mod 16" by metis
  with turn_decreases [OF l(2) assms(3) d(1-3) assms(5)] show ?thesis .
qed

lemma user_steps_user_state:
  assumes "user_step\<^sup>*\<^sup>* k k'" "user_state k"
  shows "user_state k' \<and> proc_curr_idx k' = proc_curr_idx k"
  using assms by (induction rule: rtranclp_induct) (auto dest: user_step_user_state)


subsection \<open>Traps return\<close>

lemma syscall_handle_other:
  assumes "sched_inv k" "curr_status k \<noteq> PROC_UNUSED" "c < MAX_NPROCESS" "c \<noteq> proc_curr_idx k"
  shows "proc_set (syscall_handle k) ! c = proc_set k ! c"
proof -
  have inv: "ptable_inv (proc_nprocs k) (proc_set k)" using assms(1) by (simp add: sched_inv_def)
  note D = ptable_invD [OF inv] and i = sched_inv_idx [OF assms(1)]
  have "pid (proc_set k ! c) \<noteq> curr_pid k"
    using D(5) [OF i] D(6) [OF i, of c] D(1) assms(2-4) unfolding curr_pid_def curr_status_def by metis
  then show ?thesis
    using D(1) assms(3) by (simp add: syscall_handle_procs [OF i] proc_set_status_nth)
qed

lemma external_loop_other:
  assumes "sched_inv k" "i + n \<le> MAX_NPROCESS" "c < MAX_NPROCESS" "status (proc_set k ! c) \<noteq> PROC_REQUESTING"
  shows "proc_set (external_loop n i k) ! c = proc_set k ! c"
  using assms
proof (induction n arbitrary: i k)
  case (Suc n)
  show ?case
  proof (cases "status (proc_set k ! i) = PROC_REQUESTING")
    case True
    let ?m = "mmu_switch (pid (proc_set k ! i)) (k\<lparr>proc_curr_idx := i\<rparr>)"
    have m: "sched_inv ?m" "curr_status ?m \<noteq> PROC_UNUSED"
      using Suc.prems True by (simp_all add: sched_inv_def kmsg_ok_def curr_status_def)
    have "sched_inv (syscall_handle ?m)"
      using handler_frame_inv [OF syscall_handle_handler [OF m] m(1)] Suc.prems(2)
        syscall_handle_frame [OF sched_inv_idx [OF m(1)]] by (simp add: sched_frame_def)
    moreover have "c \<noteq> i" using True Suc.prems(4) by metis
    ultimately show ?thesis
      using Suc.IH [of "syscall_handle ?m" "Suc i"] Suc.prems syscall_handle_other [OF m Suc.prems(3)] True
      by simp
  next
    case False
    then show ?thesis using Suc by simp
  qed
qed simp

lemma timer_reset_returns:
  assumes "\<forall>i j. i \<le> j \<longrightarrow> mtime_at t i \<le> mtime_at t j"
  shows "\<exists>t'. timer_reset t = Some t' \<and> mtime_at t' = mtime_at t"
  using mtime_get_from_returns [OF assms, of "mtime_reads t"]
  by (auto simp: timer_reset_def mtime_get_def mtimecmp_set_def cmp_store_hi_def cmp_store_lo_def)

lemma find_next_exists:
  assumes "i < MAX_NPROCESS" "schedulable (status (proc_set k ! i))"
  shows "\<exists>j. find_next k = Some j"
  using find_next_None [of k i] assms by (cases "find_next k") auto

lemma trap_external_saved:
  assumes "trap_external k = Some (rc, k1)"
  shows "trap_external (saved k) = Some (rc, k1\<lparr>proc_set := proc_set (saved k)\<rparr>)"
  using assms unfolding trap_external_def saved_def set_procs_def
  by (auto simp: Let_def bind_eq_Some_conv)

lemma yield_returns:
  assumes "sched_inv k" "curr_status k = PROC_RUNNING" "trap_external k = Some (rc, k1)" "rc \<noteq> RET_SPECIAL_CHAR"
    and "\<forall>i j. i \<le> j \<longrightarrow> mtime_at (ktimer k) i \<le> mtime_at (ktimer k) j"
  shows "\<exists>x k'. proc_yield k = Some (x, k')"
proof -
  let ?e = "external_loop MAX_NPROCESS 0 k1"
  let ?k = "mmu_switch (curr_pid (?e\<lparr>proc_curr_idx := proc_curr_idx k1\<rparr>)) (?e\<lparr>proc_curr_idx := proc_curr_idx k1\<rparr>)"
  have e: "external_handle k = Some ?k" using assms(3,4) by (simp add: external_handle_def Let_def)
  have 1: "handler_frame k k1" "proc_curr_idx k1 = proc_curr_idx k" "proc_set k1 = proc_set k"
    using trap_external_handler [OF assms(3)] assms(3)
    by (auto simp: trap_external_def Let_def bind_eq_Some_conv)
  then have i1: "sched_inv k1" using handler_frame_inv [OF 1(1) assms(1)] assms(1) by (simp add: sched_inv_def)
  have c: "proc_curr_idx k < 16" using assms(1) by (simp add: sched_inv_def)
  have "proc_set ?k ! proc_curr_idx k = proc_set k ! proc_curr_idx k"
    using external_loop_other [OF i1 _ c, of 0 16] assms(2) 1 by (simp add: curr_status_def)
  then have "schedulable (status (proc_set ?k ! proc_curr_idx k))"
    using assms(2) by (simp add: curr_status_def schedulable_def)
  from find_next_exists [OF c this] obtain j where "find_next ?k = Some j" ..
  then have y: "yield_find ?k = Some (j, ?k)" by (subst yield_find.simps) simp
  have "ktimer ?k = ktimer k" using external_handle_handler [OF assms(1) e] by (simp add: handler_frame_def)
  then obtain t where t: "timer_reset (ktimer ?k) = Some t" using timer_reset_returns [OF assms(5)] by auto
  show ?thesis
    using e y t by (simp add: proc_yield_def Let_def del: mmu_switch_fields) auto
qed


subsection \<open>The properties on a concrete machine\<close>

definition zero_space :: uspace where
  "zero_space = \<lparr>us_sc = \<lparr>sc_type = 0, sc_msg = \<lparr>msg_sender = 0, msg_receiver = 0,
     msg_content = replicate 1024 0\<rparr>, sc_retval = 0\<rparr>, us_mem = (\<lambda>a. 0)\<rparr>"

definition cold_kernel :: kernel where
  "cold_kernel = demo_kernel\<lparr>proc_nprocs := 0, proc_curr_idx := 0, proc_set := replicate 16
     \<lparr>pid = 0, status = PROC_UNUSED, killable = False, sp = 0, mepc = 0\<rparr>\<rparr>"

theorem system_invariant_witness:
  "\<exists>k0. grass_main zero_space cold_kernel = Some k0 \<and> user_state k0"
proof -
  have "boot_state cold_kernel" by (simp add: boot_state_def cold_kernel_def)
  from system_invariant [OF this, of zero_space] show ?thesis by blast
qed

lemma demo_user_state: "user_state demo_kernel"
proof -
  have "ptable_inv 5 demo_procs" by (auto simp: ptable_inv_def demo_procs_nth split: if_splits)
  moreover have "killable_inv demo_procs" by (auto simp: killable_inv_def demo_procs_def)
  ultimately show ?thesis
    by (auto simp: user_state_def sched_inv_def demo_kernel_simps kmsg_ok_def demo_procs_nth)
qed

text \<open>No device interrupt, a monotone clock and nobody waiting: every yield is a plain switch.\<close>

definition quiet :: "kernel \<Rightarrow> bool" where
  "quiet k \<longleftrightarrow> user_state k \<and> (\<forall>n. plic_claim k n = 0)
     \<and> (\<forall>i j. i \<le> j \<longrightarrow> mtime_at (ktimer k) i \<le> mtime_at (ktimer k) j)
     \<and> (\<forall>c<MAX_NPROCESS. status (proc_set k ! c) \<noteq> PROC_REQUESTING)"

lemma external_loop_quiet:
  assumes "\<forall>c<MAX_NPROCESS. status (proc_set k ! c) \<noteq> PROC_REQUESTING" "i + n \<le> MAX_NPROCESS"
  shows "external_loop n i k = k"
  using assms(2) by (induction n arbitrary: i) (use assms(1) in auto)

lemma trap_external_quiet:
  "plic_claim k (claim_count k) = 0 \<Longrightarrow> trap_external k =
     Some (0, k\<lparr>claim_count := Suc (claim_count k), claim_done := claim_done k @ [0]\<rparr>)"
  by (simp add: trap_external_def Let_def)

lemma demo_quiet: "quiet demo_kernel"
  unfolding quiet_def
  using demo_user_state sample_timer_mono
  by (auto simp: demo_kernel_simps demo_procs_nth) (simp_all add: demo_kernel_def)

lemma intr_registered_simps [simp]:
  "intr_registered (set_procs f k) = intr_registered k" "intr_registered (mmu_switch p k) = intr_registered k"
  by (simp_all add: set_procs_def mmu_switch_def)

lemma quiet_yield:
  assumes "quiet k"
  shows "\<exists>x k' j. find_next k = Some j \<and> ctx_entry Proc_yield k = Some (x, k') \<and> plic_claim k' = plic_claim k
      \<and> mtime_at (ktimer k') = mtime_at (ktimer k)
      \<and> proc_set k' = switched (proc_curr_idx k) j (proc_set (saved k))
      \<and> (x = Ctx_jump \<or> status (proc_set (saved k) ! j) = PROC_READY)
      \<and> proc_curr_idx k' = j \<and> intr_registered k' = intr_registered k"
proof -
  let ?s = "saved k"
  have k: "sched_inv k" "user_state k" "curr_status k = PROC_RUNNING"
    using assms user_state_curr by (auto simp: quiet_def user_state_def)
  have s: "proc_curr_idx ?s = proc_curr_idx k" "plic_claim ?s = plic_claim k" "ktimer ?s = ktimer k"
    by (simp_all add: saved_def)
  have st: "status (proc_set ?s ! i) = status (proc_set k ! i)" if "i < 16" for i
    using that saved_nth [OF k(1), of i] by simp
  define c where "c = ?s\<lparr>claim_count := Suc (claim_count ?s), claim_done := claim_done ?s @ [0]\<rparr>"
  have cf: "proc_set c = proc_set ?s" "proc_curr_idx c = proc_curr_idx k" "plic_claim c = plic_claim k"
    "ktimer c = ktimer k" "c\<lparr>proc_curr_idx := proc_curr_idx c\<rparr> = c" "intr_registered c = intr_registered k"
    using s by (simp_all add: c_def) (simp add: saved_def)
  let ?m = "mmu_switch (curr_pid c) c"
  have l: "external_loop MAX_NPROCESS 0 c = c"
    using assms st cf(1) by (intro external_loop_quiet) (auto simp: quiet_def)
  have "trap_external ?s = Some (0, c)"
    using assms trap_external_quiet [of ?s] by (simp add: c_def quiet_def s)
  then have e: "external_handle ?s = Some ?m"
    using l cf(5) by (simp add: external_handle_def Let_def)
  have c16: "proc_curr_idx k < 16" using k(1) by (simp add: sched_inv_def)
  have "schedulable (status (proc_set ?m ! proc_curr_idx k))"
    using k(3) cf(1) st [OF c16] by (simp add: schedulable_def curr_status_def)
  from find_next_exists [OF c16 this] obtain j where j: "find_next ?m = Some j" ..
  have "find_next k = find_next ?m"
    unfolding find_next_def using cf(1,2) st by (intro find_cong) auto
  then have jk: "find_next k = Some j" using j by simp
  from j have y: "yield_find ?m = Some (j, ?m)" by (subst yield_find.simps) simp
  obtain t where t: "timer_reset (ktimer k) = Some t" "mtime_at t = mtime_at (ktimer k)"
    using timer_reset_returns [of "ktimer k"] assms unfolding quiet_def by blast
  have j16: "j < length (proc_set ?s)" using find_next_less [OF j] sched_inv_length [OF saved_inv [OF k(1)]] by simp
  have "\<exists>x k'. ctx_entry Proc_yield k = Some (x, k') \<and> plic_claim k' = plic_claim k \<and> ktimer k' = t
      \<and> proc_set k' = switched (proc_curr_idx k) j (proc_set ?s)
      \<and> (x = Ctx_jump \<or> status (proc_set ?s ! j) = PROC_READY)
      \<and> proc_curr_idx k' = j \<and> intr_registered k' = intr_registered k"
    using e y t cf j16 unfolding ctx_entry_def saved_def [symmetric]
    by (auto simp: proc_yield_def Let_def switched_def curr_status_def curr_pid_def proc_set_defs)
  with jk t(2) show ?thesis by metis
qed

lemma quiet_step:
  assumes "quiet k"
  shows "\<exists>x k'. ctx_entry Proc_yield k = Some (x, k') \<and> quiet k'
     \<and> (\<forall>i<MAX_NPROCESS. schedulable (status (proc_set k' ! i)) = schedulable (status (proc_set k ! i)))
     \<and> (x = Ctx_jump \<or> (\<exists>i<MAX_NPROCESS. status (proc_set k ! i) = PROC_READY))
     \<and> (\<forall>i<MAX_NPROCESS. status (proc_set k' ! i) = PROC_READY \<longrightarrow> status (proc_set k ! i) = PROC_READY)
     \<and> find_next k = Some (proc_curr_idx k') \<and> intr_registered k' = intr_registered k"
proof -
  let ?s = "saved k"
  have k: "sched_inv k" "user_state k" "curr_status k = PROC_RUNNING"
    using assms user_state_curr by (auto simp: quiet_def user_state_def)
  have st: "status (proc_set ?s ! i) = status (proc_set k ! i)" if "i < 16" for i
    using that saved_nth [OF k(1), of i] by simp
  from quiet_yield [OF assms] obtain x k' j where jk: "find_next k = Some j"
    and k': "ctx_entry Proc_yield k = Some (x, k')" "plic_claim k' = plic_claim k" "mtime_at (ktimer k') = mtime_at (ktimer k)"
    "proc_set k' = switched (proc_curr_idx k) j (proc_set ?s)"
    "x = Ctx_jump \<or> status (proc_set ?s ! j) = PROC_READY" "proc_curr_idx k' = j" "intr_registered k' = intr_registered k"
    by blast
  have l: "length (proc_set ?s) = 16" "j < 16" "j < length (proc_set ?s)" "proc_curr_idx k < 16"
    using find_next_less [OF jk] sched_inv_length [OF saved_inv [OF k(1)]] k(1) by (simp_all add: sched_inv_def)
  then have x: "x = Ctx_jump \<or> (\<exists>i<16. status (proc_set k ! i) = PROC_READY)" using k'(5) st by auto
  have inv: "ptable_inv (proc_nprocs ?s) (proc_set ?s)" "proc_curr_idx k < length (proc_set ?s)"
    using saved_inv [OF k(1)] l by (simp_all add: sched_inv_def)
  have sj: "schedulable (status (proc_set ?s ! j))" using find_next_Some [OF jk] st l(2) by auto
  then have sj': "status (proc_set ?s ! j) \<noteq> PROC_UNUSED" by (auto simp: schedulable_def)
  have n: "status (proc_set k' ! i) = (if i = j then PROC_RUNNING
      else if i = proc_curr_idx k \<and> status (proc_set ?s ! proc_curr_idx k) = PROC_RUNNING then PROC_RUNNABLE
      else status (proc_set k ! i))" if "i < 16" for i
    using switched_nth [OF inv(1,2) l(3) sj', of i] that l(1) st [OF that]
    by (simp add: k'(4))
  have sch: "schedulable (status (proc_set k' ! i)) = schedulable (status (proc_set k ! i))" if "i < 16" for i
    using n [OF that] sj st [OF that] k(3) by (auto simp: schedulable_def curr_status_def)
  have r: "status (proc_set k' ! i) = PROC_READY \<longrightarrow> status (proc_set k ! i) = PROC_READY" if "i < 16" for i
    using n [OF that] by simp
  have "status (proc_set k' ! i) \<noteq> PROC_REQUESTING" if "i < 16" for i
    using n [OF that] that assms by (simp add: quiet_def)
  moreover have "user_state k'" by (rule ctx_entry_user_state [OF k(2) k'(1)])
  ultimately have "quiet k'" using k'(2,3) assms by (simp add: quiet_def)
  with k'(1,6,7) x sch r jk show ?thesis by blast
qed


theorem trap_preserves_contexts_witness:
  "\<exists>k'. intr_entry INTR_ID_TIMER demo_kernel = Some (Ctx_jump, k') \<and> context_of k' 0 = (0, 0)"
proof -
  obtain x k' where k': "ctx_entry Proc_yield demo_kernel = Some (x, k')" "x = Ctx_jump"
    using quiet_step [OF demo_quiet] by (auto simp: demo_kernel_simps demo_procs_nth split: if_splits)
  then have i: "intr_entry INTR_ID_TIMER demo_kernel = Some (x, k')"
    by (simp add: intr_entry_def demo_kernel_simps)
  with trap_preserves_contexts [OF demo_user_state i, of 0] k'(2) show ?thesis
    by (simp add: demo_kernel_simps demo_procs_nth context_of_def prod_eq_iff)
qed


end
