(* ===== verification/Asm.thy ===== *)
theory Asm
  imports Prelude
begin

unbundle bit_operations_syntax

section \<open>The assembly code\<close>

text \<open>
  \<^verbatim>\<open>earth/earth.s\<close>, \<^verbatim>\<open>grass/grass.s\<close> and \<^verbatim>\<open>apps/app.s\<close>: the entries of the layers, the code that saves the registers of
  an interrupted process on its stack, and \<^verbatim>\<open>ctx_jump\<close>, which takes them back. The code is a list of
  instructions of the processor, executed on registers, control registers and memory. Where it goes by a jump, a
  call or \<^verbatim>\<open>mret\<close> is recorded in \<open>goto\<close>: the functions called are not part of this code, and
  \<^verbatim>\<open>call main\<close> of \<^verbatim>\<open>app.s\<close> is followed by \<^verbatim>\<open>call exit\<close> when it returns. \<open>None\<close> is the
  exception of a load or store that is not aligned. The address that a call leaves in \<^verbatim>\<open>ra\<close> comes from the linker
  and is an argument of the instruction.
\<close>

datatype reg =
    Zero | Ra | Sp | Gp | Tp
  | T0 | T1 | T2 | T3 | T4 | T5 | T6
  | S0 | S1 | S2 | S3 | S4 | S5 | S6 | S7 | S8 | S9 | S10 | S11
  | A0 | A1 | A2 | A3 | A4 | A5 | A6 | A7

datatype csr = Mscratch | Mstatus | Mepc

datatype target = Trap_Entry | Earth_Main | Grass_Main | App_Main | App_Exit | Pc u32

datatype instr =
    Csrw csr reg
  | Csrr reg csr
  | Csrrw reg csr reg
  | Csrs csr reg
  | Csrc csr reg
  | Lui reg u32
  | Addi reg reg int
  | Li reg u32
  | Lw reg int reg
  | Sw reg int reg
  | J target
  | Call target u32
  | Mret

record cpu =
  regs :: "reg \<Rightarrow> u32"
  csrs :: "csr \<Rightarrow> u32"
  mem :: "u32 \<Rightarrow> byte"
  mode :: u32
  goto :: "target list"

definition load32 :: "(u32 \<Rightarrow> byte) \<Rightarrow> u32 \<Rightarrow> u32" where
  "load32 m a = ucast (m a) OR push_bit 8 (ucast (m (a + 1))) OR push_bit 16 (ucast (m (a + 2))) OR push_bit 24 (ucast (m (a + 3)))"

definition store32 :: "u32 \<Rightarrow> u32 \<Rightarrow> (u32 \<Rightarrow> byte) \<Rightarrow> u32 \<Rightarrow> byte" where
  "store32 a v m = m(a := ucast v, a + 1 := ucast (drop_bit 8 v), a + 2 := ucast (drop_bit 16 v), a + 3 := ucast (drop_bit 24 v))"

definition aligned :: "u32 \<Rightarrow> bool" where
  "aligned a \<longleftrightarrow> unat a mod 4 = 0"

definition set_reg :: "reg \<Rightarrow> u32 \<Rightarrow> cpu \<Rightarrow> cpu" where
  "set_reg r v c = (if r = Zero then c else c\<lparr>regs := (regs c)(r := v)\<rparr>)"

definition set_csr :: "csr \<Rightarrow> u32 \<Rightarrow> cpu \<Rightarrow> cpu" where
  "set_csr x v c = c\<lparr>csrs := (csrs c)(x := v)\<rparr>"

text \<open>
  What the processor does itself when it takes a trap at \<open>pc\<close> and at \<^verbatim>\<open>mret\<close>: in \<^verbatim>\<open>mstatus\<close>, bit 3 is MIE
  (interrupts enabled), bit 7 is MPIE (MIE before the trap), bits 11 and 12 are MPP (the mode before the trap: 0 user,
  1 supervisor, 3 machine) and bit 17 is MPRV (loads and stores use the translation of the mode in MPP).
\<close>

definition put_bit :: "nat \<Rightarrow> bool \<Rightarrow> u32 \<Rightarrow> u32" where
  "put_bit n b s = (if b then set_bit n s else unset_bit n s)"

definition mpp :: "u32 \<Rightarrow> u32" where
  "mpp s = drop_bit 11 s AND 3"

definition take_trap :: "u32 \<Rightarrow> cpu \<Rightarrow> cpu" where
  "take_trap pc c =
    (let s = csrs c Mstatus;
         s = put_bit 3 False (put_bit 7 (bit s 3) s);
         s = put_bit 11 (bit (mode c) 0) (put_bit 12 (bit (mode c) 1) s)
     in (set_csr Mepc pc (set_csr Mstatus s c))\<lparr>mode := 3\<rparr>)"

definition mret :: "cpu \<Rightarrow> cpu" where
  "mret c =
    (let s = csrs c Mstatus;
         s' = put_bit 7 True (put_bit 3 (bit s 7) s);
         s' = put_bit 11 False (put_bit 12 False s');
         s' = (if mpp s = 3 then s' else put_bit 17 False s')
     in (set_csr Mstatus s' c)\<lparr>mode := mpp s, goto := goto c @ [Pc (csrs c Mepc)]\<rparr>)"

fun exec1 :: "instr \<Rightarrow> cpu \<Rightarrow> cpu option" where
  "exec1 (Csrw x r) c = Some (set_csr x (regs c r) c)"
| "exec1 (Csrr r x) c = Some (set_reg r (csrs c x) c)"
| "exec1 (Csrrw r x s) c = Some (set_reg r (csrs c x) (set_csr x (regs c s) c))"
| "exec1 (Csrs x r) c = Some (set_csr x (csrs c x OR regs c r) c)"
| "exec1 (Csrc x r) c = Some (set_csr x (csrs c x AND NOT (regs c r)) c)"
| "exec1 (Lui r i) c = Some (set_reg r (push_bit 12 i) c)"
| "exec1 (Addi r s i) c = Some (set_reg r (regs c s + of_int i) c)"
| "exec1 (Li r i) c = Some (set_reg r i c)"
| "exec1 (Lw r i s) c = (let a = regs c s + of_int i in if \<not> aligned a then None else Some (set_reg r (load32 (mem c) a) c))"
| "exec1 (Sw r i s) c = (let a = regs c s + of_int i in if \<not> aligned a then None else Some (c\<lparr>mem := store32 a (regs c r) (mem c)\<rparr>))"
| "exec1 (J t) c = Some (c\<lparr>goto := goto c @ [t]\<rparr>)"
| "exec1 (Call t a) c = Some ((set_reg Ra a c)\<lparr>goto := goto c @ [t]\<rparr>)"
| "exec1 Mret c = Some (mret c)"

fun exec :: "instr list \<Rightarrow> cpu \<Rightarrow> cpu option" where
  "exec [] c = Some c"
| "exec (i # is) c = do { c \<leftarrow> exec1 i c; exec is c }"

definition TRAP_START :: "instr list" where
  "TRAP_START =
    [Csrw Mscratch Sp,
     Lui Sp 0x80004, Addi Sp Sp (- 0x80),
     Csrrw T0 Mscratch T0, Addi T0 T0 (- 116),
     Sw Ra 108 T0,
     Sw A7 104 T0, Sw A6 100 T0, Sw A5 96 T0, Sw A4 92 T0, Sw A3 88 T0, Sw A2 84 T0, Sw A1 80 T0, Sw A0 76 T0,
     Sw T6 72 T0, Sw T5 68 T0, Sw T4 64 T0, Sw T3 60 T0, Sw T2 56 T0, Sw T1 52 T0,
     Sw S11 44 T0, Sw S10 40 T0, Sw S9 36 T0, Sw S8 32 T0, Sw S7 28 T0, Sw S6 24 T0, Sw S5 20 T0, Sw S4 16 T0,
     Sw S3 12 T0, Sw S2 8 T0, Sw S1 4 T0, Sw S0 0 T0,
     Csrr T1 Mscratch, Sw T1 48 T0,
     Csrw Mscratch T0]"

definition earth_entry :: "u32 \<Rightarrow> instr list" where
  "earth_entry a = [Li T0 0x8, Csrc Mstatus T0, Li Sp 0x80003f80, Call Earth_Main a]"

definition trap_entry_start :: "instr list" where
  "trap_entry_start = TRAP_START @ [J Trap_Entry]"

definition trap_entry_vm :: "instr list" where
  "trap_entry_vm = [Csrw Mscratch T0, Li T0 0x20800, Csrs Mstatus T0, Csrr T0 Mscratch] @ TRAP_START @ [J Trap_Entry]"

definition grass_entry :: "u32 \<Rightarrow> instr list" where
  "grass_entry a = [Li Sp 0x80003f80, Call Grass_Main a]"

definition ctx_jump :: "instr list" where
  "ctx_jump =
    [Csrr Sp Mscratch,
     Lw Ra 108 Sp,
     Lw A7 104 Sp, Lw A6 100 Sp, Lw A5 96 Sp, Lw A4 92 Sp, Lw A3 88 Sp, Lw A2 84 Sp, Lw A1 80 Sp, Lw A0 76 Sp,
     Lw T6 72 Sp, Lw T5 68 Sp, Lw T4 64 Sp, Lw T3 60 Sp, Lw T2 56 Sp, Lw T1 52 Sp, Lw T0 48 Sp,
     Lw S11 44 Sp, Lw S10 40 Sp, Lw S9 36 Sp, Lw S8 32 Sp, Lw S7 28 Sp, Lw S6 24 Sp, Lw S5 20 Sp, Lw S4 16 Sp,
     Lw S3 12 Sp, Lw S2 8 Sp, Lw S1 4 Sp, Lw S0 0 Sp,
     Addi Sp Sp 116,
     Mret]"

definition app_entry :: "u32 \<Rightarrow> u32 \<Rightarrow> instr list" where
  "app_entry a a' = [Lw A0 0 A0, Li Sp 0x80002000, Call App_Main a, Call App_Exit a']"

subsection \<open>Words in memory\<close>

lemma load_store_same: "load32 (store32 a v m) a = v"
proof (rule bit_word_eqI)
  fix n assume "n < LENGTH(32)"
  then consider "n < 8" | "8 \<le> n" "n < 16" | "16 \<le> n" "n < 24" | "24 \<le> n" "n < 32" by fastforce
  then show "bit (load32 (store32 a v m) a) n = bit v n"
    by cases (auto simp: load32_def store32_def bit_simps)
qed

lemma offset_eq:
  assumes "0 \<le> i" "i < 2 ^ 32" "0 \<le> j" "j < 2 ^ 32"
  shows "a + of_int i = a + (of_int j :: u32) \<longleftrightarrow> i = j"
  using assms by (simp add: word_of_int_eq_iff take_bit_int_eq_self)

lemma load_cong: "(\<And>d. d \<in> {0, 1, 2, 3} \<Longrightarrow> m (a + d) = m' (a + d)) \<Longrightarrow> load32 m a = load32 m' a"
  using add_0_right [of a] by (simp add: load32_def) (metis add_0_right insertCI)

lemma store_other:
  assumes "0 \<le> i" "i \<le> 112" "i mod 4 = 0" "0 \<le> j" "j < 116" "j div 4 * 4 \<noteq> i"
  shows "store32 (b + of_int i) v m (b + of_int j) = m (b + of_int j)"
proof -
  have "j \<noteq> i" "j \<noteq> i + 1" "j \<noteq> i + 2" "j \<noteq> i + 3" using assms(3,6) by auto
  moreover have "b + of_int i + 1 = b + of_int (i + 1)" "b + of_int i + 2 = b + of_int (i + 2)"
    "b + of_int i + 3 = b + of_int (i + 3)" by simp_all
  ultimately show ?thesis
    using assms offset_eq [of j i b] offset_eq [of j "i + 1" b] offset_eq [of j "i + 2" b] offset_eq [of j "i + 3" b]
    unfolding store32_def by (simp del: of_int_add)
qed

subsection \<open>Frames\<close>

text \<open>A frame is a list of words at offsets from a base; \<open>frame_ok\<close> is that they do not overlap.\<close>

definition put_frame :: "u32 \<Rightarrow> (int \<times> u32) list \<Rightarrow> (u32 \<Rightarrow> byte) \<Rightarrow> u32 \<Rightarrow> byte" where
  "put_frame b vs = fold (\<lambda>(i, v). store32 (b + of_int i) v) vs"

definition frame_ok :: "int list \<Rightarrow> bool" where
  "frame_ok is \<longleftrightarrow> distinct is \<and> (\<forall>i\<in>set is. 0 \<le> i \<and> i \<le> 112 \<and> i mod 4 = 0)"

definition in_frame :: "u32 \<Rightarrow> u32 \<Rightarrow> bool" where
  "in_frame b a \<longleftrightarrow> a - b < 116"

lemma put_frame_simps [simp]:
  "put_frame b [] m = m"
  "put_frame b ((i, v) # vs) m = put_frame b vs (store32 (b + of_int i) v m)"
  by (simp_all add: put_frame_def)

lemma put_frame_append [simp]: "put_frame b (vs @ ws) m = put_frame b ws (put_frame b vs m)"
  by (simp add: put_frame_def)

lemma frame_ok_Cons [simp]:
  "frame_ok (i # is) \<longleftrightarrow> frame_ok is \<and> i \<notin> set is \<and> 0 \<le> i \<and> i \<le> 112 \<and> i mod 4 = 0"
  by (auto simp: frame_ok_def)

lemma load_store_other:
  assumes "0 \<le> i" "i \<le> 112" "i mod 4 = 0" "0 \<le> j" "j \<le> 112" "j mod 4 = 0" "i \<noteq> j"
  shows "load32 (store32 (b + of_int i) v m) (b + of_int j) = load32 m (b + of_int j)"
proof (rule load_cong)
  fix d :: u32 assume "d \<in> {0, 1, 2, 3}"
  then obtain e :: int where e: "d = of_int e" "0 \<le> e" "e < 4"
    by (auto intro: that [of 0] that [of 1] that [of 2] that [of 3])
  have "store32 (b + of_int i) v m (b + of_int (j + e)) = m (b + of_int (j + e))"
    by (rule store_other) (use assms e in presburger)+
  then show "store32 (b + of_int i) v m (b + of_int j + d) = m (b + of_int j + d)" by (simp add: e(1) add.assoc)
qed

lemma put_frame_other:
  assumes "frame_ok (map fst vs)" "j \<notin> set (map fst vs)" "0 \<le> j" "j \<le> 112" "j mod 4 = 0"
  shows "load32 (put_frame b vs m) (b + of_int j) = load32 m (b + of_int j)"
  using assms by (induction vs arbitrary: m) (auto simp: load_store_other)

lemma put_frame_load:
  assumes "frame_ok (map fst vs)" "(j, v) \<in> set vs"
  shows "load32 (put_frame b vs m) (b + of_int j) = v"
  using assms
proof (induction vs arbitrary: m)
  case (Cons iv vs)
  show ?case
  proof (cases "iv = (j, v)")
    case True
    with Cons.prems show ?thesis by (simp add: put_frame_other load_store_same)
  next
    case False
    with Cons.prems Cons.IH show ?thesis by (cases iv) auto
  qed
qed simp

lemma in_frame_offset: "in_frame b (b + of_int i)" if "0 \<le> i" "i < 116"
  using that by (simp add: in_frame_def word_less_def take_bit_int_eq_self uint_word_of_int_eq)

lemma store_outside:
  assumes "0 \<le> i" "i \<le> 112" "\<not> in_frame b a"
  shows "store32 (b + of_int i) v m a = m a"
proof -
  have "a \<noteq> b + of_int (i + e)" if "e \<in> {0, 1, 2, 3}" for e
    using in_frame_offset [of "i + e" b] that assms by auto
  from this [of 0] this [of 1] this [of 2] this [of 3] show ?thesis
    by (simp add: store32_def add.assoc)
qed

lemma put_frame_outside:
  assumes "frame_ok (map fst vs)" "\<not> in_frame b a"
  shows "put_frame b vs m a = m a"
  using assms by (induction vs arbitrary: m) (auto simp: store_outside)

lemma load_frame_cong:
  assumes "0 \<le> i" "i \<le> 112" "\<And>a. in_frame b a \<Longrightarrow> m a = m' a"
  shows "load32 m (b + of_int i) = load32 m' (b + of_int i)"
proof (rule load_cong)
  fix d :: u32 assume "d \<in> {0, 1, 2, 3}"
  then obtain e :: int where e: "d = of_int e" "0 \<le> e" "e < 4"
    by (auto intro: that [of 0] that [of 1] that [of 2] that [of 3])
  have "in_frame b (b + of_int (i + e))" by (rule in_frame_offset) (use assms e in auto)
  with assms(3) show "m (b + of_int i + d) = m' (b + of_int i + d)" by (simp add: e(1) add.assoc)
qed

subsection \<open>Sequences of stores and loads\<close>

lemma exec_append [simp]: "exec (is @ js) c = do { c \<leftarrow> exec is c; exec js c }"
  by (induction "is" arbitrary: c) (auto split: bind_splits)

lemma aligned_uint: "aligned a \<longleftrightarrow> uint a mod 4 = 0"
  unfolding aligned_def using zmod_int [of "unat a" 4] by (simp del: of_nat_mod) linarith

lemma aligned_offset:
  assumes "aligned b" "0 \<le> i" "i < 2 ^ 32" "i mod 4 = 0"
  shows "aligned (b + of_int i)"
proof -
  have "uint (b + of_int i) mod 4 = (uint b + i) mod 2 ^ 32 mod 4"
    using assms(2,3) by (simp add: uint_word_ariths uint_word_of_int_eq take_bit_int_eq_self)
  also have "\<dots> = (uint b + i) mod 4" by (simp add: mod_mod_cancel)
  also have "\<dots> = 0" using assms(1,4) unfolding aligned_uint by presburger
  finally show ?thesis unfolding aligned_uint .
qed

lemma aligned_frame: "aligned (a - 116)" if "aligned a"
proof -
  have "a - 116 = a + of_int (2 ^ 32 - 116)" by (simp add: diff_conv_add_uminus del: add_uminus_conv_diff)
  show ?thesis unfolding \<open>a - 116 = _\<close> by (rule aligned_offset [OF that]) simp_all
qed

definition saves :: "reg \<Rightarrow> (reg \<times> int) list \<Rightarrow> instr list" where
  "saves b rs = map (\<lambda>(r, i). Sw r i b) rs"

definition restores :: "reg \<Rightarrow> (reg \<times> int) list \<Rightarrow> instr list" where
  "restores b rs = map (\<lambda>(r, i). Lw r i b) rs"

lemma exec_saves:
  assumes "aligned (regs c b)" "frame_ok (map snd rs)"
  shows "exec (saves b rs) c = Some (c\<lparr>mem := put_frame (regs c b) (map (\<lambda>(r, i). (i, regs c r)) rs) (mem c)\<rparr>)"
  using assms
proof (induction rs arbitrary: c)
  case (Cons ri rs)
  then show ?case by (cases ri) (simp add: saves_def aligned_offset Let_def)
qed (simp add: saves_def)

lemma exec_restores:
  assumes "aligned (regs c b)" "frame_ok (map snd rs)" "b \<notin> fst ` set rs" "Zero \<notin> fst ` set rs" "distinct (map fst rs)"
  shows "\<exists>c'. exec (restores b rs) c = Some c' \<and> csrs c' = csrs c \<and> mem c' = mem c \<and> goto c' = goto c \<and> mode c' = mode c
    \<and> (\<forall>r i. (r, i) \<in> set rs \<longrightarrow> regs c' r = load32 (mem c) (regs c b + of_int i))
    \<and> (\<forall>r. r \<notin> fst ` set rs \<longrightarrow> regs c' r = regs c r)"
  using assms
proof (induction rs arbitrary: c)
  case (Cons ri rs)
  obtain r i where ri: "ri = (r, i)" by (cases ri)
  define c1 where "c1 = set_reg r (load32 (mem c) (regs c b + of_int i)) c"
  have c1: "exec1 (Lw r i b) c = Some c1" "regs c1 b = regs c b" "mem c1 = mem c" "csrs c1 = csrs c"
    "goto c1 = goto c" "mode c1 = mode c" "regs c1 = (regs c)(r := load32 (mem c) (regs c b + of_int i))"
    using Cons.prems by (auto simp: ri c1_def set_reg_def aligned_offset)
  from Cons.IH [of c1] Cons.prems c1 obtain c' where c': "exec (restores b rs) c1 = Some c'" "csrs c' = csrs c" "mem c' = mem c"
    "goto c' = goto c" "mode c' = mode c" "\<forall>r i. (r, i) \<in> set rs \<longrightarrow> regs c' r = load32 (mem c) (regs c b + of_int i)"
    "\<forall>r. r \<notin> fst ` set rs \<longrightarrow> regs c' r = regs c1 r"
    by auto
  have "exec (restores b (ri # rs)) c = Some c'" using c1(1) c'(1) by (simp add: restores_def ri)
  moreover have "regs c' r = load32 (mem c) (regs c b + of_int i)"
    using c'(7) Cons.prems(5) c1(7) by (simp add: ri)
  ultimately show ?case using c'(2-7) c1(7) by (intro exI [of _ c']) (auto simp: ri)
qed (simp add: restores_def)

subsection \<open>Saving and restoring the context\<close>

text \<open>The registers that are saved, and where; \<^verbatim>\<open>t0\<close> goes to offset 48.\<close>

definition saved_regs :: "(reg \<times> int) list" where
  "saved_regs =
    [(Ra, 108), (A7, 104), (A6, 100), (A5, 96), (A4, 92), (A3, 88), (A2, 84), (A1, 80), (A0, 76),
     (T6, 72), (T5, 68), (T4, 64), (T3, 60), (T2, 56), (T1, 52),
     (S11, 44), (S10, 40), (S9, 36), (S8, 32), (S7, 28), (S6, 24), (S5, 20), (S4, 16),
     (S3, 12), (S2, 8), (S1, 4), (S0, 0)]"

definition context_frame :: "cpu \<Rightarrow> (int \<times> u32) list" where
  "context_frame c = map (\<lambda>(r, i). (i, regs c r)) saved_regs @ [(48, regs c T0)]"

lemma frame_ok_Nil [simp]: "frame_ok []"
  by (simp add: frame_ok_def)

lemma saved_regs_ok: "frame_ok (map snd saved_regs)" "48 \<notin> snd ` set saved_regs"
  by (simp_all add: saved_regs_def)

lemma context_frame_ok: "frame_ok (map fst (context_frame c))"
  by (simp add: context_frame_def saved_regs_def)

lemma TRAP_START_split:
  "TRAP_START = [Csrw Mscratch Sp, Lui Sp 0x80004, Addi Sp Sp (- 0x80), Csrrw T0 Mscratch T0, Addi T0 T0 (- 116)]
     @ saves T0 saved_regs @ [Csrr T1 Mscratch, Sw T1 48 T0, Csrw Mscratch T0]"
  by (simp add: TRAP_START_def saves_def saved_regs_def)

definition GRASS_STACK_TOP :: u32 where
  "GRASS_STACK_TOP = 0x80003f80"

lemma TRAP_START_ok:
  assumes "aligned (regs c Sp)"
  shows "exec TRAP_START c = Some (c\<lparr>
      regs := (regs c)(Sp := GRASS_STACK_TOP, T0 := regs c Sp - 116, T1 := regs c T0),
      mem := put_frame (regs c Sp - 116) (context_frame c) (mem c),
      csrs := (csrs c)(Mscratch := regs c Sp - 116)\<rparr>)"
proof -
  define b where "b = regs c Sp - 116"
  define c0 where "c0 = c\<lparr>regs := (regs c)(Sp := GRASS_STACK_TOP, T0 := b), csrs := (csrs c)(Mscratch := regs c T0)\<rparr>"
  have b: "aligned b" using aligned_frame [OF assms] by (simp add: b_def)
  have p: "exec [Csrw Mscratch Sp, Lui Sp 0x80004, Addi Sp Sp (- 0x80), Csrrw T0 Mscratch T0, Addi T0 T0 (- 116)] c = Some c0"
    by (simp add: c0_def b_def set_reg_def set_csr_def GRASS_STACK_TOP_def fun_upd_twist)
  have r: "map (\<lambda>(r, i). (i, regs c0 r)) saved_regs = map (\<lambda>(r, i). (i, regs c r)) saved_regs"
    by (simp add: c0_def saved_regs_def)
  have s: "exec (saves T0 saved_regs) c0
      = Some (c0\<lparr>mem := put_frame b (map (\<lambda>(r, i). (i, regs c r)) saved_regs) (mem c)\<rparr>)"
    using exec_saves [of c0 T0 saved_regs, unfolded r] b saved_regs_ok(1) by (simp add: c0_def)
  have "aligned (b + 48)" using aligned_offset [OF b, of 48] by simp
  then show ?thesis
    unfolding TRAP_START_split exec_append p Option.bind.simps s b_def [symmetric] context_frame_def put_frame_append
    by (simp add: c0_def set_reg_def set_csr_def)
qed

text \<open>The registers that \<^verbatim>\<open>ctx_jump\<close> takes back.\<close>

definition frame_regs :: "(reg \<times> int) list" where
  "frame_regs = take 15 saved_regs @ (T0, 48) # drop 15 saved_regs"

lemma ctx_jump_split: "ctx_jump = [Csrr Sp Mscratch] @ restores Sp frame_regs @ [Addi Sp Sp 116, Mret]"
  by (simp add: ctx_jump_def restores_def frame_regs_def saved_regs_def)

lemma frame_regs_ok:
  "frame_ok (map snd frame_regs)" "distinct (map fst frame_regs)" "fst ` set frame_regs = - {Zero, Sp, Gp, Tp}"
proof -
  show "fst ` set frame_regs = - {Zero, Sp, Gp, Tp}"
  proof (rule set_eqI)
    show "r \<in> fst ` set frame_regs \<longleftrightarrow> r \<in> - {Zero, Sp, Gp, Tp}" for r
      by (cases r) (simp_all add: frame_regs_def saved_regs_def)
  qed
qed (simp_all add: frame_regs_def saved_regs_def)

lemma frame_regs_context:
  assumes "(r, i) \<in> set frame_regs"
  shows "(i, regs c r) \<in> set (context_frame c)"
proof -
  have "list_all (\<lambda>(r, i). (i, regs c r) \<in> set (context_frame c)) frame_regs"
    by (simp add: frame_regs_def saved_regs_def context_frame_def)
  with assms show ?thesis by (auto simp: list_all_iff)
qed

lemma ctx_jump_ok:
  assumes "aligned b" "csrs c2 Mscratch = b" "\<And>a. in_frame b a \<Longrightarrow> mem c2 a = put_frame b (context_frame c) m a"
  shows "\<exists>c3. exec ctx_jump c2 = Some (mret c3) \<and> csrs c3 = csrs c2 \<and> mem c3 = mem c2 \<and> goto c3 = goto c2
    \<and> (\<forall>r. regs c3 r = (if r = Sp then b + 116 else if r \<in> {Zero, Gp, Tp} then regs c2 r else regs c r))"
proof -
  define c0 where "c0 = set_reg Sp b c2"
  have c0: "regs c0 Sp = b" "csrs c0 = csrs c2" "mem c0 = mem c2" "goto c0 = goto c2" "\<And>r. r \<noteq> Sp \<Longrightarrow> regs c0 r = regs c2 r"
    by (simp_all add: c0_def set_reg_def)
  have "aligned (regs c0 Sp)" "Sp \<notin> fst ` set frame_regs" "Zero \<notin> fst ` set frame_regs"
    using c0(1) assms(1) frame_regs_ok(3) by simp_all
  from exec_restores [OF this(1) frame_regs_ok(1) this(2,3) frame_regs_ok(2)] obtain c1 where
    c1: "exec (restores Sp frame_regs) c0 = Some c1" "csrs c1 = csrs c0" "mem c1 = mem c0" "goto c1 = goto c0"
    and l: "\<forall>r i. (r, i) \<in> set frame_regs \<longrightarrow> regs c1 r = load32 (mem c0) (regs c0 Sp + of_int i)"
    and u: "\<forall>r. r \<notin> fst ` set frame_regs \<longrightarrow> regs c1 r = regs c0 r"
    by blast
  have u: "regs c1 r = regs c0 r" if "r \<in> {Zero, Sp, Gp, Tp}" for r
    using u that unfolding frame_regs_ok(3) by blast
  have v: "regs c1 r = regs c r" if r: "r \<notin> {Zero, Sp, Gp, Tp}" for r
  proof -
    from r have "r \<in> fst ` set frame_regs" unfolding frame_regs_ok(3) by simp
    then obtain i where i: "(r, i) \<in> set frame_regs" by auto
    then have o: "0 \<le> i" "i \<le> 112" using frame_regs_ok(1) by (auto simp: frame_ok_def)
    have "regs c1 r = load32 (put_frame b (context_frame c) m) (b + of_int i)"
      using l i load_frame_cong [OF o assms(3)] by (simp add: c0(1,3))
    also have "\<dots> = regs c r" by (rule put_frame_load [OF context_frame_ok frame_regs_context [OF i]])
    finally show ?thesis .
  qed
  have "exec ctx_jump c2 = Some (mret (set_reg Sp (b + 116) c1))"
    unfolding ctx_jump_split using c1(1) u [of Sp] c0(1) assms(2) by (simp add: c0_def)
  moreover have "regs (set_reg Sp (b + 116) c1) r
      = (if r = Sp then b + 116 else if r \<in> {Zero, Gp, Tp} then regs c2 r else regs c r)" for r
    using u [of r] v [of r] c0(5) [of r] by (simp add: set_reg_def)
  ultimately show ?thesis using c1 c0 by (intro exI [of _ "set_reg Sp (b + 116) c1"]) (simp add: set_reg_def)
qed

subsection \<open>Machine status\<close>

lemma bit_put_bit [simp]: "n < 32 \<Longrightarrow> bit (put_bit n b s) m \<longleftrightarrow> (if m = n then b else bit s m)"
  by (auto simp: put_bit_def bit_simps)

lemma mode_eqI:
  fixes s t :: u32
  assumes "bit s 0 = bit t 0" "bit s 1 = bit t 1" "s AND 3 = s" "t AND 3 = t"
  shows "s = t"
proof (rule bit_word_eqI)
  fix n assume "n < LENGTH(32)"
  have m: "(3 :: u32) = mask 2" by (simp add: mask_eq_exp_minus_1)
  have "bit (s AND 3) n \<longleftrightarrow> bit (t AND 3) n"
  proof (cases "n < 2")
    case True
    then have "n = 0 \<or> n = 1" by linarith
    with assms(1,2) show ?thesis by (auto simp: bit_and_iff)
  qed (simp add: m bit_simps)
  then show "bit s n = bit t n" using assms(3,4) by simp
qed

lemma bit_mpp: "bit (mpp s) 0 = bit s 11" "bit (mpp s) (Suc 0) = bit s 12" "mpp s AND 3 = mpp s"
  by (simp_all add: mpp_def bit_simps ac_simps)

text \<open>The two entries that \<^verbatim>\<open>intr_init\<close> puts into \<^verbatim>\<open>mtvec\<close>, with page tables or without.\<close>

definition trap_code :: "bool \<Rightarrow> instr list" where
  "trap_code page_table = (if page_table then trap_entry_vm else trap_entry_start)"

definition vm_status :: "bool \<Rightarrow> u32 \<Rightarrow> u32" where
  "vm_status page_table s = (if page_table then s OR 0x20800 else s)"

lemma trap_code_ok:
  assumes "aligned (regs c Sp)"
  shows "exec (trap_code v) c = Some (c\<lparr>
      regs := (regs c)(Sp := GRASS_STACK_TOP, T0 := regs c Sp - 116, T1 := regs c T0),
      mem := put_frame (regs c Sp - 116) (context_frame c) (mem c),
      csrs := (csrs c)(Mscratch := regs c Sp - 116, Mstatus := vm_status v (csrs c Mstatus)),
      goto := goto c @ [Trap_Entry]\<rparr>)"
proof (cases v)
  case True
  define c0 where "c0 = c\<lparr>csrs := (csrs c)(Mscratch := regs c T0, Mstatus := csrs c Mstatus OR 0x20800)\<rparr>"
  have "exec [Csrw Mscratch T0, Li T0 0x20800, Csrs Mstatus T0, Csrr T0 Mscratch] c = Some c0"
    by (simp add: c0_def set_reg_def set_csr_def)
  moreover have "context_frame c0 = context_frame c" by (simp add: c0_def context_frame_def)
  ultimately show ?thesis using TRAP_START_ok [of c0] assms True
    unfolding trap_code_def trap_entry_vm_def exec_append by (simp add: c0_def vm_status_def fun_upd_twist)
next
  case False
  moreover have "f(Mscratch := x, Mstatus := f Mstatus) = f(Mscratch := x)" for f :: "csr \<Rightarrow> u32" and x by (simp add: fun_eq_iff)
  ultimately show ?thesis using TRAP_START_ok [OF assms] by (simp add: trap_code_def trap_entry_start_def vm_status_def)
qed

lemma bit_vm_status:
  "bit (vm_status v s) 7 \<longleftrightarrow> bit s 7" "bit (vm_status v s) 11 \<longleftrightarrow> bit s 11 \<or> v"
  "bit (vm_status v s) 12 \<longleftrightarrow> bit s 12" "bit (vm_status v s) 17 \<longleftrightarrow> bit s 17 \<or> v"
  by (auto simp: vm_status_def bit_or_iff)

text \<open>
  What the kernel keeps of a process that it interrupted, up to the \<^verbatim>\<open>ctx_jump\<close> back to it: the control registers it
  got, or wrote again, the registers that no compiled function changes, and the frame on the stack of the process.
\<close>

definition kept :: "cpu \<Rightarrow> cpu \<Rightarrow> bool" where
  "kept c c' \<longleftrightarrow> csrs c' = csrs c \<and> (\<forall>r\<in>{Zero, Gp, Tp}. regs c' r = regs c r)
    \<and> (\<forall>a. in_frame (csrs c Mscratch) a \<longrightarrow> mem c' a = mem c a)"

lemma mret_ok:
  assumes "mode c AND 3 = mode c" "csrs c' Mstatus = vm_status v (csrs (take_trap pc c) Mstatus)"
  shows "mode (mret c') = (if v then mode c OR 1 else mode c)" "bit (csrs (mret c') Mstatus) 3 = bit (csrs c Mstatus) 3"
proof -
  show "mode (mret c') = (if v then mode c OR 1 else mode c)"
  proof (rule mode_eqI)
    show "(if v then mode c OR 1 else mode c) AND 3 = (if v then mode c OR 1 else mode c)"
      using assms(1) by (simp add: and.commute bit.conj_disj_distrib)
  qed (auto simp: mret_def Let_def assms(2) bit_mpp bit_vm_status take_trap_def set_csr_def bit_or_iff)
  show "bit (csrs (mret c') Mstatus) 3 = bit (csrs c Mstatus) 3"
    by (simp add: mret_def Let_def assms(2) bit_vm_status take_trap_def set_csr_def)
qed

lemma take_trap_simps:
  "regs (take_trap pc c) = regs c" "mem (take_trap pc c) = mem c" "goto (take_trap pc c) = goto c"
  "csrs (take_trap pc c) Mepc = pc" "context_frame (take_trap pc c) = context_frame c"
  by (simp_all add: take_trap_def Let_def set_csr_def context_frame_def)

lemma ctx_jump_returns:
  assumes "aligned (regs c Sp)" "mode c AND 3 = mode c"
    and "csrs c2 Mscratch = regs c Sp - 116" "csrs c2 Mstatus = vm_status v (csrs (take_trap pc' c) Mstatus)"
    and "\<forall>r\<in>{Zero, Gp, Tp}. regs c2 r = regs c r"
    and "\<And>a. in_frame (regs c Sp - 116) a \<Longrightarrow> mem c2 a = put_frame (regs c Sp - 116) (context_frame c) m a"
  shows "\<exists>c3. exec ctx_jump c2 = Some c3 \<and> regs c3 = regs c \<and> mem c3 = mem c2 \<and> goto c3 = goto c2 @ [Pc (csrs c2 Mepc)]
      \<and> mode c3 = (if v then mode c OR 1 else mode c) \<and> bit (csrs c3 Mstatus) 3 = bit (csrs c Mstatus) 3"
proof -
  from ctx_jump_ok [OF aligned_frame [OF assms(1)] assms(3,6)] obtain c3 where
    c3: "exec ctx_jump c2 = Some (mret c3)" "csrs c3 = csrs c2" "mem c3 = mem c2" "goto c3 = goto c2"
    "\<And>r. regs c3 r = (if r = Sp then regs c Sp - 116 + 116 else if r \<in> {Zero, Gp, Tp} then regs c2 r else regs c r)"
    by blast
  have "regs c3 = regs c" using c3(5) assms(5) by (auto simp: fun_eq_iff)
  with c3 assms(4) mret_ok [OF assms(2), of c3 v pc'] show ?thesis
    by (intro exI [of _ "mret c3"]) (simp add: mret_def Let_def set_csr_def)
qed

text \<open>
  C16. Saving and restoring a context: when a process is interrupted at \<open>pc\<close>, in any mode and with its stack pointer
  aligned, the entry code reaches \<^verbatim>\<open>trap_entry\<close> on the kernel stack, having written nothing but the 116 bytes
  below the stack pointer of the process; and after whatever the kernel does that keeps that frame and the control
  registers, \<^verbatim>\<open>ctx_jump\<close> continues at \<open>pc\<close> with all 32 registers, the mode and the interrupt enable bit as
  they were. The entry for page tables lifts a process from user to supervisor mode.
\<close>

theorem context_restored:
  assumes "aligned (regs c Sp)" "mode c AND 3 = mode c"
  shows "\<exists>c1. exec (trap_code v) (take_trap pc c) = Some c1 \<and> goto c1 = goto c @ [Trap_Entry]
    \<and> regs c1 Sp = GRASS_STACK_TOP \<and> csrs c1 Mscratch = regs c Sp - 116
    \<and> (\<forall>a. \<not> in_frame (regs c Sp - 116) a \<longrightarrow> mem c1 a = mem c a)
    \<and> (\<forall>c2. kept c1 c2 \<longrightarrow> (\<exists>c3. exec ctx_jump c2 = Some c3 \<and> regs c3 = regs c \<and> mem c3 = mem c2
          \<and> goto c3 = goto c2 @ [Pc pc] \<and> mode c3 = (if v then mode c OR 1 else mode c)
          \<and> bit (csrs c3 Mstatus) 3 = bit (csrs c Mstatus) 3))"
proof -
  define b where "b = regs c Sp - 116"
  from trap_code_ok [of "take_trap pc c" v] assms(1) obtain c1 where
    c1: "exec (trap_code v) (take_trap pc c) = Some c1" "goto c1 = goto c @ [Trap_Entry]" "csrs c1 Mepc = pc"
    "regs c1 = (regs c)(Sp := GRASS_STACK_TOP, T0 := b, T1 := regs c T0)" "mem c1 = put_frame b (context_frame c) (mem c)"
    "csrs c1 Mscratch = b" "csrs c1 Mstatus = vm_status v (csrs (take_trap pc c) Mstatus)"
    by (simp add: b_def take_trap_simps)
  have "mem c1 a = mem c a" if "\<not> in_frame b a" for a
    unfolding c1(5) by (rule put_frame_outside [OF context_frame_ok that])
  moreover have "\<exists>c3. exec ctx_jump c2 = Some c3 \<and> regs c3 = regs c \<and> mem c3 = mem c2 \<and> goto c3 = goto c2 @ [Pc pc]
      \<and> mode c3 = (if v then mode c OR 1 else mode c) \<and> bit (csrs c3 Mstatus) 3 = bit (csrs c Mstatus) 3"
    if "kept c1 c2" for c2
    using that c1 ctx_jump_returns [OF assms, of c2 v pc "mem c"] by (simp add: kept_def b_def)
  ultimately show ?thesis using c1 by (intro exI [of _ c1]) (simp add: b_def)
qed

definition demo_cpu :: cpu where
  "demo_cpu = \<lparr>regs = (\<lambda>_. 0)(Sp := 0x80001ff0, T0 := 7), csrs = \<lambda>_. 0x80, mem = \<lambda>_. 0, mode = 3, goto = []\<rparr>"

theorem context_restored_witness:
  "\<exists>c1 c3. exec trap_entry_start (take_trap 0x08005010 demo_cpu) = Some c1
    \<and> exec ctx_jump c1 = Some c3 \<and> regs c3 = regs demo_cpu \<and> goto c3 = [Trap_Entry, Pc 0x08005010] \<and> mode c3 = 3"
proof -
  have "aligned (regs demo_cpu Sp)" "mode demo_cpu AND 3 = mode demo_cpu" by (simp_all add: demo_cpu_def aligned_def)
  from context_restored [OF this, of False "0x08005010"] show ?thesis
    by (auto simp: trap_code_def demo_cpu_def kept_def)
qed

subsection \<open>The entries\<close>

text \<open>
  The kernel starts on its stack with interrupts disabled; a program starts on the application stack with the number of
  arguments that \<^verbatim>\<open>APPS_ARG\<close> holds in \<^verbatim>\<open>a0\<close>, where the kernel left that address, and with \<^verbatim>\<open>a1\<close> as the kernel left it.
\<close>

lemma earth_entry_ok:
  "\<exists>c'. exec (earth_entry a) c = Some c' \<and> goto c' = goto c @ [Earth_Main] \<and> regs c' Sp = GRASS_STACK_TOP
    \<and> csrs c' = (csrs c)(Mstatus := unset_bit 3 (csrs c Mstatus))"
proof -
  have "s AND NOT 8 = unset_bit 3 s" for s :: u32 by (simp add: unset_bit_eq_and_not push_bit_eq_mult)
  then show ?thesis by (simp add: earth_entry_def set_reg_def set_csr_def GRASS_STACK_TOP_def)
qed

lemma grass_entry_ok:
  "\<exists>c'. exec (grass_entry a) c = Some c' \<and> goto c' = goto c @ [Grass_Main] \<and> regs c' Sp = GRASS_STACK_TOP \<and> csrs c' = csrs c"
  by (simp add: grass_entry_def set_reg_def GRASS_STACK_TOP_def)

lemma app_entry_ok:
  assumes "regs c A0 = APPS_ARG"
  shows "exec (app_entry a a') c = Some (c\<lparr>regs := (regs c)(A0 := load32 (mem c) APPS_ARG, Sp := 0x80002000, Ra := a'),
     goto := goto c @ [App_Main, App_Exit]\<rparr>)"
  using assms by (simp add: app_entry_def set_reg_def aligned_def)

subsection \<open>Exceptions\<close>

text \<open>
  \<^verbatim>\<open>trap_entry\<close> is an ordinary function that is reached by a jump: it returns to the address in \<^verbatim>\<open>ra\<close>, that of the interrupted
  program. \<^verbatim>\<open>excp_entry\<close> returns at once, so that after an exception the caller of the faulting function goes on
  in machine mode, with interrupts disabled, on the kernel stack.
\<close>

lemma exception_return:
  assumes "aligned (regs c Sp)" "exec (trap_code v) (take_trap pc c) = Some c1"
  shows "regs c1 Ra = regs c Ra" "regs c1 Sp = GRASS_STACK_TOP" "mode c1 = 3" "\<not> bit (csrs c1 Mstatus) 3"
proof -
  have a: "aligned (regs (take_trap pc c) Sp)" using assms(1) by (simp add: take_trap_simps)
  have b: "\<not> bit (vm_status v (csrs (take_trap pc c) Mstatus)) 3"
    by (simp add: vm_status_def bit_or_iff take_trap_def Let_def set_csr_def)
  have m: "mode (take_trap pc c) = 3" by (simp add: take_trap_def Let_def)
  from assms(2) trap_code_ok [OF a, of v] b m
  show "regs c1 Ra = regs c Ra" "regs c1 Sp = GRASS_STACK_TOP" "mode c1 = 3" "\<not> bit (csrs c1 Mstatus) 3"
    by (auto simp: take_trap_simps)
qed

end
