(* ===== verification/Resume.thy ===== *)
theory Resume
  imports Asm Traps
begin

section \<open>A process resumes where it was interrupted\<close>

text \<open>
  The context switch as a whole: the registers that the entry code saves on the stack of a process, and the slot of the
  process table that keeps its program counter and stack pointer while other processes run, come back together.
\<close>

subsection \<open>The slot of a process that is not running\<close>

lemma user_step_slot:
  assumes "user_step k k'" "user_state k" "j < MAX_NPROCESS" "status (proc_set k ! j) \<noteq> PROC_UNUSED"
  shows "proc_idle_pc k' = proc_idle_pc k" "pid (proc_set k' ! j) = pid (proc_set k ! j)"
    "killable (proc_set k' ! j) = killable (proc_set k ! j)" "sp (proc_set k' ! j) = sp (proc_set k ! j)"
    "mepc (proc_set k' ! j) = mepc (proc_set k ! j)"
proof -
  have l: "length (proc_set k) = MAX_NPROCESS" using assms(2) sched_inv_length by (simp add: user_state_def)
  have a: "ps ! j = proc_set k ! j" if "proc_alloc n (proc_set k) = Some (p, n', ps)" for p n n' ps
    using that assms(4) find_index_SomeD by (fastforce simp: proc_alloc_def Let_def nth_list_update split: option.splits if_splits)
  have "proc_idle_pc k' = proc_idle_pc k \<and> pid (proc_set k' ! j) = pid (proc_set k ! j)
    \<and> killable (proc_set k' ! j) = killable (proc_set k ! j) \<and> sp (proc_set k' ! j) = sp (proc_set k ! j)
    \<and> mepc (proc_set k' ! j) = mepc (proc_set k ! j)"
    using assms(1)
  proof (cases rule: user_step.cases)
    case (free p mmu_free m ps m')
    then show ?thesis using l assms(3)
      by (auto simp: proc_free_def proc_free_all_eq proc_set_status_nth split: if_splits)
  next
    case (ready q)
    then show ?thesis using l assms(3) by (simp add: set_procs_def proc_set_defs proc_set_status_nth)
  qed (simp_all add: a sys_invoke_def)
  then show "proc_idle_pc k' = proc_idle_pc k" "pid (proc_set k' ! j) = pid (proc_set k ! j)"
    "killable (proc_set k' ! j) = killable (proc_set k ! j)" "sp (proc_set k' ! j) = sp (proc_set k ! j)"
    "mepc (proc_set k' ! j) = mepc (proc_set k ! j)" by simp_all
qed

lemma ctx_entry_slot:
  assumes "user_state k" "ctx_entry e k = Some (x, k')" "j < MAX_NPROCESS"
  shows "proc_idle_pc k' = proc_idle_pc k" "pid (proc_set k' ! j) = pid (proc_set k ! j)"
    "killable (proc_set k' ! j) = killable (proc_set k ! j)"
proof -
  have k: "sched_inv k" "curr_status k \<noteq> PROC_UNUSED"
    using assms(1) user_state_curr [OF assms(1)] by (simp_all add: user_state_def)
  from ctx_entry_cases [OF k assms(2)] obtain k1 where
    k1: "handler_frame (saved k) k1" "sched_inv k1" "find_next k1 = Some (proc_curr_idx k')" "proc_idle_pc k' = proc_idle_pc k"
    "proc_set k' = switched (proc_curr_idx k) (proc_curr_idx k') (proc_set k1)"
    by metis
  have u: "status (proc_set k1 ! proc_curr_idx k') \<noteq> PROC_UNUSED"
    using find_next_Some [OF k1(3)] by (auto simp: schedulable_def)
  have l: "length (proc_set k1) = 16" "proc_curr_idx k < 16" "proc_curr_idx k' < 16" "length (proc_set (saved k)) = 16"
    using sched_inv_length [OF k1(2)] k(1) find_next_less [OF k1(3)] sched_inv_length [OF saved_inv [OF k(1)]]
    by (auto simp: sched_inv_def)
  have "ptable_inv (proc_nprocs k1) (proc_set k1)" using k1(2) by (simp add: sched_inv_def)
  note s = switched_nth [OF this _ _ u, of "proc_curr_idx k" j]
  have "slot_frame (proc_idle_pc (saved k)) (proc_set (saved k) ! j) (proc_set k1 ! j)"
    using k1(1) table_frameD(2) l(4) assms(3) by (simp add: handler_frame_def)
  with s l assms(3) show "pid (proc_set k' ! j) = pid (proc_set k ! j)" "killable (proc_set k' ! j) = killable (proc_set k ! j)"
    unfolding k1(5) by (simp_all add: slot_frame_def saved_nth [OF k(1) assms(3)] split: if_splits)
  show "proc_idle_pc k' = proc_idle_pc k" by (rule k1(4))
qed

lemma trap_entry_slot:
  assumes "user_state k" "trap_entry m k = Some (x, k')" "x \<noteq> Return" "j < MAX_NPROCESS"
    and "x = Ctx_jump \<or> j \<noteq> proc_curr_idx k'"
  shows "user_state k'" "proc_idle_pc k' = proc_idle_pc k" "pid (proc_set k' ! j) = pid (proc_set k ! j)"
    "killable (proc_set k' ! j) = killable (proc_set k ! j)" "snd (context_of k' j) = snd (context_of k j)"
    "fst (context_of k' j) = fst (context_of k j)
     \<or> killable (proc_set k ! j) \<and> fst (context_of k' j) = proc_idle_pc k"
proof -
  define k0 where "k0 = k\<lparr>ktty := tty_kernel_mode (ktty k)\<rparr>"
  have u: "user_state k0" unfolding k0_def by (rule user_state_cong [OF assms(1)]) simp_all
  have k0: "proc_set k0 = proc_set k" "proc_idle_pc k0 = proc_idle_pc k" "context_of k0 j = context_of k j"
    by (simp_all add: k0_def context_of_def)
  from assms(2,3) obtain i where i: "intr_entry i k0 = Some (x, k')"
    by (auto simp: trap_entry_def Let_def excp_entry_def k0_def split: if_splits)
  show "user_state k'" by (rule intr_entry_user_state [OF u i])
  from i consider (timer) t v where "k' = k0\<lparr>ktimer := t, ktty := v\<rparr>" | (ctx) e where "ctx_entry e k0 = Some (x, k')"
    by (auto simp: intr_entry_def bind_eq_Some_conv split: if_splits)
  then have "proc_idle_pc k' = proc_idle_pc k \<and> pid (proc_set k' ! j) = pid (proc_set k ! j)
    \<and> killable (proc_set k' ! j) = killable (proc_set k ! j) \<and> snd (context_of k' j) = snd (context_of k j)
    \<and> (fst (context_of k' j) = fst (context_of k j) \<or> killable (proc_set k ! j) \<and> fst (context_of k' j) = proc_idle_pc k)"
  proof cases
    case timer
    then show ?thesis by (simp add: k0_def context_of_def)
  next
    case ctx
    from ctx_entry_slot [OF u ctx assms(4)] ctx_entry_context [OF u ctx assms(4,5)] k0 show ?thesis by simp
  qed
  then show "proc_idle_pc k' = proc_idle_pc k" "pid (proc_set k' ! j) = pid (proc_set k ! j)"
    "killable (proc_set k' ! j) = killable (proc_set k ! j)" "snd (context_of k' j) = snd (context_of k j)"
    "fst (context_of k' j) = fst (context_of k j)
     \<or> killable (proc_set k ! j) \<and> fst (context_of k' j) = proc_idle_pc k" by simp_all
qed

subsection \<open>From an interrupt to the return\<close>

text \<open>
  The process of slot \<open>j\<close> is interrupted in \<open>k\<close>; the states that follow until the trap that returns to it: \<open>k\<close> itself, when
  the same trap returns, or those of any run of the other processes in which the process of slot \<open>j\<close> is not freed.
\<close>

inductive suspended :: "nat \<Rightarrow> kernel \<Rightarrow> kernel \<Rightarrow> bool" for j k where
  start: "proc_curr_idx k = j \<Longrightarrow> suspended j k k"
| leave: "proc_curr_idx k = j \<Longrightarrow> trap_entry m k = Some (x, k') \<Longrightarrow> x \<noteq> Return \<Longrightarrow> proc_curr_idx k' \<noteq> j
    \<Longrightarrow> status (proc_set k' ! j) \<noteq> PROC_UNUSED \<Longrightarrow> suspended j k k'"
| step: "suspended j k k1 \<Longrightarrow> proc_curr_idx k1 \<noteq> j \<Longrightarrow> system_step k1 k2 \<Longrightarrow> proc_curr_idx k2 \<noteq> j
    \<Longrightarrow> status (proc_set k2 ! j) \<noteq> PROC_UNUSED \<Longrightarrow> suspended j k k2"

definition parked :: "nat \<Rightarrow> kernel \<Rightarrow> kernel \<Rightarrow> bool" where
  "parked j k k' \<longleftrightarrow> user_state k' \<and> proc_idle_pc k' = proc_idle_pc k \<and> pid (proc_set k' ! j) = pid (proc_set k ! j)
    \<and> killable (proc_set k' ! j) = killable (proc_set k ! j) \<and> status (proc_set k' ! j) \<noteq> PROC_UNUSED
    \<and> snd (context_of k' j) = csr_mscratch k
    \<and> (fst (context_of k' j) = csr_mepc k \<or> killable (proc_set k ! j) \<and> fst (context_of k' j) = proc_idle_pc k)"

lemma parked_trap:
  assumes "parked j k k1" "trap_entry m k1 = Some (x, k')" "x \<noteq> Return" "j < MAX_NPROCESS"
    "x = Ctx_jump \<or> j \<noteq> proc_curr_idx k'" "status (proc_set k' ! j) \<noteq> PROC_UNUSED"
  shows "parked j k k'"
proof -
  from assms(1) have "user_state k1" by (simp add: parked_def)
  from trap_entry_slot [OF this assms(2-5)] assms(1,6) show ?thesis by (auto simp: parked_def)
qed

lemma parked_user:
  assumes "parked j k k1" "user_step k1 k'" "j < MAX_NPROCESS" "j \<noteq> proc_curr_idx k1" "status (proc_set k' ! j) \<noteq> PROC_UNUSED"
  shows "parked j k k'"
proof -
  from assms(1) have u: "user_state k1" "status (proc_set k1 ! j) \<noteq> PROC_UNUSED" by (simp_all add: parked_def)
  from user_step_slot [OF assms(2) u(1) assms(3) u(2)] user_step_user_state [OF assms(2) u(1)] assms(1,4,5)
  show ?thesis by (auto simp: parked_def context_of_def)
qed

lemma suspended_parked:
  assumes "suspended j k k'" "user_state k" "j < MAX_NPROCESS"
  shows "parked j k k'"
  using assms(1)
proof induction
  case start
  then show ?case using user_state_curr [OF assms(2)] assms(2) by (auto simp: parked_def context_of_def curr_status_def)
next
  case (leave m x k')
  then have "parked j k k"
    using user_state_curr [OF assms(2)] assms(2) by (auto simp: parked_def context_of_def curr_status_def)
  from parked_trap [OF this leave(2,3) assms(3) _ leave(5)] leave(4) show ?case by blast
next
  case (step k1 k2)
  from step(3) show ?case
  proof (cases rule: system_step.cases)
    case user
    from parked_user [OF step.IH user assms(3) _ step(5)] step(2) show ?thesis by blast
  next
    case (trap m x)
    from parked_trap [OF step.IH trap assms(3) _ step(5)] step(4) show ?thesis by blast
  qed
qed


text \<open>The shell and an application alternate with the timer.\<close>

definition pair_procs :: "process list" where
  "pair_procs = \<lparr>pid = 4, status = PROC_RUNNABLE, killable = False, sp = 0, mepc = 0\<rparr>
     # \<lparr>pid = 5, status = PROC_RUNNING, killable = True, sp = 0, mepc = 0\<rparr>
     # replicate 14 \<lparr>pid = 0, status = PROC_UNUSED, killable = False, sp = 0, mepc = 0\<rparr>"

definition pair_kernel :: kernel where
  "pair_kernel = demo_kernel\<lparr>proc_set := pair_procs, csr_mepc := 0x08005010, csr_mscratch := 0x80001f7c\<rparr>"

lemma pair_procs_nth:
  "length pair_procs = 16"
  "i < 16 \<Longrightarrow> pair_procs ! i =
    (if i = 0 then \<lparr>pid = 4, status = PROC_RUNNABLE, killable = False, sp = 0, mepc = 0\<rparr>
     else if i = 1 then \<lparr>pid = 5, status = PROC_RUNNING, killable = True, sp = 0, mepc = 0\<rparr>
     else \<lparr>pid = 0, status = PROC_UNUSED, killable = False, sp = 0, mepc = 0\<rparr>)"
  by (simp_all add: pair_procs_def nth_Cons')

lemma pair_quiet: "quiet pair_kernel"
proof -
  have "ptable_inv 5 pair_procs" by (auto simp: ptable_inv_def pair_procs_nth split: if_splits)
  moreover have "killable_inv pair_procs" by (auto simp: killable_inv_def pair_procs_def)
  ultimately have "user_state pair_kernel"
    by (auto simp: user_state_def sched_inv_def pair_kernel_def curr_pid_def demo_kernel_simps kmsg_ok_def pair_procs_nth)
  with demo_quiet show ?thesis by (auto simp: quiet_def pair_kernel_def pair_procs_nth)
qed

lemma quiet_timer:
  assumes "quiet k" "intr_registered k" "curr_pid k \<ge> GPID_SHELL" "\<forall>i<MAX_NPROCESS. status (proc_set k ! i) \<noteq> PROC_READY"
  shows "\<exists>k'. trap_entry 0x80000007 k = Some (Ctx_jump, k') \<and> quiet k' \<and> intr_registered k'
    \<and> find_next k = Some (proc_curr_idx k')
    \<and> (\<forall>i<MAX_NPROCESS. schedulable (status (proc_set k' ! i)) = schedulable (status (proc_set k ! i)))
    \<and> (\<forall>i<MAX_NPROCESS. status (proc_set k' ! i) \<noteq> PROC_READY)"
proof -
  define k0 where "k0 = k\<lparr>ktty := tty_kernel_mode (ktty k)\<rparr>"
  have "user_state k0" unfolding k0_def by (rule user_state_cong [of k]) (use assms(1) in \<open>simp_all add: quiet_def\<close>)
  then have "quiet k0" using assms(1) by (simp add: quiet_def k0_def)
  from quiet_step [OF this] obtain x k' where
    k': "ctx_entry Proc_yield k0 = Some (x, k')" "quiet k'"
    "\<forall>i<MAX_NPROCESS. schedulable (status (proc_set k' ! i)) = schedulable (status (proc_set k0 ! i))"
    "x = Ctx_jump \<or> (\<exists>i<MAX_NPROCESS. status (proc_set k0 ! i) = PROC_READY)"
    "\<forall>i<MAX_NPROCESS. status (proc_set k' ! i) = PROC_READY \<longrightarrow> status (proc_set k0 ! i) = PROC_READY"
    "find_next k0 = Some (proc_curr_idx k')" "intr_registered k' = intr_registered k0"
    by blast
  have k0: "proc_set k0 = proc_set k" "find_next k0 = find_next k" "intr_registered k0 = intr_registered k"
    by (simp_all add: k0_def find_next_def)
  have x: "x = Ctx_jump" using k'(4) assms(4) unfolding k0(1) by blast
  have "trap_entry 0x80000007 k = Some (Ctx_jump, k')"
    using k'(1) assms(2,3) unfolding x by (simp add: trap_entry_def k0_def intr_entry_def curr_pid_def)
  with k'(2,3,5-7) assms(2,4) show ?thesis unfolding k0 by blast
qed


end
