(* ===== verification/Interrupt_Char.thy ===== *)
theory Interrupt_Char
  imports Scheduler
begin

section \<open>Ctrl-C\<close>

text \<open>
  \<^verbatim>\<open>special_handle\<close>: when the terminal delivers Ctrl-C and all servers are waiting, one killable
  process is made to send the kill-all request and the others become zombies.
\<close>

definition victim :: "process \<Rightarrow> bool" where
  "victim p \<longleftrightarrow> killable p \<and> status p \<noteq> PROC_UNUSED"

definition server_busy :: "process \<Rightarrow> bool" where
  "server_busy p \<longleftrightarrow> pid p \<le> GPID_SHELL \<and> status p \<noteq> PROC_UNUSED \<and> status p \<noteq> PROC_REQUESTING"

lemma slot_set_status:
  assumes "sched_inv k" "i < MAX_NPROCESS" "status (proc_set k ! i) \<noteq> PROC_UNUSED" "c < MAX_NPROCESS"
  shows "proc_set_status (pid (proc_set k ! i)) st (proc_set k) ! c =
     (if c = i then (proc_set k ! i)\<lparr>status := st\<rparr> else proc_set k ! c)"
proof -
  have inv: "ptable_inv (proc_nprocs k) (proc_set k)" using assms(1) by (simp add: sched_inv_def)
  note D = ptable_invD [OF inv]
  have "proc_set_status (pid (proc_set k ! i)) st (proc_set k) = (proc_set k)[i := (proc_set k ! i)\<lparr>status := st\<rparr>]"
    using D(1) D(5) [of i] assms by (intro proc_set_status_update [OF inv]) auto
  then show ?thesis using D(1) assms(2,4) by (simp add: nth_list_update)
qed

lemma zombie_phase:
  assumes "sched_inv k" "i + n \<le> MAX_NPROCESS" "s \<noteq> 0"
    and "\<forall>c. i \<le> c \<and> c < MAX_NPROCESS \<longrightarrow> \<not> server_busy (proc_set k ! c)"
  shows "\<exists>k'. special_loop n i s k = (Some s, k') \<and> spaces k' = spaces k \<and> ktty k' = ktty k
     \<and> (\<forall>c<MAX_NPROCESS. proc_set k' ! c = (if i \<le> c \<and> c < i + n \<and> victim (proc_set k ! c)
          then (proc_set k ! c)\<lparr>status := PROC_ZOMBIE\<rparr> else proc_set k ! c))"
  using assms
proof (induction n arbitrary: i k)
  case (Suc n)
  have i: "i < 16" using Suc.prems(2) by simp
  have nb: "\<not> server_busy (proc_set k ! i)" using Suc.prems(4) i by simp
  show ?case
  proof (cases "victim (proc_set k ! i)")
    case False
    then have "special_loop (Suc n) i s k = special_loop n (Suc i) s k"
      using nb by (auto simp: victim_def server_busy_def Let_def)
    moreover obtain k' where "special_loop n (Suc i) s k = (Some s, k')" "spaces k' = spaces k" "ktty k' = ktty k"
      "\<forall>c<16. proc_set k' ! c = (if Suc i \<le> c \<and> c < Suc i + n \<and> victim (proc_set k ! c)
          then (proc_set k ! c)\<lparr>status := PROC_ZOMBIE\<rparr> else proc_set k ! c)"
      using Suc.IH [of k "Suc i"] Suc.prems by auto
    ultimately show ?thesis
      using False by (auto simp: less_Suc_eq_le Suc_le_eq le_less)
  next
    case True
    let ?k = "set_procs (proc_set_zombie (pid (proc_set k ! i))) k"
    have "status (proc_set k ! i) \<noteq> PROC_UNUSED" using True by (simp add: victim_def)
    note slot = slot_set_status [OF Suc.prems(1) i this, of _ PROC_ZOMBIE]
      and inv = handler_frame_inv [OF zombie_handler [OF Suc.prems(1) i this] Suc.prems(1)]
    have "special_loop (Suc n) i s k = special_loop n (Suc i) s ?k"
      using nb True Suc.prems(3) by (auto simp: victim_def server_busy_def Let_def)
    moreover have "\<forall>c. Suc i \<le> c \<and> c < 16 \<longrightarrow> \<not> server_busy (proc_set ?k ! c)"
      using Suc.prems(4) slot by (simp add: proc_set_defs)
    moreover have "sched_inv ?k" using inv Suc.prems(1) by (simp add: sched_inv_def)
    ultimately obtain k' where "special_loop (Suc n) i s k = (Some s, k')" "spaces k' = spaces k" "ktty k' = ktty k"
      "\<forall>c<16. proc_set k' ! c = (if Suc i \<le> c \<and> c < Suc i + n \<and> victim (proc_set ?k ! c)
          then (proc_set ?k ! c)\<lparr>status := PROC_ZOMBIE\<rparr> else proc_set ?k ! c)"
      using Suc.IH [of ?k "Suc i"] Suc.prems(2,3) by auto
    then show ?thesis
      using slot True by (auto simp: proc_set_defs)
  qed
qed auto

lemma search_phase:
  assumes "i + n \<le> MAX_NPROCESS" "i \<le> v" "v < i + n" "victim (proc_set k ! v)"
    and "\<forall>c. i \<le> c \<and> c < v \<longrightarrow> \<not> victim (proc_set k ! c)"
    and "\<forall>c. i \<le> c \<and> c < MAX_NPROCESS \<longrightarrow> \<not> server_busy (proc_set k ! c)"
  shows "special_loop n i 0 k = special_loop (i + n - Suc v) (Suc v) 1 (send_killall v k)"
  using assms
proof (induction n arbitrary: i)
  case (Suc n)
  have nb: "\<not> server_busy (proc_set k ! i)" using Suc.prems(1,6) by simp
  show ?case
  proof (cases "i = v")
    case True
    then show ?thesis using nb Suc.prems(4) by (auto simp: victim_def server_busy_def Let_def)
  next
    case False
    then have "\<not> victim (proc_set k ! i)" using Suc.prems(2,5) by simp
    then have "special_loop (Suc n) i 0 k = special_loop n (Suc i) 0 k"
      using nb by (auto simp: victim_def server_busy_def Let_def)
    with Suc.IH [of "Suc i"] Suc.prems False show ?thesis by auto
  qed
qed simp

lemma special_loop_kmsg: "kmsg (snd (special_loop n i s k)) = kmsg k"
  by (induction n arbitrary: i s k) (simp_all add: Let_def send_killall_def)

lemma send_killall_effect:
  assumes "sched_inv k" "v < MAX_NPROCESS" "victim (proc_set k ! v)" "c < MAX_NPROCESS"
  shows "proc_set (send_killall v k) ! c = (if c = v
      then (proc_set k ! v)\<lparr>status := PROC_REQUESTING, mepc := proc_idle_pc k\<rparr> else proc_set k ! c)"
    "us_sc (spaces (send_killall v k) (pid (proc_set k ! v))) = (us_sc (spaces k (pid (proc_set k ! v))))
      \<lparr>sc_type := SYS_SEND, sc_msg := (sc_msg (us_sc (spaces k (pid (proc_set k ! v)))))
        \<lparr>msg_content := [2, 0, 0, 0] @ map (stack_junk k) [0..<516]
          @ drop 520 (msg_content (sc_msg (us_sc (spaces k (pid (proc_set k ! v))))))\<rparr>\<rparr>"
    "ktty (send_killall v k) = ktty k" "kmsg (send_killall v k) = kmsg k"
proof -
  have "status (proc_set k ! v) \<noteq> PROC_UNUSED" using assms(3) by (simp add: victim_def)
  from slot_set_status [OF assms(1,2) this] assms(2,4) sched_inv_length [OF assms(1)]
  show "proc_set (send_killall v k) ! c = (if c = v
      then (proc_set k ! v)\<lparr>status := PROC_REQUESTING, mepc := proc_idle_pc k\<rparr> else proc_set k ! c)"
    by (simp add: send_killall_def Let_def proc_set_defs nth_list_update)
      (simp add: set_procs_def set_sc_def mmu_switch_def)
  show "us_sc (spaces (send_killall v k) (pid (proc_set k ! v))) = (us_sc (spaces k (pid (proc_set k ! v))))
      \<lparr>sc_type := SYS_SEND, sc_msg := (sc_msg (us_sc (spaces k (pid (proc_set k ! v)))))
        \<lparr>msg_content := [2, 0, 0, 0] @ map (stack_junk k) [0..<516]
          @ drop 520 (msg_content (sc_msg (us_sc (spaces k (pid (proc_set k ! v))))))\<rparr>\<rparr>"
    by (simp add: send_killall_def Let_def set_procs_def set_sc_def mmu_switch_def sc_def)
qed (simp_all add: send_killall_def Let_def)

lemma special_handle_effect:
  assumes "sched_inv k" "v < MAX_NPROCESS" "victim (proc_set k ! v)" "\<forall>c<v. \<not> victim (proc_set k ! c)"
    and "\<forall>c<MAX_NPROCESS. \<not> server_busy (proc_set k ! c)"
    and "tty_write_kernel [0x5E, 0x43, 0x0A] (ktty k) = Some (rc, t)"
  obtains k' where "special_handle k = Some k'" "spaces k' = spaces (send_killall v k)" "kmsg k' = kmsg k"
    "\<forall>c<MAX_NPROCESS. proc_set k' ! c =
       (if c = v then (proc_set k ! v)\<lparr>status := PROC_REQUESTING, mepc := proc_idle_pc k\<rparr>
        else if victim (proc_set k ! c) then (proc_set k ! c)\<lparr>status := PROC_ZOMBIE\<rparr> else proc_set k ! c)"
    "ktty k' = snd (snd (tty_read_tail t))"
proof -
  let ?k = "send_killall v k"
  have used: "status (proc_set k ! v) \<noteq> PROC_UNUSED" "killable (proc_set k ! v)"
    using assms(3) by (simp_all add: victim_def)
  note e = send_killall_effect [OF assms(1-3)]
  have inv: "sched_inv ?k"
    using handler_frame_inv [OF send_killall_handler(1) assms(1)] send_killall_handler(2) assms(1,2) used
    by (simp add: sched_inv_def)
  have nb: "\<forall>c. Suc v \<le> c \<and> c < 16 \<longrightarrow> \<not> server_busy (proc_set ?k ! c)"
    using assms(5) e(1) by simp
  obtain k1 where k1: "special_loop (16 - Suc v) (Suc v) 1 ?k = (Some 1, k1)" "spaces k1 = spaces ?k" "ktty k1 = ktty ?k"
     "\<forall>c<16. proc_set k1 ! c = (if Suc v \<le> c \<and> c < Suc v + (16 - Suc v) \<and> victim (proc_set ?k ! c)
          then (proc_set ?k ! c)\<lparr>status := PROC_ZOMBIE\<rparr> else proc_set ?k ! c)"
    using zombie_phase [OF inv, of "Suc v" "16 - Suc v" 1] nb assms(2) by auto
  have l: "special_loop MAX_NPROCESS 0 0 k = (Some 1, k1)"
    using search_phase [of 0 16 v k] assms(2-5) k1(1) by simp
  have "kmsg k1 = kmsg k" using special_loop_kmsg [of 16 0 0 k] l by simp
  moreover have "special_handle k = Some (k1\<lparr>ktty := snd (snd (tty_read_tail t))\<rparr>)"
    using l assms(6) k1(3) e(3) [OF assms(2)] by (simp add: special_handle_def)
  moreover have "proc_set k1 ! c = (if c = v then (proc_set k ! v)\<lparr>status := PROC_REQUESTING, mepc := proc_idle_pc k\<rparr>
      else if victim (proc_set k ! c) then (proc_set k ! c)\<lparr>status := PROC_ZOMBIE\<rparr> else proc_set k ! c)"
    if "c < 16" for c
    using that k1(4) e(1) [OF that] assms(2,4) by (cases c v rule: linorder_cases) auto
  ultimately show thesis using k1(2) by (intro that [of "k1\<lparr>ktty := snd (snd (tty_read_tail t))\<rparr>"]) simp_all
qed


text \<open>
  C34. The kill-all request is misaddressed: \<^verbatim>\<open>special_handle\<close> writes the request and its type
  but never the receiver, so when the victim's send is carried out the message goes to
  whichever process the victim addressed last (or to the pid its memory happened to hold),
  not to the process server.
\<close>

theorem ctrl_c_stale_receiver:
  assumes "sched_inv k" "v < MAX_NPROCESS" "victim (proc_set k ! v)" "\<forall>c<v. \<not> victim (proc_set k ! c)"
    and "\<forall>c<MAX_NPROCESS. \<not> server_busy (proc_set k ! c)"
    and "tty_write_kernel [0x5E, 0x43, 0x0A] (ktty k) = Some (rc, t)" "in_use (kmsg k) = 0"
  shows "\<exists>k'. special_handle k = Some k' \<and> km_receiver (kmsg (syscall_handle
       (mmu_switch (pid (proc_set k' ! v)) (k'\<lparr>proc_curr_idx := v\<rparr>))))
     = msg_receiver (sc_msg (us_sc (spaces k (pid (proc_set k ! v)))))"
proof -
  obtain k' where k': "special_handle k = Some k'" "spaces k' = spaces (send_killall v k)" "kmsg k' = kmsg k"
    "proc_set k' ! v = (proc_set k ! v)\<lparr>status := PROC_REQUESTING, mepc := proc_idle_pc k\<rparr>"
    using special_handle_effect [OF assms(1-6)] assms(2) by metis
  let ?m = "mmu_switch (pid (proc_set k' ! v)) (k'\<lparr>proc_curr_idx := v\<rparr>)"
  have p: "pid (proc_set k' ! v) = pid (proc_set k ! v)" using k'(4) by simp
  have "length (proc_set k') = 16"
    using special_handle_handler [OF assms(1) k'(1)] sched_inv_length [OF assms(1)] table_frameD(1)
    by (fastforce simp: handler_frame_def)
  then have "proc_curr_idx ?m < length (proc_set ?m)" "in_use (kmsg ?m) = 0"
    using assms(2,7) k'(3) by simp_all
  moreover have s: "sc ?m = us_sc (spaces (send_killall v k) (pid (proc_set k ! v)))"
    by (simp add: k'(2) p)
  moreover have "sc_type (sc ?m) = SYS_SEND" unfolding s send_killall_effect(2) [OF assms(1-3,2)] by simp
  ultimately have "km_receiver (kmsg (syscall_handle ?m)) = msg_receiver (sc_msg (sc ?m))"
    by (simp add: send_completes(2))
  also have "\<dots> = msg_receiver (sc_msg (us_sc (spaces k (pid (proc_set k ! v)))))"
    unfolding s send_killall_effect(2) [OF assms(1-3,2)] by simp
  finally show ?thesis using k'(1) by blast
qed

subsection \<open>A machine at the shell prompt with one background process\<close>

text \<open>The process server waits for a request; the application last wrote to the file server.\<close>

definition ctrl_c_kernel :: kernel where
  "ctrl_c_kernel = demo_kernel\<lparr>proc_set := demo_procs[0 := (demo_procs ! 0)\<lparr>status := PROC_REQUESTING\<rparr>],
     spaces := (\<lambda>p. \<lparr>us_sc = \<lparr>sc_type = 0, sc_msg = \<lparr>msg_sender = 0, msg_receiver = GPID_FILE,
       msg_content = replicate 1024 0\<rparr>, sc_retval = 0\<rparr>, us_mem = (\<lambda>a. 0)\<rparr>)\<rparr>"

lemma ctrl_c_nth:
  "c < 16 \<Longrightarrow> proc_set ctrl_c_kernel ! c =
    (if c = 0 then \<lparr>pid = 1, status = PROC_REQUESTING, killable = False, sp = 0, mepc = 0\<rparr>
     else if c = 1 then \<lparr>pid = 5, status = PROC_RUNNING, killable = True, sp = 0, mepc = 0\<rparr>
     else \<lparr>pid = 0, status = PROC_UNUSED, killable = False, sp = 0, mepc = 0\<rparr>)"
  by (simp add: ctrl_c_kernel_def nth_list_update demo_procs_nth)

lemma ctrl_c_machine:
  "sched_inv ctrl_c_kernel" "victim (proc_set ctrl_c_kernel ! 1)" "\<forall>c<1. \<not> victim (proc_set ctrl_c_kernel ! c)"
  "\<forall>c<MAX_NPROCESS. \<not> server_busy (proc_set ctrl_c_kernel ! c)" "in_use (kmsg ctrl_c_kernel) = 0"
  "\<exists>rc t. tty_write_kernel [0x5E, 0x43, 0x0A] (ktty ctrl_c_kernel) = Some (rc, t)"
proof -
  have k: "length (proc_set ctrl_c_kernel) = 16" "proc_curr_idx ctrl_c_kernel = 1" "proc_nprocs ctrl_c_kernel = 5"
    "ktty ctrl_c_kernel = sample_tty"
    by (simp_all add: ctrl_c_kernel_def demo_procs_nth) (simp_all add: demo_kernel_def)
  show u: "in_use (kmsg ctrl_c_kernel) = 0" by (simp add: ctrl_c_kernel_def demo_kernel_simps)
  have "ptable_inv 5 (proc_set ctrl_c_kernel)"
    by (auto simp: ptable_inv_def k(1) ctrl_c_nth split: if_splits)
  moreover have "killable_inv (proc_set ctrl_c_kernel)"
    by (simp add: killable_inv_def all_set_conv_all_nth k(1) ctrl_c_nth)
  ultimately show "sched_inv ctrl_c_kernel" by (simp add: sched_inv_def k kmsg_ok_def u)
  have "\<not> bit (txdata (tty_uart sample_tty) (i + Suc 2)) 31" for i
    by (simp add: sample_tty_simps) (simp add: sample_uart_def)
  then have "\<forall>i. \<exists>k. \<not> bit (txdata (tty_uart sample_tty) (i + k)) 31" by blast
  from tty_write_kernel_loop_ready [OF this] obtain u where
    "tty_write_kernel_loop [0x5E, 0x43, 0x0A] (tty_uart sample_tty) = Some u" by blast
  then show "\<exists>rc t. tty_write_kernel [0x5E, 0x43, 0x0A] (ktty ctrl_c_kernel) = Some (rc, t)"
    by (simp only: tty_write_kernel_def k(4)) simp
qed (simp_all add: ctrl_c_nth victim_def server_busy_def)


theorem ctrl_c_stale_receiver_witness:
  "\<exists>k'. special_handle ctrl_c_kernel = Some k' \<and> km_receiver (kmsg (syscall_handle
     (mmu_switch (pid (proc_set k' ! 1)) (k'\<lparr>proc_curr_idx := 1\<rparr>)))) = GPID_FILE"
proof -
  obtain rc t where t: "tty_write_kernel [0x5E, 0x43, 0x0A] (ktty ctrl_c_kernel) = Some (rc, t)"
    using ctrl_c_machine(6) by blast
  have "msg_receiver (sc_msg (us_sc (spaces ctrl_c_kernel (pid (proc_set ctrl_c_kernel ! 1))))) = GPID_FILE"
    by (simp add: ctrl_c_kernel_def)
  with ctrl_c_stale_receiver [OF ctrl_c_machine(1) _ ctrl_c_machine(2-4) t ctrl_c_machine(5)]
  show ?thesis by auto
qed

end
