(* ===== verification/Treedisk.thy ===== *)
theory Treedisk
  imports Prelude
begin

section \<open>The tree file system\<close>

text \<open>
  \<^verbatim>\<open>library/file/file.c\<close> with the layout of \<^verbatim>\<open>library/file/file.h\<close>, on top of any inode
  store. An \<^verbatim>\<open>inode_store_t\<close> is a record of functions on a store state of type \<open>'d\<close>. Every
  operation returns its result code and the new state; \<open>None\<close> is a call that never returns
  (a \<^verbatim>\<open>panic\<close>, or a device that is polled for ever). A read gets what the caller's buffer held
  before and returns what it holds afterwards. Blocks are lists of 512 bytes, block numbers
  natural numbers with the wrap of \<^verbatim>\<open>unsigned int\<close> written out. The structures of \<^verbatim>\<open>file.h\<close>
  overlay a block with 32-bit words: word 0 of the superblock is \<^verbatim>\<open>n_inodeblocks\<close> and word 1
  \<^verbatim>\<open>free_list\<close>, words \<open>2i\<close> and \<open>2i+1\<close> of an inode block are \<^verbatim>\<open>root\<close> and \<^verbatim>\<open>nblocks\<close> of inode \<open>i\<close>,
  and the words of indirect and free-list blocks are their references. Buffers on the stack
  start out as \<open>null_block\<close>; they are read only after a successful read has filled them, with
  one exception: \<^verbatim>\<open>treedisk_alloc_block\<close> does not look at the result of its read.
\<close>

type_synonym block = "byte list"

abbreviation (input) REFS_PER_BLOCK :: nat where "REFS_PER_BLOCK \<equiv> 128"
abbreviation (input) INODES_PER_BLOCK :: nat where "INODES_PER_BLOCK \<equiv> 64"
abbreviation (input) NINODES :: nat where "NINODES \<equiv> 128"
abbreviation (input) UINT :: nat where "UINT \<equiv> 4294967296"

record 'd inode_store =
  st_getsize :: "nat \<Rightarrow> 'd \<Rightarrow> (int \<times> 'd) option"
  st_setsize :: "nat \<Rightarrow> nat \<Rightarrow> 'd \<Rightarrow> (int \<times> 'd) option"
  st_read :: "nat \<Rightarrow> nat \<Rightarrow> block \<Rightarrow> 'd \<Rightarrow> (int \<times> block \<times> 'd) option"
  st_write :: "nat \<Rightarrow> nat \<Rightarrow> block \<Rightarrow> 'd \<Rightarrow> (int \<times> 'd) option"

record 'd treedisk_state =
  ts_below :: "'d inode_store"
  ts_below_ino :: nat
  ts_ninodes :: nat

record treedisk_snapshot =
  superblock :: block
  inodeblock :: block
  inode_blockno :: nat
  inode :: nat

definition null_block :: block where "null_block = replicate BLOCK_SIZE 0"

text \<open>The words of the overlays; \<open>snapshot->inode\<close> is the index of the inode in its block.\<close>

definition n_inodeblocks :: "block \<Rightarrow> nat" where "n_inodeblocks b = get32 b 0"
definition free_list :: "block \<Rightarrow> nat" where "free_list b = get32 b 1"
definition inode_root :: "treedisk_snapshot \<Rightarrow> nat" where
  "inode_root s = get32 (inodeblock s) (2 * inode s)"
definition inode_nblocks :: "treedisk_snapshot \<Rightarrow> nat" where
  "inode_nblocks s = get32 (inodeblock s) (2 * inode s + 1)"
definition set_inode_root :: "nat \<Rightarrow> treedisk_snapshot \<Rightarrow> treedisk_snapshot" where
  "set_inode_root v s = s\<lparr>inodeblock := put32 (inodeblock s) (2 * inode s) v\<rparr>"
definition set_inode_nblocks :: "nat \<Rightarrow> treedisk_snapshot \<Rightarrow> treedisk_snapshot" where
  "set_inode_nblocks v s = s\<lparr>inodeblock := put32 (inodeblock s) (2 * inode s + 1) v\<rparr>"

definition log_shift_r :: "nat \<Rightarrow> nat \<Rightarrow> nat" where
  "log_shift_r x nbits = (if nbits \<ge> 32 then 0 else drop_bit nbits x)"

text \<open>The static \<^verbatim>\<open>log_rpb\<close>, as the loop of \<^verbatim>\<open>treedisk_init\<close> computes it.\<close>

function log_rpb_loop :: "nat \<Rightarrow> nat" where
  "log_rpb_loop l = (let l = l + 1 in
     if drop_bit l (REFS_PER_BLOCK - 1) \<noteq> 0 then log_rpb_loop l else l)"
  by auto
termination
proof (relation "measure (\<lambda>l. 7 - l)")
  fix l x :: nat
  assume x: "x = l + 1" "drop_bit x (REFS_PER_BLOCK - 1) \<noteq> (0::nat)"
  have "x < 7"
  proof (rule ccontr)
    assume "\<not> x < 7"
    then have "(127::nat) < 2 ^ x"
      using power_increasing [of 7 x "2::nat"] by simp
    with x(2) show False by (simp add: drop_bit_eq_div)
  qed
  with x(1) show "(x, l) \<in> measure (\<lambda>l. 7 - l)" by simp
qed simp

definition log_rpb :: nat where "log_rpb = log_rpb_loop 0"

lemma log_rpb [simp]: "log_rpb = 7"
  by (simp add: log_rpb_def log_rpb_loop.simps drop_bit_eq_div)

text \<open>\<^verbatim>\<open>while (log_shift_r(x, nlevels * log_rpb) != 0) nlevels++\<close>.\<close>

function nlevels_loop :: "nat \<Rightarrow> nat \<Rightarrow> nat" where
  "nlevels_loop x nlevels =
    (if log_shift_r x (nlevels * log_rpb) \<noteq> 0 then nlevels_loop x (nlevels + 1) else nlevels)"
  by auto
termination
  by (relation "measure (\<lambda>(x, n). 5 - n)") (auto simp: log_shift_r_def split: if_splits)

subsection \<open>Operations\<close>

definition treedisk_get_snapshot ::
  "'d treedisk_state \<Rightarrow> nat \<Rightarrow> 'd \<Rightarrow> (treedisk_snapshot option \<times> 'd) option" where
  "treedisk_get_snapshot ts inode_no d =
    do { (rc, sb, d) \<leftarrow> st_read (ts_below ts) (ts_below_ino ts) 0 null_block d;
         if rc < 0 then Some (None, d)
         else if inode_no \<ge> n_inodeblocks sb * INODES_PER_BLOCK mod UINT then Some (None, d)
         else do { let bno = 1 + inode_no div INODES_PER_BLOCK;
                   (rc, ib, d) \<leftarrow> st_read (ts_below ts) (ts_below_ino ts) bno null_block d;
                   if rc < 0 then Some (None, d)
                   else Some (Some \<lparr>superblock = sb, inodeblock = ib, inode_blockno = bno,
                                    inode = inode_no mod INODES_PER_BLOCK\<rparr>, d) } }"

fun alloc_scan :: "block \<Rightarrow> nat \<Rightarrow> nat" where
  "alloc_scan b 0 = 0"
| "alloc_scan b (Suc i) = (if get32 b (Suc i) \<noteq> 0 then Suc i else alloc_scan b i)"

definition treedisk_alloc_block ::
  "'d treedisk_state \<Rightarrow> treedisk_snapshot \<Rightarrow> 'd \<Rightarrow> (nat \<times> treedisk_snapshot \<times> 'd) option" where
  "treedisk_alloc_block ts snapshot d =
    (let b = free_list (superblock snapshot) in
     if b = 0 then None
     else do { (_, freelistblock, d) \<leftarrow> st_read (ts_below ts) (ts_below_ino ts) b null_block d;
               let i = alloc_scan freelistblock (REFS_PER_BLOCK - 1);
               if i = 0 then
                 do { let snapshot = snapshot\<lparr>superblock := put32 (superblock snapshot) 1 (get32 freelistblock 0)\<rparr>;
                      (rc, d) \<leftarrow> st_write (ts_below ts) (ts_below_ino ts) 0 (superblock snapshot) d;
                      if rc < 0 then None else Some (b, snapshot, d) }
               else
                 do { let free_blockno = get32 freelistblock i;
                      (rc, d) \<leftarrow> st_write (ts_below ts) (ts_below_ino ts) b (put32 freelistblock i 0) d;
                      if rc < 0 then None else Some (free_blockno, snapshot, d) } })"

definition treedisk_getsize :: "'d treedisk_state \<Rightarrow> nat \<Rightarrow> 'd \<Rightarrow> (int \<times> 'd) option" where
  "treedisk_getsize ts ino d =
    do { (snapshot, d) \<leftarrow> treedisk_get_snapshot ts ino d;
         Some (case snapshot of None \<Rightarrow> - 1 | Some s \<Rightarrow> int_of_u32 (inode_nblocks s), d) }"

definition treedisk_setsize :: "'d treedisk_state \<Rightarrow> nat \<Rightarrow> nat \<Rightarrow> 'd \<Rightarrow> (int \<times> 'd) option" where
  "treedisk_setsize ts ino nblocks d = Some (- 1, d)"

text \<open>The walk of \<^verbatim>\<open>treedisk_read\<close>: every node is read into the caller's block.\<close>

fun read_walk :: "'d treedisk_state \<Rightarrow> nat \<Rightarrow> nat \<Rightarrow> nat \<Rightarrow> block \<Rightarrow> 'd \<Rightarrow> (int \<times> block \<times> 'd) option" where
  "read_walk ts offset nlevels b block d =
    (if b = 0 then Some (0, null_block, d)
     else do { (result, block, d) \<leftarrow> st_read (ts_below ts) (ts_below_ino ts) b block d;
               if result < 0 then Some (result, block, d)
               else case nlevels of
                 0 \<Rightarrow> Some (0, block, d)
               | Suc nlevels \<Rightarrow>
                   let index = log_shift_r offset (nlevels * log_rpb) mod REFS_PER_BLOCK
                   in read_walk ts offset nlevels (get32 block index) block d })"

definition tree_levels :: "nat \<Rightarrow> nat" where
  "tree_levels nblocks = (if nblocks > 0 then nlevels_loop (nblocks - 1) 0 else 0)"

text \<open>An error return leaves the caller's block alone.\<close>

definition treedisk_read :: "'d treedisk_state \<Rightarrow> nat \<Rightarrow> nat \<Rightarrow> block \<Rightarrow> 'd \<Rightarrow> (int \<times> block \<times> 'd) option" where
  "treedisk_read ts ino offset block d =
    do { (snapshot, d) \<leftarrow> treedisk_get_snapshot ts ino d;
         case snapshot of
           None \<Rightarrow> Some (- 1, block, d)
         | Some snapshot \<Rightarrow>
             if offset \<ge> inode_nblocks snapshot then Some (- 1, block, d)
             else read_walk ts offset (tree_levels (inode_nblocks snapshot)) (inode_root snapshot) block d }"

text \<open>The loop that inserts indirect blocks above the root, \<open>n\<close> times.\<close>

fun write_grow :: "'d treedisk_state \<Rightarrow> nat \<Rightarrow> treedisk_snapshot \<Rightarrow> 'd \<Rightarrow> (treedisk_snapshot \<times> 'd) option" where
  "write_grow ts 0 snapshot d = Some (snapshot, d)"
| "write_grow ts (Suc n) snapshot d =
    do { (indir, snapshot, d) \<leftarrow> treedisk_alloc_block ts snapshot d;
         let tib = put32 null_block 0 (inode_root snapshot);
         let snapshot = set_inode_root indir snapshot;
         (rc, d) \<leftarrow> st_write (ts_below ts) (ts_below_ino ts) indir tib d;
         if rc < 0 then None else write_grow ts n snapshot d }"

text \<open>
  The descent of \<^verbatim>\<open>treedisk_write\<close>. The pointer \<^verbatim>\<open>parent_no\<close> is word \<open>pidx\<close> of
  \<^verbatim>\<open>parent_block\<close>; the inode's root is a word of the inode block. One round gets or
  allocates the next block and its contents as an indirect block; the result of the loop is
  the number of the data block.
\<close>

definition write_step :: "'d treedisk_state \<Rightarrow> nat \<Rightarrow> nat \<Rightarrow> block \<Rightarrow> nat \<Rightarrow> treedisk_snapshot \<Rightarrow> 'd
    \<Rightarrow> (nat \<times> block \<times> treedisk_snapshot \<times> 'd) option" where
  "write_step ts nlevels parent_off parent_block pidx snapshot d =
    (let b = get32 parent_block pidx in
     if b = 0 then
       do { (b, snapshot, d) \<leftarrow> treedisk_alloc_block ts snapshot d;
            (rc, d) \<leftarrow> st_write (ts_below ts) (ts_below_ino ts) parent_off (put32 parent_block pidx b) d;
            if rc < 0 then None else Some (b, null_block, snapshot, d) }
     else if nlevels = 0 then Some (b, null_block, snapshot, d)
     else do { (rc, tib, d) \<leftarrow> st_read (ts_below ts) (ts_below_ino ts) b null_block d;
               if rc < 0 then None else Some (b, tib, snapshot, d) })"

fun write_walk :: "'d treedisk_state \<Rightarrow> nat \<Rightarrow> nat \<Rightarrow> nat \<Rightarrow> block \<Rightarrow> nat \<Rightarrow> treedisk_snapshot \<Rightarrow> 'd
    \<Rightarrow> (nat \<times> 'd) option" where
  "write_walk ts offset 0 parent_off parent_block pidx snapshot d =
    do { (b, _, _, d) \<leftarrow> write_step ts 0 parent_off parent_block pidx snapshot d;
         Some (b, d) }"
| "write_walk ts offset (Suc nlevels) parent_off parent_block pidx snapshot d =
    do { (b, tib, snapshot, d) \<leftarrow> write_step ts (Suc nlevels) parent_off parent_block pidx snapshot d;
         let index = log_shift_r offset (nlevels * log_rpb) mod REFS_PER_BLOCK;
         write_walk ts offset nlevels b tib index snapshot d }"

text \<open>From the growing of the tree on; \<open>dirty\<close> tells whether the size has changed.\<close>

definition write_commit :: "'d treedisk_state \<Rightarrow> nat \<Rightarrow> nat \<Rightarrow> nat \<Rightarrow> bool \<Rightarrow> block \<Rightarrow> treedisk_snapshot \<Rightarrow> 'd
    \<Rightarrow> (int \<times> 'd) option" where
  "write_commit ts offset n nlevels dirty block snapshot d =
    do { (snapshot, d) \<leftarrow> write_grow ts n snapshot d;
         (rc, d) \<leftarrow> (if dirty \<or> n > 0
           then st_write (ts_below ts) (ts_below_ino ts) (inode_blockno snapshot) (inodeblock snapshot) d
           else Some (0, d));
         if rc < 0 then None
         else do { (b, d) \<leftarrow> write_walk ts offset nlevels (inode_blockno snapshot) (inodeblock snapshot)
                               (2 * inode snapshot) snapshot d;
                   (rc, d) \<leftarrow> st_write (ts_below ts) (ts_below_ino ts) b block d;
                   if rc < 0 then None else Some (0, d) } }"

definition treedisk_write :: "'d treedisk_state \<Rightarrow> nat \<Rightarrow> nat \<Rightarrow> block \<Rightarrow> 'd \<Rightarrow> (int \<times> 'd) option" where
  "treedisk_write ts ino offset block d =
    do { (snapshot, d) \<leftarrow> treedisk_get_snapshot ts ino d;
         case snapshot of
           None \<Rightarrow> Some (- 1, d)
         | Some snapshot \<Rightarrow>
             let nlevels = tree_levels (inode_nblocks snapshot);
                 grows = (offset \<ge> inode_nblocks snapshot);
                 snapshot = (if grows then set_inode_nblocks ((offset + 1) mod UINT) snapshot else snapshot);
                 nlevels_after = (if grows then nlevels_loop offset 0 else nlevels);
                 n = (if inode_nblocks snapshot = 0 then 0 else nlevels_after - nlevels);
                 nlevels = (if inode_nblocks snapshot = 0 then nlevels_after else max nlevels nlevels_after)
             in write_commit ts offset n nlevels grows block snapshot d }"

text \<open>The store that \<^verbatim>\<open>treedisk_init\<close> returns; its \<^verbatim>\<open>state\<close> is the \<^verbatim>\<open>treedisk_state\<close>.\<close>

definition treedisk_new :: "'d inode_store \<Rightarrow> nat \<Rightarrow> 'd treedisk_state" where
  "treedisk_new below below_ino = \<lparr>ts_below = below, ts_below_ino = below_ino, ts_ninodes = 0\<rparr>"

definition treedisk_init :: "'d inode_store \<Rightarrow> nat \<Rightarrow> 'd inode_store" where
  "treedisk_init below below_ino = (let ts = treedisk_new below below_ino in
     \<lparr>st_getsize = treedisk_getsize ts, st_setsize = treedisk_setsize ts,
      st_read = treedisk_read ts, st_write = treedisk_write ts\<rparr>)"

subsection \<open>Creating a file system\<close>

text \<open>A block of 128 references.\<close>

definition refs_block :: "nat list \<Rightarrow> block" where
  "refs_block rs = concat (map (\<lambda>v. [of_nat v, of_nat (v div 256), of_nat (v div 65536), of_nat (v div 16777216)]) rs)"

function setup_freelist_loop :: "'d inode_store \<Rightarrow> nat \<Rightarrow> nat \<Rightarrow> nat \<Rightarrow> nat \<Rightarrow> 'd \<Rightarrow> (nat \<times> 'd) option" where
  "setup_freelist_loop s ino freelist_block next_free nblocks d =
    (if next_free < nblocks then
       let fb = next_free;
           last = min nblocks (next_free + REFS_PER_BLOCK);
           freelist_data = freelist_block # [next_free + 1..<last] @ replicate (REFS_PER_BLOCK - (last - next_free)) 0
       in do { (rc, d) \<leftarrow> st_write s ino fb (refs_block freelist_data) d;
               if rc < 0 then None else setup_freelist_loop s ino fb last nblocks d }
     else Some (freelist_block, d))"
  by auto
termination
  by (relation "measure (\<lambda>(s, ino, fb, nf, nb, d). nb - nf)") auto

definition setup_freelist :: "'d inode_store \<Rightarrow> nat \<Rightarrow> nat \<Rightarrow> nat \<Rightarrow> 'd \<Rightarrow> (nat \<times> 'd) option" where
  "setup_freelist s ino next_free nblocks d = setup_freelist_loop s ino 0 next_free nblocks d"

fun clear_inodes :: "'d inode_store \<Rightarrow> nat \<Rightarrow> nat \<Rightarrow> nat \<Rightarrow> 'd \<Rightarrow> (int \<times> 'd) option" where
  "clear_inodes s ino i 0 d = Some (0, d)"
| "clear_inodes s ino i (Suc n) d =
    do { (rc, d) \<leftarrow> st_write s ino i null_block d;
         if rc < 0 then Some (- 1, d) else clear_inodes s ino (i + 1) n d }"

definition treedisk_create :: "'d inode_store \<Rightarrow> nat \<Rightarrow> nat \<Rightarrow> 'd \<Rightarrow> (int \<times> 'd) option" where
  "treedisk_create s ino ninodes d =
    do { let nib = (ninodes + INODES_PER_BLOCK - 1) mod UINT div INODES_PER_BLOCK;
         (size, d) \<leftarrow> st_getsize s ino d;
         let nblocks = u32_of_int size;
         if nblocks < (nib + 2) mod UINT then Some (- 1, d)
         else do { (rc, sb, d) \<leftarrow> st_read s ino 0 null_block d;
                   if rc < 0 then Some (- 1, d)
                   else if n_inodeblocks sb = 0 then
                     do { (fl, d) \<leftarrow> setup_freelist s ino (nib + 1) nblocks d;
                          (rc, d) \<leftarrow> st_write s ino 0 (put32 (put32 null_block 0 nib) 1 fl) d;
                          if rc < 0 then Some (- 1, d) else clear_inodes s ino 1 nib d }
                   else Some (0, d) } }"

declare log_rpb_loop.simps [simp del] nlevels_loop.simps [simp del] read_walk.simps [simp del]
  setup_freelist_loop.simps [simp del]

end
