(* ===== verification/Treedisk_Tree.thy ===== *)
theory Treedisk_Tree
  imports Treedisk
begin

section \<open>Trees and free lists in an array of blocks\<close>

text \<open>
  The layout of \<^verbatim>\<open>file.h\<close> as facts about an array of blocks \<open>B\<close>: the node of an inode's tree
  at a depth and an index, the free list as the list of blocks in the order in which
  \<^verbatim>\<open>treedisk_alloc_block\<close> hands them out, and the invariant that no block is used twice.
\<close>

type_synonym blocks = "nat \<Rightarrow> block"

definition root_of :: "blocks \<Rightarrow> nat \<Rightarrow> nat" where
  "root_of B i = get32 (B (1 + i div INODES_PER_BLOCK)) (2 * (i mod INODES_PER_BLOCK))"

definition size_of :: "blocks \<Rightarrow> nat \<Rightarrow> nat" where
  "size_of B i = get32 (B (1 + i div INODES_PER_BLOCK)) (2 * (i mod INODES_PER_BLOCK) + 1)"

subsection \<open>Nodes\<close>

text \<open>\<open>node B r k p\<close>: the block at depth \<open>k\<close> below root \<open>r\<close> with index \<open>p\<close>, 0 for a hole.\<close>

fun node :: "blocks \<Rightarrow> nat \<Rightarrow> nat \<Rightarrow> nat \<Rightarrow> nat" where
  "node B r 0 p = (if p = 0 then r else 0)"
| "node B r (Suc k) p = (let b = node B r k (p div REFS_PER_BLOCK) in
     if b = 0 then 0 else get32 (B b) (p mod REFS_PER_BLOCK))"

abbreviation (input) nd :: "blocks \<Rightarrow> nat \<Rightarrow> nat \<Rightarrow> nat \<Rightarrow> nat" where
  "nd B i \<equiv> node B (root_of B i)"

lemma node_outside: "128 ^ k \<le> p \<Longrightarrow> node B r k p = 0"
proof (induction k arbitrary: p)
  case (Suc k)
  then have "128 ^ k \<le> p div 128" by (simp add: less_eq_div_iff_mult_less_eq mult.commute)
  from Suc.IH [OF this] show ?case by simp
qed simp

lemma node_below_hole:
  assumes "node B r k (p div 128 ^ j) = 0"
  shows "node B r (k + j) p = 0"
  using assms
proof (induction j arbitrary: p)
  case (Suc j)
  then have "node B r k (p div 128 div 128 ^ j) = 0" by (simp add: div_mult2_eq)
  from Suc.IH [OF this] show ?case by simp
qed simp

lemma node_cong:
  assumes "\<forall>l<k. \<forall>q. node B r l q \<noteq> 0 \<longrightarrow> B' (node B r l q) = B (node B r l q)"
  shows "node B' r k p = node B r k p"
  using assms
proof (induction k arbitrary: p)
  case (Suc k)
  then have "node B' r k (p div 128) = node B r k (p div 128)" by simp
  with Suc.prems show ?case by (simp add: Let_def)
qed simp

text \<open>A new root above the old one shifts every node one level down.\<close>

lemma node_new_root:
  assumes "x \<noteq> 0" "B x = put32 null_block 0 r" "r < UINT"
  shows "node B x (Suc k) p = node B r k p"
proof (induction k arbitrary: p)
  case 0
  have "get32 (put32 null_block 0 r) (p mod 128) = (if p mod 128 = 0 then r else 0)"
    using assms(3) get32_put32_same [of 0 null_block r] get32_put32_other [of 0 "p mod 128" null_block r]
      get32_replicate0 [of "p mod 128" 512]
    by (cases "p mod 128 = 0") (auto simp: null_block_def)
  with assms(1,2) show ?case by (auto simp: Let_def)
next
  case (Suc k)
  show ?case using Suc.IH [of "p div 128"] by (simp only: node.simps Let_def)
qed

subsection \<open>The free list\<close>

definition free_refs :: "block \<Rightarrow> nat list" where
  "free_refs b = rev (filter (\<lambda>x. x \<noteq> 0) (map (get32 b) [1..<REFS_PER_BLOCK]))"

inductive freelist :: "blocks \<Rightarrow> nat \<Rightarrow> nat list \<Rightarrow> bool" for B where
  nil: "freelist B 0 []"
| link: "b \<noteq> 0 \<Longrightarrow> freelist B (get32 (B b) 0) fs \<Longrightarrow> freelist B b (free_refs (B b) @ b # fs)"

inductive_cases freelistE: "freelist B b fs"
inductive_simps freelist_0 [simp]: "freelist B 0 fs"

lemma freelist_frame:
  assumes "freelist B b fs" "\<forall>x\<in>set fs. B' x = B x"
  shows "freelist B' b fs"
  using assms
proof induction
  case (link b fs)
  then have "B' b = B b" "freelist B' (get32 (B b) 0) fs" by auto
  with freelist.link [of b B' fs] link(1) show ?case by simp
qed (rule freelist.nil)

lemma alloc_scan_spec:
  "alloc_scan b n \<le> n \<and> (\<forall>j. alloc_scan b n < j \<and> j \<le> n \<longrightarrow> get32 b j = 0)
     \<and> (alloc_scan b n \<noteq> 0 \<longrightarrow> get32 b (alloc_scan b n) \<noteq> 0)"
  by (induction n) (auto simp: le_Suc_eq)

lemma free_refs_scan:
  assumes "i = alloc_scan b 127"
  shows "free_refs b = (if i = 0 then [] else get32 b i # rev (filter (\<lambda>x. x \<noteq> 0) (map (get32 b) [1..<i])))"
proof -
  have i: "i \<le> 127" "\<forall>j. i < j \<and> j \<le> 127 \<longrightarrow> get32 b j = 0" "i \<noteq> 0 \<Longrightarrow> get32 b i \<noteq> 0"
    using alloc_scan_spec [of b 127] assms by auto
  have z: "filter (\<lambda>x. x \<noteq> 0) (map (get32 b) [Suc i..<128]) = []"
    using i(2) by (auto simp: filter_empty_conv)
  show ?thesis
  proof (cases "i = 0")
    case True
    with z show ?thesis by (simp add: free_refs_def)
  next
    case False
    have "[1..<128] = [1..<i] @ i # [Suc i..<128]"
      using upt_add_eq_append [of 1 i "128 - i"] upt_conv_Cons [of i 128] False i(1) by simp
    with z i(3) False show ?thesis by (simp add: free_refs_def)
  qed
qed

text \<open>Taking the first block of the list, as \<^verbatim>\<open>treedisk_alloc_block\<close> does.\<close>

lemma freelist_pop_self:
  assumes "freelist B fl (x # xs)" "alloc_scan (B fl) 127 = 0"
  shows "x = fl" "freelist B (get32 (B fl) 0) xs" "fl \<noteq> 0"
proof -
  have "free_refs (B fl) = []" using free_refs_scan [OF refl, of "B fl"] assms(2) by simp
  with assms(1) show "x = fl" "freelist B (get32 (B fl) 0) xs" "fl \<noteq> 0"
    by (auto intro: freelistE [OF assms(1)])
qed

lemma freelist_pop_ref:
  assumes "freelist B fl (x # xs)" "distinct (x # xs)" "i = alloc_scan (B fl) 127" "i \<noteq> 0" "length (B fl) = 512"
  shows "x = get32 (B fl) i" "freelist (B(fl := put32 (B fl) i 0)) fl xs" "fl \<in> set xs" "fl \<noteq> 0"
proof -
  have i: "i \<le> 127" using alloc_scan_spec [of "B fl" 127] assms(3) by simp
  let ?l = "rev (filter (\<lambda>x. x \<noteq> 0) (map (get32 (B fl)) [1..<i]))"
  obtain fs where fs: "fl \<noteq> 0" "freelist B (get32 (B fl) 0) fs" "x = get32 (B fl) i" "xs = ?l @ fl # fs"
    using assms(1)
  proof (cases rule: freelist.cases)
    case (link fs)
    then show thesis using free_refs_scan [OF assms(3)] assms(4) that by simp
  qed
  show "x = get32 (B fl) i" "fl \<in> set xs" "fl \<noteq> 0" using fs by auto
  let ?B = "B(fl := put32 (B fl) i 0)"
  have get: "get32 (?B fl) j = (if j = i then 0 else get32 (B fl) j)" for j
    using i assms(5) by (simp add: get32_put32_same get32_put32_other)
  have "[1..<128] = [1..<i] @ i # [Suc i..<128]"
    using upt_add_eq_append [of 1 i "128 - i"] upt_conv_Cons [of i 128] assms(4) i by simp
  moreover have "filter (\<lambda>x. x \<noteq> 0) (map (get32 (?B fl)) [Suc i..<128]) = []"
    using alloc_scan_spec [of "B fl" 127] assms(3) unfolding get by (auto simp: filter_empty_conv)
  moreover have "map (get32 (?B fl)) [1..<i] = map (get32 (B fl)) [1..<i]"
    by (rule map_cong) (auto simp: get32_put32_other)
  ultimately have "free_refs (?B fl) = ?l"
    unfolding free_refs_def using get [of i] by (simp del: map_eq_conv)
  moreover have "freelist ?B (get32 (?B fl) 0) fs"
    unfolding get using assms(2,4) fs(2,4) by (auto intro!: freelist_frame [OF fs(2)])
  ultimately show "freelist ?B fl xs"
    using freelist.link [OF fs(1), of ?B fs] fs(4) by simp
qed

subsection \<open>The invariant\<close>

text \<open>
  \<open>ni\<close> inode blocks and \<open>N\<close> blocks in all; \<open>lev i\<close> is the height of the tree of inode \<open>i\<close>, and
  \<open>free\<close> the free list. Every node and every free block lies in the data area, no block is
  free and in a tree, and no block is at two places of the trees.
\<close>

definition tree_inv :: "blocks \<Rightarrow> nat \<Rightarrow> nat \<Rightarrow> (nat \<Rightarrow> nat) \<Rightarrow> nat list \<Rightarrow> bool" where
  "tree_inv B ni N lev free \<longleftrightarrow> N < UINT \<and> (\<forall>b<N. length (B b) = BLOCK_SIZE) \<and> ni < N
     \<and> n_inodeblocks (B 0) = ni \<and> freelist B (free_list (B 0)) free \<and> distinct free
     \<and> (\<forall>b\<in>set free. ni < b \<and> b < N)
     \<and> (\<forall>i<INODES_PER_BLOCK * ni. \<forall>k\<le>lev i. \<forall>p. nd B i k p \<noteq> 0 \<longrightarrow>
          ni < nd B i k p \<and> nd B i k p < N \<and> nd B i k p \<notin> set free)
     \<and> (\<forall>i<INODES_PER_BLOCK * ni. \<forall>j<INODES_PER_BLOCK * ni. \<forall>k\<le>lev i. \<forall>l\<le>lev j. \<forall>p q.
          nd B i k p \<noteq> 0 \<and> nd B i k p = nd B j l q \<longrightarrow> i = j \<and> k = l \<and> p = q)"

definition content :: "blocks \<Rightarrow> (nat \<Rightarrow> nat) \<Rightarrow> nat \<Rightarrow> nat \<Rightarrow> block" where
  "content B lev i p = (let b = nd B i (lev i) p in if b = 0 then null_block else B b)"

lemma tree_invD:
  assumes "tree_inv B ni N lev free"
  shows "N < UINT" "b < N \<Longrightarrow> length (B b) = BLOCK_SIZE" "ni < N" "n_inodeblocks (B 0) = ni"
    "freelist B (free_list (B 0)) free" "distinct free"
    "b \<in> set free \<Longrightarrow> ni < b" "b \<in> set free \<Longrightarrow> b < N"
    "i < 64 * ni \<Longrightarrow> k \<le> lev i \<Longrightarrow> nd B i k p \<noteq> 0 \<Longrightarrow> ni < nd B i k p"
    "i < 64 * ni \<Longrightarrow> k \<le> lev i \<Longrightarrow> nd B i k p \<noteq> 0 \<Longrightarrow> nd B i k p < N"
    "i < 64 * ni \<Longrightarrow> k \<le> lev i \<Longrightarrow> nd B i k p \<noteq> 0 \<Longrightarrow> nd B i k p \<notin> set free"
    "i < 64 * ni \<Longrightarrow> j < 64 * ni \<Longrightarrow> k \<le> lev i \<Longrightarrow> l \<le> lev j \<Longrightarrow> nd B i k p \<noteq> 0
      \<Longrightarrow> nd B i k p = nd B j l q \<Longrightarrow> i = j \<and> k = l \<and> p = q"
  using assms unfolding tree_inv_def by blast+

text \<open>Changes that keep the inodes and all inner nodes keep every node.\<close>

lemma tree_inv_frame:
  assumes inv: "tree_inv B ni N lev free"
    and len: "\<forall>b<N. length (B' b) = BLOCK_SIZE" and sb: "n_inodeblocks (B' 0) = ni"
    and fl: "freelist B' (free_list (B' 0)) free'" "distinct free'" "set free' \<subseteq> set free"
    and r: "\<forall>i<64 * ni. root_of B' i = root_of B i"
    and inner: "\<forall>i<64 * ni. \<forall>k<lev i. \<forall>p. nd B i k p \<noteq> 0 \<longrightarrow> B' (nd B i k p) = B (nd B i k p)"
  shows "\<forall>i<64 * ni. \<forall>k\<le>lev i. \<forall>p. nd B' i k p = nd B i k p"
    "tree_inv B' ni N lev free'"
proof -
  have n: "nd B' i k p = nd B i k p" if "i < 64 * ni" "k \<le> lev i" for i k p
    using r inner that by (auto intro!: node_cong)
  then show "\<forall>i<64 * ni. \<forall>k\<le>lev i. \<forall>p. nd B' i k p = nd B i k p" by blast
  note D = tree_invD [OF inv]
  have range: "ni < nd B' i k p \<and> nd B' i k p < N \<and> nd B' i k p \<notin> set free'"
    if "i < 64 * ni" "k \<le> lev i" "nd B' i k p \<noteq> 0" for i k p
    using D(9-11) [OF that(1,2), of p] that(3) n [OF that(1,2), of p] fl(3) by auto
  have inj: "i = j \<and> k = l \<and> p = q"
    if "i < 64 * ni" "j < 64 * ni" "k \<le> lev i" "l \<le> lev j" "nd B' i k p \<noteq> 0 \<and> nd B' i k p = nd B' j l q" for i j k l p q
    using D(12) [OF that(1-4), of p q] that(5) n [OF that(1,3), of p] n [OF that(2,4), of q] by simp
  have "\<forall>b\<in>set free'. ni < b \<and> b < N" using fl(3) D(7,8) by blast
  with D(1,3) len sb fl(1,2) range inj show "tree_inv B' ni N lev free'"
    unfolding tree_inv_def by blast
qed

text \<open>The words of the inodes.\<close>

lemma inode_block_le: "i < 64 * ni \<Longrightarrow> 1 + i div 64 \<le> ni" for i ni :: nat
  by (simp add: less_mult_imp_div_less mult.commute Suc_le_eq)

lemma inode_frame:
  assumes "\<forall>b. 1 \<le> b \<and> b \<le> ni \<longrightarrow> B' b = B b" "i < 64 * ni"
  shows "root_of B' i = root_of B i" "size_of B' i = size_of B i"
  using assms inode_block_le [OF assms(2)] by (simp_all add: root_of_def size_of_def)

definition put_root :: "nat \<Rightarrow> nat \<Rightarrow> blocks \<Rightarrow> blocks" where
  "put_root i v B = B(1 + i div 64 := put32 (B (1 + i div 64)) (2 * (i mod 64)) v)"

definition put_size :: "nat \<Rightarrow> nat \<Rightarrow> blocks \<Rightarrow> blocks" where
  "put_size i v B = B(1 + i div 64 := put32 (B (1 + i div 64)) (2 * (i mod 64) + 1) v)"

lemma same_inode: "i div 64 = j div 64 \<Longrightarrow> i mod 64 = j mod 64 \<Longrightarrow> i = (j :: nat)"
  by (metis div_mult_mod_eq)

lemma put_word:
  "(a, m) \<noteq> (b, n) \<Longrightarrow> get32 ((B(a := put32 (B a) m v)) b) n = get32 (B b) n"
  "4 * m + 3 < length (B a) \<Longrightarrow> v < UINT \<Longrightarrow> get32 ((B(a := put32 (B a) m v)) a) m = v"
  by (auto simp: get32_put32_other get32_put32_same)

lemma inode_words:
  "i \<noteq> j \<Longrightarrow> (1 + i div 64, 2 * (i mod 64)) \<noteq> (1 + j div 64, 2 * (j mod 64))"
  "i \<noteq> j \<Longrightarrow> (1 + i div 64, 2 * (i mod 64) + 1) \<noteq> (1 + j div 64, 2 * (j mod 64) + 1)"
  "(1 + i div 64, 2 * (i mod 64)) \<noteq> (1 + j div 64, 2 * (j mod 64) + 1)"
  "4 * (2 * (i mod 64)) + 3 < 512" "4 * (2 * (i mod 64) + 1) + 3 < 512" for i j :: nat
proof -
  show "i \<noteq> j \<Longrightarrow> (1 + i div 64, 2 * (i mod 64)) \<noteq> (1 + j div 64, 2 * (j mod 64))"
    "i \<noteq> j \<Longrightarrow> (1 + i div 64, 2 * (i mod 64) + 1) \<noteq> (1 + j div 64, 2 * (j mod 64) + 1)"
    using same_inode [of i j] by simp_all blast+
  have "2 * a \<noteq> 2 * b + 1" for a b :: nat by presburger
  then show "(1 + i div 64, 2 * (i mod 64)) \<noteq> (1 + j div 64, 2 * (j mod 64) + 1)" by blast
  have w: "4 * (2 * m) + 3 < 512" "4 * (2 * m + 1) + 3 < 512" if "m < 64" for m :: nat
    using that by auto
  have "i mod 64 < 64" by simp
  then show "4 * (2 * (i mod 64)) + 3 < 512" "4 * (2 * (i mod 64) + 1) + 3 < 512" by (rule w)+
qed

lemma put_root_inode:
  assumes "length (B (1 + i div 64)) = 512" "v < UINT"
  shows "root_of (put_root i v B) j = (if j = i then v else root_of B j)" "size_of (put_root i v B) j = size_of B j"
  unfolding root_of_def size_of_def put_root_def
  using put_word(1) [OF inode_words(1) [of i j], where B = B and v = v]
    put_word(2) [where B = B and a = "1 + i div 64" and m = "2 * (i mod 64)" and v = v]
    put_word(1) [OF inode_words(3) [of i j], where B = B and v = v] inode_words(4) [of i] assms
  by metis+

lemma put_size_inode:
  assumes "length (B (1 + i div 64)) = 512" "v < UINT"
  shows "size_of (put_size i v B) j = (if j = i then v else size_of B j)" "root_of (put_size i v B) j = root_of B j"
  unfolding root_of_def size_of_def put_size_def
  using put_word(1) [OF inode_words(2) [of i j], where B = B and v = v]
    put_word(2) [where B = B and a = "1 + i div 64" and m = "2 * (i mod 64) + 1" and v = v]
    put_word(1) [OF inode_words(3) [of j i, symmetric], where B = B and v = v] inode_words(5) [of i] assms
  by metis+

subsection \<open>Allocation\<close>

text \<open>A block that is neither free nor in a tree.\<close>

definition unowned :: "blocks \<Rightarrow> nat \<Rightarrow> nat \<Rightarrow> (nat \<Rightarrow> nat) \<Rightarrow> nat list \<Rightarrow> nat \<Rightarrow> bool" where
  "unowned B ni N lev free x \<longleftrightarrow> ni < x \<and> x < N \<and> x \<notin> set free
     \<and> (\<forall>i<64 * ni. \<forall>k\<le>lev i. \<forall>p. nd B i k p \<noteq> x)"

text \<open>Everything a user of the file system can see.\<close>

definition same_files :: "blocks \<Rightarrow> (nat \<Rightarrow> nat) \<Rightarrow> blocks \<Rightarrow> (nat \<Rightarrow> nat) \<Rightarrow> nat \<Rightarrow> bool" where
  "same_files B lev B' lev' ni \<longleftrightarrow>
     (\<forall>i<64 * ni. size_of B' i = size_of B i \<and> (\<forall>p. content B' lev' i p = content B lev i p
        \<and> nd B' i (lev' i) p = nd B i (lev i) p))"

lemma same_files_refl [simp]: "same_files B lev B lev ni"
  by (simp add: same_files_def)

lemma same_files_trans:
  "same_files A la B lb ni \<Longrightarrow> same_files B lb C lc ni \<Longrightarrow> same_files A la C lc ni"
  by (simp add: same_files_def)

definition pop_free :: "blocks \<Rightarrow> blocks" where
  "pop_free B = (let fl = free_list (B 0); i = alloc_scan (B fl) 127 in
     if i = 0 then B(0 := put32 (B 0) 1 (get32 (B fl) 0)) else B(fl := put32 (B fl) i 0))"

lemma pop_free_blocks:
  assumes inv: "tree_inv B ni N lev (x # xs)"
  shows "freelist (pop_free B) (free_list (pop_free B 0)) xs" "n_inodeblocks (pop_free B 0) = ni"
    "\<forall>b. b \<noteq> 0 \<and> b \<notin> set (x # xs) \<longrightarrow> pop_free B b = B b" "\<forall>b<N. length (pop_free B b) = BLOCK_SIZE"
proof -
  note D = tree_invD [OF inv]
  let ?fl = "free_list (B 0)" and ?i = "alloc_scan (B (free_list (B 0))) 127"
  let ?B = "pop_free B"
  have len: "length (B b) = 512" if "b < N" for b using D(2) that by simp
  have l0: "length (B 0) = 512" using D(3) len [of 0] by linarith
  have u: "get32 b j < UINT" for b j by (rule get32_less)
  have "freelist ?B (free_list (?B 0)) xs \<and> n_inodeblocks (?B 0) = ni
    \<and> (\<forall>b. b \<noteq> 0 \<and> b \<notin> set (x # xs) \<longrightarrow> ?B b = B b) \<and> (\<forall>b<N. length (?B b) = 512)"
  proof (cases "?i = 0")
    case True
    note pop = freelist_pop_self [OF D(5) True]
    have e: "?B = B(0 := put32 (B 0) 1 (get32 (B ?fl) 0))" using True by (simp add: pop_free_def Let_def)
    have "0 \<notin> set xs" using D(7) [of 0] by auto
    then have "freelist ?B (get32 (B ?fl) 0) xs" unfolding e by (intro freelist_frame [OF pop(2)]) auto
    moreover have "free_list (?B 0) = get32 (B ?fl) 0" "n_inodeblocks (?B 0) = ni"
      using l0 u D(4) unfolding e
      by (simp_all add: free_list_def n_inodeblocks_def get32_put32_same get32_put32_other)
    ultimately show ?thesis using len l0 unfolding e by auto
  next
    case False
    have "?fl \<in> set (x # xs)"
      using D(5) by (cases rule: freelist.cases) auto
    then have l: "length (B ?fl) = 512" using D(8) len by blast
    note pop = freelist_pop_ref [OF D(5,6) refl False l]
    have e: "?B = B(?fl := put32 (B ?fl) ?i 0)" using False by (simp add: pop_free_def Let_def)
    from pop(4) have "?B 0 = B 0" unfolding e by simp
    with pop D(4) len l show ?thesis unfolding e by auto
  qed
  then show "freelist ?B (free_list (?B 0)) xs" "n_inodeblocks (?B 0) = ni"
    "\<forall>b. b \<noteq> 0 \<and> b \<notin> set (x # xs) \<longrightarrow> ?B b = B b" "\<forall>b<N. length (?B b) = BLOCK_SIZE" by blast+
qed

lemma pop_free_inv:
  assumes inv: "tree_inv B ni N lev (x # xs)"
  shows "tree_inv (pop_free B) ni N lev xs" "same_files B lev (pop_free B) lev ni"
    "unowned (pop_free B) ni N lev xs x"
    "\<forall>i<64 * ni. \<forall>k\<le>lev i. \<forall>p. nd (pop_free B) i k p = nd B i k p"
proof -
  note D = tree_invD [OF inv] and B = pop_free_blocks [OF inv]
  let ?B = "pop_free B"
  have "?B b = B b" if "1 \<le> b \<and> b \<le> ni" for b
  proof -
    have "b \<noteq> 0 \<and> b \<notin> set (x # xs)" using D(7) [of b] that by auto
    then show ?thesis using B(3) by blast
  qed
  then have r: "root_of ?B i = root_of B i" "size_of ?B i = size_of B i" if "i < 64 * ni" for i
    using that by (auto intro!: inode_frame [of ni])
  have ne: "nd B i k p \<noteq> 0 \<and> nd B i k p \<notin> set (x # xs)" if "i < 64 * ni" "k \<le> lev i" "nd B i k p \<noteq> 0" for i k p
    using D(11) [OF that] that(3) by simp
  have same: "?B (nd B i k p) = B (nd B i k p)" if "i < 64 * ni" "k \<le> lev i" "nd B i k p \<noteq> 0" for i k p
    using B(3) ne [OF that] by blast
  note F = tree_inv_frame [OF inv B(4,2,1)]
  show n: "\<forall>i<64 * ni. \<forall>k\<le>lev i. \<forall>p. nd ?B i k p = nd B i k p"
    and t: "tree_inv ?B ni N lev xs"
    using F D(6) r(1) same by auto
  show "same_files B lev ?B lev ni"
    using n same r(2) by (auto simp: same_files_def content_def Let_def)
  show "unowned ?B ni N lev xs x"
    using n D(6,7,8,11) unfolding unowned_def by (metis distinct.simps(2) list.set_intros(1) neq0_conv not_less_zero)
qed

end
