(* ===== verification/Treedisk_Edit.thy ===== *)
theory Treedisk_Edit
  imports Treedisk_Tree
begin

section \<open>The elementary changes of a write\<close>

text \<open>
  A write of \<^verbatim>\<open>file.c\<close> is a sequence of these changes to the blocks, each of which keeps the
  invariant: fill a block nobody owns, hang a new block into a hole, put a new root on top
  of a tree, store data in a leaf, and record a new size.
\<close>

lemmas node_Suc = node.simps(2)
declare node.simps(2) [simp del]

lemma unowned_nd: "unowned B ni N lev free x \<Longrightarrow> i < 64 * ni \<Longrightarrow> k \<le> lev i \<Longrightarrow> nd B i k p \<noteq> x"
  by (simp add: unowned_def)

subsection \<open>Filling an unowned block\<close>

lemma fill_unowned:
  assumes inv: "tree_inv B ni N lev free" and x: "unowned B ni N lev free x" and "length blk = BLOCK_SIZE"
  shows "tree_inv (B(x := blk)) ni N lev free" "same_files B lev (B(x := blk)) lev ni"
    "unowned (B(x := blk)) ni N lev free x"
    "\<forall>i<64 * ni. \<forall>k\<le>lev i. \<forall>p. nd (B(x := blk)) i k p = nd B i k p"
    "\<forall>i<64 * ni. root_of (B(x := blk)) i = root_of B i"
proof -
  note D = tree_invD [OF inv]
  let ?B = "B(x := blk)"
  have x': "ni < x" "x \<notin> set free" "x \<noteq> 0" using x by (auto simp: unowned_def)
  have r: "root_of ?B i = root_of B i" "size_of ?B i = size_of B i" if "i < 64 * ni" for i
    using x'(1) that by (auto intro!: inode_frame [of ni])
  have fl: "freelist ?B (free_list (?B 0)) free"
    using x' D(5) by (auto intro: freelist_frame)
  have len: "\<forall>b<N. length (?B b) = BLOCK_SIZE" using D(2) assms(3) by simp
  have same: "?B (nd B i k p) = B (nd B i k p)" if "i < 64 * ni" "k \<le> lev i" for i k p
    using unowned_nd [OF x that] by simp
  note F = tree_inv_frame [OF inv len _ fl D(6) subset_refl]
  show n: "\<forall>i<64 * ni. \<forall>k\<le>lev i. \<forall>p. nd ?B i k p = nd B i k p" and "tree_inv ?B ni N lev free"
    using F r(1) same x'(3) D(4) by auto
  show "same_files B lev ?B lev ni" using n r(2) same by (auto simp: same_files_def content_def Let_def)
  show "unowned ?B ni N lev free x" using x n by (simp add: unowned_def)
  show "\<forall>i<64 * ni. root_of ?B i = root_of B i" using r(1) by blast
qed

subsection \<open>Hanging a block into a hole\<close>

lemma insert_inv:
  assumes inv: "tree_inv B ni N lev free" and x: "unowned B ni N lev free x"
    and len: "\<forall>b<N. length (B' b) = BLOCK_SIZE" and sb: "n_inodeblocks (B' 0) = ni"
    and fl: "freelist B' (free_list (B' 0)) free"
    and hole: "nd B i k q = 0"
    and n: "\<And>j l p. j < 64 * ni \<Longrightarrow> l \<le> lev j \<Longrightarrow>
      nd B' j l p = (if j = i \<and> l = k \<and> p = q then x else nd B j l p)"
  shows "tree_inv B' ni N lev free"
proof -
  note D = tree_invD [OF inv]
  have x': "ni < x" "x < N" "x \<notin> set free" using x by (auto simp: unowned_def)
  have range: "ni < nd B' j l p \<and> nd B' j l p < N \<and> nd B' j l p \<notin> set free"
    if "j < 64 * ni" "l \<le> lev j" "nd B' j l p \<noteq> 0" for j l p
    using D(9-11) [OF that(1,2), of p] that n [OF that(1,2), of p] x' by (auto split: if_splits)
  have inj: "j = j' \<and> l = l' \<and> p = p'"
    if "j < 64 * ni" "j' < 64 * ni" "l \<le> lev j" "l' \<le> lev j'" "nd B' j l p \<noteq> 0 \<and> nd B' j l p = nd B' j' l' p'" for j j' l l' p p'
    using D(12) [OF that(1-4), of p p'] that(5) n [OF that(1,3), of p] n [OF that(2,4), of p']
      unowned_nd [OF x that(1,3)] unowned_nd [OF x that(2,4)] by (auto split: if_splits)
  show ?thesis
    unfolding tree_inv_def using D(1,3,6,7,8) len sb fl range inj by blast
qed

text \<open>The contents seen afterwards.\<close>

lemma insert_content:
  assumes n: "\<And>j l p. j < 64 * ni \<Longrightarrow> l \<le> lev j \<Longrightarrow>
      nd B' j l p = (if j = i \<and> l = k \<and> p = q then x else nd B j l p)"
    and leaves: "\<And>j p. j < 64 * ni \<Longrightarrow> nd B j (lev j) p \<noteq> 0 \<Longrightarrow> B' (nd B j (lev j) p) = B (nd B j (lev j) p)"
    and "x \<noteq> 0" "nd B i k q = 0" "j < 64 * ni"
  shows "content B' lev j p = (if j = i \<and> k = lev i \<and> p = q then B' x else content B lev j p)"
  using n [OF assms(5) order_refl, of p] leaves [OF assms(5), of p] assms(3,4)
  by (auto simp: content_def Let_def)

text \<open>In an indirect block.\<close>

definition link_child :: "nat \<Rightarrow> nat \<Rightarrow> nat \<Rightarrow> blocks \<Rightarrow> blocks" where
  "link_child b q x B = B(b := put32 (B b) (q mod REFS_PER_BLOCK) x)"

lemma null_words: "j < 128 \<Longrightarrow> get32 null_block j = 0"
  by (simp add: null_block_def get32_replicate0)

lemma link_child_nd:
  assumes inv: "tree_inv B ni N lev free" and x: "unowned B ni N lev free x"
    and i: "i < 64 * ni" "k < lev i" and b: "b = nd B i k (q div 128)" "b \<noteq> 0" and hole: "nd B i (Suc k) q = 0"
    and fresh: "Suc k < lev i \<longrightarrow> B x = null_block"
    and jl: "j < 64 * ni" "l \<le> lev j"
  shows "nd (link_child b q x B) j l p = (if j = i \<and> l = Suc k \<and> p = q then x else nd B j l p)"
  using jl(2)
proof (induction l arbitrary: p)
  note D = tree_invD [OF inv]
  let ?B = "link_child b q x B"
  have b': "ni < b" "b < N" "b \<noteq> x"
    using D(9,10) [OF i(1), of k "q div 128"] i(2) b unowned_nd [OF x i(1), of k] by auto
  have lb: "length (B b) = 512" using D(2) b'(2) by simp
  have r: "root_of ?B j = root_of B j"
    using b'(1) jl(1) by (auto intro!: inode_frame [of ni] simp: link_child_def)
  {
    case 0
    then show ?case using r by simp
  next
    case (Suc l)
    let ?c = "nd B j l (p div 128)"
    have IH: "nd ?B j l (p div 128) = (if j = i \<and> l = Suc k \<and> p div 128 = q then x else ?c)"
      using Suc by simp
    have xu: "x < UINT" "x \<noteq> 0" using x D(1) by (auto simp: unowned_def)
    have m: "q mod 128 < 128" by simp
    show ?case
    proof (cases "j = i \<and> l = Suc k \<and> p div 128 = q")
      case True
      then have "Suc k < lev i" using Suc.prems by simp
      with fresh b'(3) have "?B x = null_block" by (simp add: link_child_def)
      with True IH r hole xu null_words [of "p mod 128"] show ?thesis
        unfolding node_Suc [of _ _ l p] by (simp add: Let_def)
    next
      case False
      have c: "nd ?B j l (p div 128) = ?c" using IH unfolding if_not_P [OF False] .
      have at_b: "?c = b \<Longrightarrow> j = i \<and> l = k \<and> p div 128 = q div 128"
        using D(12) [OF jl(1) i(1), of l k "p div 128" "q div 128"] Suc.prems i(2) b by simp
      have pq: "p div 128 = q div 128 \<Longrightarrow> p mod 128 = q mod 128 \<Longrightarrow> p = q" by (metis div_mult_mod_eq)
      have "4 * (q mod 128) + 3 < 512" using m by linarith
      then have w: "get32 (?B b) (p mod 128) = (if p mod 128 = q mod 128 then x else get32 (B b) (p mod 128))"
        using lb xu by (auto simp: link_child_def get32_put32_same get32_put32_other)
      show ?thesis
      proof (cases "?c = b")
        case True
        with at_b have "j = i" "l = k" "p div 128 = q div 128" by auto
        with True c w pq b(2) show ?thesis unfolding node_Suc [of _ _ l p] by (auto simp: Let_def)
      next
        case False
        then have "?B ?c = B ?c" by (simp add: link_child_def)
        moreover have "\<not> (j = i \<and> Suc l = Suc k \<and> p = q)" using False b(1) by auto
        ultimately show ?thesis using c unfolding node_Suc [of _ _ l p] by (auto simp: Let_def)
      qed
    qed
  }
qed

lemma link_child_inv:
  assumes inv: "tree_inv B ni N lev free" and x: "unowned B ni N lev free x"
    and i: "i < 64 * ni" "k < lev i" and b: "b = nd B i k (q div 128)" "b \<noteq> 0" and hole: "nd B i (Suc k) q = 0"
    and fresh: "Suc k < lev i \<longrightarrow> B x = null_block"
  shows "tree_inv (link_child b q x B) ni N lev free" "j < 64 * ni \<Longrightarrow> size_of (link_child b q x B) j = size_of B j"
    "j < 64 * ni \<Longrightarrow> content (link_child b q x B) lev j p =
       (if j = i \<and> Suc k = lev i \<and> p = q then B x else content B lev j p)"
proof -
  note D = tree_invD [OF inv] and n = link_child_nd [OF assms]
  let ?B = "link_child b q x B"
  have b': "ni < b" "b < N" "b \<notin> set free" "b \<noteq> x" "x \<noteq> 0"
    using D(9-11) [OF i(1), of k "q div 128"] i(2) b unowned_nd [OF x i(1), of k] x by (auto simp: unowned_def)
  have "freelist ?B (free_list (?B 0)) free" "n_inodeblocks (?B 0) = ni"
    using b' D(4,5) by (auto simp: link_child_def intro: freelist_frame)
  moreover have "\<forall>b<N. length (?B b) = BLOCK_SIZE" using D(2) by (simp add: link_child_def)
  ultimately show "tree_inv ?B ni N lev free"
    using insert_inv [OF inv x _ _ _ hole] n by blast
  show "size_of ?B j = size_of B j" if "j < 64 * ni"
    using b'(1) that by (auto intro!: inode_frame [of ni] simp: link_child_def)
  have leaves: "?B (nd B j (lev j) p) = B (nd B j (lev j) p)" if "j < 64 * ni" "nd B j (lev j) p \<noteq> 0" for j p
    using D(12) [OF that(1) i(1), of "lev j" k p "q div 128"] that i(2) b by (auto simp: link_child_def)
  have "?B x = B x" using b'(4) by (simp add: link_child_def)
  with insert_content [of ni lev ?B i "Suc k" q x B, OF n leaves b'(5) hole]
  show "j < 64 * ni \<Longrightarrow> content ?B lev j p =
       (if j = i \<and> Suc k = lev i \<and> p = q then B x else content B lev j p)" by metis
qed

text \<open>In the inode.\<close>

lemma link_root_nd:
  assumes inv: "tree_inv B ni N lev free" and x: "unowned B ni N lev free x"
    and i: "i < 64 * ni" and hole: "root_of B i = 0" and fresh: "0 < lev i \<longrightarrow> B x = null_block"
    and jl: "j < 64 * ni" "l \<le> lev j"
  shows "nd (put_root i x B) j l p = (if j = i \<and> l = 0 \<and> p = 0 then x else nd B j l p)"
  using jl(2)
proof (induction l arbitrary: p)
  note D = tree_invD [OF inv]
  let ?B = "put_root i x B" and ?ib = "1 + i div 64"
  have xu: "x < UINT" "x \<noteq> 0" "ni < x" using x D(1) by (auto simp: unowned_def)
  have ib: "?ib \<le> ni" "?ib \<noteq> x" using inode_block_le [OF i] xu(3) by auto
  have "length (B ?ib) = 512" using D(2) [of ?ib] D(3) ib(1) by linarith
  then have r: "root_of ?B j = (if j = i then x else root_of B j)" using put_root_inode(1) xu(1) by blast
  {
    case 0
    then show ?case using r hole by simp
  next
    case (Suc l)
    let ?c = "nd B j l (p div 128)"
    have IH: "nd ?B j l (p div 128) = (if j = i \<and> l = 0 \<and> p div 128 = 0 then x else ?c)"
      using Suc.IH [of "p div 128"] Suc.prems by linarith
    show ?case
    proof (cases "j = i \<and> l = 0 \<and> p div 128 = 0")
      case True
      then have "0 < lev i" using Suc.prems by simp
      with fresh ib(2) have "?B x = null_block" by (simp add: put_root_def)
      moreover have "nd ?B j l (p div 128) = x" using IH unfolding if_P [OF True] .
      moreover have "?c = 0" using True hole by simp
      ultimately show ?thesis
        unfolding node_Suc [of _ _ l p] using xu null_words [of "p mod 128"] by (simp add: Let_def)
    next
      case False
      have c: "nd ?B j l (p div 128) = ?c" using IH unfolding if_not_P [OF False] .
      have "?c \<noteq> 0 \<Longrightarrow> ?ib \<noteq> ?c" using D(9) [OF jl(1), of l "p div 128"] Suc.prems ib(1) by linarith
      then have "?c \<noteq> 0 \<Longrightarrow> ?B ?c = B ?c" by (simp add: put_root_def)
      then show ?thesis using c unfolding node_Suc [of _ _ l p] by (auto simp: Let_def)
    qed
  }
qed

lemma put_root_facts:
  assumes inv: "tree_inv B ni N lev free" and i: "i < 64 * ni" and v: "v < UINT"
  shows "freelist (put_root i v B) (free_list (put_root i v B 0)) free" "n_inodeblocks (put_root i v B 0) = ni"
    "\<forall>b<N. length (put_root i v B b) = BLOCK_SIZE" "size_of (put_root i v B) j = size_of B j"
    "ni < b \<Longrightarrow> put_root i v B b = B b"
proof -
  note D = tree_invD [OF inv]
  let ?ib = "1 + i div 64"
  have ib: "?ib \<le> ni" by (rule inode_block_le [OF i])
  have "length (B ?ib) = 512" using D(2) [of ?ib] D(3) ib by linarith
  then show "size_of (put_root i v B) j = size_of B j" using put_root_inode(2) v by blast
  have "?ib \<notin> set free" using D(7) [of ?ib] ib by linarith
  then show "freelist (put_root i v B) (free_list (put_root i v B 0)) free" "n_inodeblocks (put_root i v B 0) = ni"
    using D(4,5) by (auto simp: put_root_def intro!: freelist_frame [OF D(5)])
  show "\<forall>b<N. length (put_root i v B b) = BLOCK_SIZE" using D(2) by (simp add: put_root_def)
  show "ni < b \<Longrightarrow> put_root i v B b = B b" using ib by (auto simp: put_root_def)
qed

lemma link_root_inv:
  assumes inv: "tree_inv B ni N lev free" and x: "unowned B ni N lev free x"
    and i: "i < 64 * ni" and hole: "root_of B i = 0" and fresh: "0 < lev i \<longrightarrow> B x = null_block"
  shows "tree_inv (put_root i x B) ni N lev free"
    "j < 64 * ni \<Longrightarrow> content (put_root i x B) lev j p =
       (if j = i \<and> 0 = lev i \<and> p = 0 then B x else content B lev j p)"
proof -
  note D = tree_invD [OF inv] and n = link_root_nd [OF assms]
  have xu: "x < UINT" "x \<noteq> 0" "ni < x" using x D(1) by (auto simp: unowned_def)
  note F = put_root_facts [OF inv i xu(1)]
  have h: "nd B i 0 0 = 0" using hole by simp
  show "tree_inv (put_root i x B) ni N lev free" using insert_inv [OF inv x F(3,2,1) h] n by blast
  have leaves: "put_root i x B (nd B j (lev j) p) = B (nd B j (lev j) p)"
    if "j < 64 * ni" "nd B j (lev j) p \<noteq> 0" for j p
    using F(5) D(9) [OF that(1) order_refl that(2)] by blast
  from insert_content [of ni lev "put_root i x B" i 0 0 x B, OF n leaves xu(2) h] F(5) [OF xu(3)]
  show "j < 64 * ni \<Longrightarrow> content (put_root i x B) lev j p =
       (if j = i \<and> 0 = lev i \<and> p = 0 then B x else content B lev j p)" by metis
qed

subsection \<open>A new root\<close>

lemma new_root_nd:
  assumes inv: "tree_inv B ni N lev free" and x: "unowned B ni N lev free x" and i: "i < 64 * ni"
    and indir: "B x = put32 null_block 0 (root_of B i)"
  shows "nd (put_root i x B) i 0 p = (if p = 0 then x else 0)"
    "k \<le> lev i \<Longrightarrow> nd (put_root i x B) i (Suc k) p = nd B i k p"
    "j < 64 * ni \<Longrightarrow> j \<noteq> i \<Longrightarrow> k \<le> lev j \<Longrightarrow> nd (put_root i x B) j k p = nd B j k p"
proof -
  note D = tree_invD [OF inv]
  let ?B = "put_root i x B" and ?ib = "1 + i div 64"
  have xu: "x < UINT" "x \<noteq> 0" "ni < x" using x D(1) by (auto simp: unowned_def)
  note F = put_root_facts [OF inv i xu(1)]
  have "length (B ?ib) = 512" using D(2) [of ?ib] D(3) inode_block_le [OF i] by linarith
  then have r: "root_of ?B j = (if j = i then x else root_of B j)" for j using put_root_inode(1) xu(1) by blast
  show "nd ?B i 0 p = (if p = 0 then x else 0)" using r by simp
  have inner: "?B (nd B j l q) = B (nd B j l q)" if "j < 64 * ni" "l \<le> lev j" "nd B j l q \<noteq> 0" for j l q
    using F(5) D(9) [OF that] by blast
  have nc: "node ?B (root_of B j) k p = nd B j k p" if "j < 64 * ni" "k \<le> lev j" for j k p
    by (rule node_cong) (use inner [OF that(1)] that(2) in auto)
  have "nd ?B i (Suc k) p = node ?B (root_of B i) k p"
    using r [of i] node_new_root [of x ?B "root_of B i" k p] xu(2) F(5) [OF xu(3)] indir get32_less
    by (simp add: root_of_def)
  then show "k \<le> lev i \<Longrightarrow> nd ?B i (Suc k) p = nd B i k p" using nc [OF i] by simp
  show "j < 64 * ni \<Longrightarrow> j \<noteq> i \<Longrightarrow> k \<le> lev j \<Longrightarrow> nd ?B j k p = nd B j k p" using nc r [of j] by simp
qed

lemma new_root_inv:
  assumes inv: "tree_inv B ni N lev free" and x: "unowned B ni N lev free x" and i: "i < 64 * ni"
    and indir: "B x = put32 null_block 0 (root_of B i)"
  shows "tree_inv (put_root i x B) ni N (lev(i := Suc (lev i))) free"
    "same_files B lev (put_root i x B) (lev(i := Suc (lev i))) ni"
proof -
  note D = tree_invD [OF inv] and n = new_root_nd [OF assms]
  let ?B = "put_root i x B" and ?lev = "lev(i := Suc (lev i))"
  have xu: "x < UINT" "x \<noteq> 0" "ni < x" "x < N" "x \<notin> set free" using x D(1) by (auto simp: unowned_def)
  note F = put_root_facts [OF inv i xu(1)]
  have cases: "(j = i \<and> k = 0 \<and> p = 0 \<and> nd ?B j k p = x) \<or> (\<exists>l\<le>lev j. nd ?B j k p = nd B j l p
      \<and> (if j = i then k = Suc l else k = l))"
    if "j < 64 * ni" "k \<le> ?lev j" "nd ?B j k p \<noteq> 0" for j k p
  proof (cases "j = i")
    case True
    show ?thesis
    proof (cases k)
      case 0
      with n(1) [of p] that(3) True show ?thesis by (metis (no_types))
    next
      case (Suc l)
      with n(2) [of l p] that(2) True show ?thesis by (metis fun_upd_same Suc_le_mono)
    qed
  next
    case False
    with n(3) [OF that(1) False, of k p] that(2) show ?thesis by auto
  qed
  have range: "ni < nd ?B j k p \<and> nd ?B j k p < N \<and> nd ?B j k p \<notin> set free"
    if "j < 64 * ni" "k \<le> ?lev j" "nd ?B j k p \<noteq> 0" for j k p
    using cases [OF that] D(9-11) [OF that(1)] that(3) xu by metis
  have inj: "j = j' \<and> k = k' \<and> p = p'"
    if "j < 64 * ni" "j' < 64 * ni" "k \<le> ?lev j" "k' \<le> ?lev j'" "nd ?B j k p \<noteq> 0 \<and> nd ?B j k p = nd ?B j' k' p'"
    for j j' k k' p p'
  proof -
    note asm = that
    have nz: "nd ?B j k p \<noteq> 0" "nd ?B j' k' p' \<noteq> 0" using that(5) by auto
    have no_x: "nd B j'' l p'' \<noteq> x" if "j'' < 64 * ni" "l \<le> lev j''" for j'' l p''
      using unowned_nd [OF x that] .
    show ?thesis
    proof (cases "nd ?B j k p = x")
      case True
      then have "j = i \<and> k = 0 \<and> p = 0" "j' = i \<and> k' = 0 \<and> p' = 0"
        using cases [OF that(1,3) nz(1)] cases [OF that(2,4) nz(2)] no_x [OF that(1)] no_x [OF that(2)] that(5)
        by metis+
      then show ?thesis by simp
    next
      case False
      then obtain l l' where l: "l \<le> lev j" "nd ?B j k p = nd B j l p" "if j = i then k = Suc l else k = l"
        "l' \<le> lev j'" "nd ?B j' k' p' = nd B j' l' p'" "if j' = i then k' = Suc l' else k' = l'"
        using cases [OF asm(1,3) nz(1)] cases [OF asm(2,4) nz(2)] asm(5) by metis
      with D(12) [OF that(1,2) l(1,4), of p p'] nz(1) that(5) show ?thesis by (auto split: if_splits)
    qed
  qed
  show "tree_inv ?B ni N ?lev free"
    unfolding tree_inv_def using D(1,3,6,7,8) F(1-3) range inj by blast
  have "content ?B ?lev j p = content B lev j p \<and> nd ?B j (?lev j) p = nd B j (lev j) p" if "j < 64 * ni" for j p
  proof -
    have "nd ?B j (?lev j) p = nd B j (lev j) p" using n that by simp
    moreover have "nd B j (lev j) p \<noteq> 0 \<Longrightarrow> ?B (nd B j (lev j) p) = B (nd B j (lev j) p)"
      using F(5) D(9) [OF that order_refl] by blast
    ultimately show ?thesis by (simp add: content_def Let_def)
  qed
  then show "same_files B lev ?B ?lev ni" using F(4) by (simp add: same_files_def)
qed

subsection \<open>Data and sizes\<close>

lemma write_leaf:
  assumes inv: "tree_inv B ni N lev free" and i: "i < 64 * ni" and b: "b = nd B i (lev i) q" "b \<noteq> 0"
    and "length blk = BLOCK_SIZE"
  shows "tree_inv (B(b := blk)) ni N lev free" "j < 64 * ni \<Longrightarrow> size_of (B(b := blk)) j = size_of B j"
    "j < 64 * ni \<Longrightarrow> nd (B(b := blk)) j (lev j) p = nd B j (lev j) p"
    "j < 64 * ni \<Longrightarrow> content (B(b := blk)) lev j p = (if j = i \<and> p = q then blk else content B lev j p)"
proof -
  note D = tree_invD [OF inv]
  let ?B = "B(b := blk)"
  have b': "ni < b" "b \<notin> set free" "b \<noteq> 0" using D(9,11) [OF i order_refl, of q] b by auto
  have at: "j = i \<and> k = lev i \<and> p = q" if "j < 64 * ni" "k \<le> lev j" "nd B j k p = b" for j k p
    using D(12) [OF that(1) i that(2) order_refl, of p q] that(3) b by simp
  have r: "root_of ?B j = root_of B j" "size_of ?B j = size_of B j" if "j < 64 * ni" for j
    using b'(1) that by (auto intro!: inode_frame [of ni])
  have fl: "freelist ?B (free_list (?B 0)) free" using b' D(5) by (auto intro: freelist_frame)
  have len: "\<forall>b<N. length (?B b) = BLOCK_SIZE" using D(2) assms(5) by simp
  have inner: "?B (nd B j k p) = B (nd B j k p)" if "j < 64 * ni" "k < lev j" for j k p
    using at [OF that(1), of k p] that(2) by auto
  note F = tree_inv_frame [OF inv len _ fl D(6) subset_refl]
  have n: "\<forall>j<64 * ni. \<forall>k\<le>lev j. \<forall>p. nd ?B j k p = nd B j k p" and t: "tree_inv ?B ni N lev free"
    using F r(1) inner b'(3) D(4) by auto
  show "tree_inv ?B ni N lev free" by (rule t)
  show "j < 64 * ni \<Longrightarrow> size_of ?B j = size_of B j" by (rule r(2))
  show nl: "j < 64 * ni \<Longrightarrow> nd ?B j (lev j) p = nd B j (lev j) p" using n by blast
  show "content ?B lev j p = (if j = i \<and> p = q then blk else content B lev j p)" if j: "j < 64 * ni"
  proof (cases "j = i \<and> p = q")
    case True
    with nl [OF j] b show ?thesis by (simp add: content_def Let_def)
  next
    case False
    then have "nd B j (lev j) p \<noteq> b" using at [OF j order_refl] by blast
    with nl [OF j] show ?thesis unfolding if_not_P [OF False] by (simp add: content_def Let_def)
  qed
qed

lemma put_size_inv:
  assumes inv: "tree_inv B ni N lev free" and i: "i < 64 * ni" and v: "v < UINT"
  shows "tree_inv (put_size i v B) ni N lev free"
    "size_of (put_size i v B) j = (if j = i then v else size_of B j)"
    "j < 64 * ni \<Longrightarrow> k \<le> lev j \<Longrightarrow> nd (put_size i v B) j k p = nd B j k p"
    "j < 64 * ni \<Longrightarrow> content (put_size i v B) lev j p = content B lev j p"
    "ni < b \<Longrightarrow> put_size i v B b = B b"
proof -
  note D = tree_invD [OF inv]
  let ?B = "put_size i v B" and ?ib = "1 + i div 64"
  have ib: "?ib \<le> ni" by (rule inode_block_le [OF i])
  have "length (B ?ib) = 512" using D(2) [of ?ib] D(3) ib by linarith
  note S = put_size_inode [of B i, OF this v]
  have "?ib \<notin> set free" using D(7) [of ?ib] ib by linarith
  then have fl: "freelist ?B (free_list (?B 0)) free" and sb: "n_inodeblocks (?B 0) = ni"
    using D(4,5) by (auto simp: put_size_def intro!: freelist_frame [OF D(5)])
  have len: "\<forall>b<N. length (?B b) = BLOCK_SIZE" using D(2) by (simp add: put_size_def)
  show o: "ni < b \<Longrightarrow> ?B b = B b" for b using ib by (auto simp: put_size_def)
  have inner: "?B (nd B j k p) = B (nd B j k p)" if "j < 64 * ni" "k \<le> lev j" "nd B j k p \<noteq> 0" for j k p
    using o D(9) [OF that] by blast
  note F = tree_inv_frame [OF inv len sb fl D(6) subset_refl]
  have n: "\<forall>j<64 * ni. \<forall>k\<le>lev j. \<forall>p. nd ?B j k p = nd B j k p" and t: "tree_inv ?B ni N lev free"
    using F S(2) inner by auto
  show "tree_inv ?B ni N lev free" by (rule t)
  show "size_of ?B j = (if j = i then v else size_of B j)" by (rule S(1))
  show nl: "j < 64 * ni \<Longrightarrow> k \<le> lev j \<Longrightarrow> nd ?B j k p = nd B j k p" for k using n by blast
  show "j < 64 * ni \<Longrightarrow> content ?B lev j p = content B lev j p"
    using nl [of "lev j"] inner [of j "lev j" p] by (simp add: content_def Let_def)
qed

end
