(* ===== verification/Treedisk_Correct.thy ===== *)
theory Treedisk_Correct
  imports Treedisk_Edit
begin

section \<open>The operations of the tree file system are correct\<close>

text \<open>
  \<^verbatim>\<open>treedisk_read\<close> and \<^verbatim>\<open>treedisk_write\<close> over any inode store below that behaves like an
  array of blocks. That contract is the locale \<open>block_store\<close>.
\<close>

subsection \<open>The place of a reference\<close>

text \<open>
  The reference to the node at depth \<open>k\<close> and index \<open>q\<close> of inode \<open>i\<close> is word \<open>w\<close> of block \<open>a\<close>:
  of the inode block for the root, of the parent node otherwise.
\<close>

definition slot :: "blocks \<Rightarrow> nat \<Rightarrow> nat \<Rightarrow> nat \<Rightarrow> nat \<Rightarrow> nat \<Rightarrow> bool" where
  "slot B i k q a w \<longleftrightarrow> (case k of
     0 \<Rightarrow> q = 0 \<and> a = 1 + i div 64 \<and> w = 2 * (i mod 64)
   | Suc k' \<Rightarrow> a = nd B i k' (q div 128) \<and> a \<noteq> 0 \<and> w = q mod 128)"

lemma slot_word: "slot B i k q a w \<Longrightarrow> get32 (B a) w = nd B i k q"
  by (cases k) (auto simp: slot_def root_of_def node_Suc Let_def)

lemma slot_block:
  assumes inv: "tree_inv B ni N lev free" and i: "i < 64 * ni" and k: "k \<le> lev i" and s: "slot B i k q a w"
  shows "a \<noteq> 0" "a < N" "a \<notin> set free" "unowned B ni N lev free x \<Longrightarrow> a \<noteq> x" "4 * w + 3 < BLOCK_SIZE"
proof -
  note D = tree_invD [OF inv]
  have "a \<noteq> 0 \<and> a < N \<and> a \<notin> set free \<and> (unowned B ni N lev free x \<longrightarrow> a \<noteq> x) \<and> 4 * w + 3 < 512"
  proof (cases k)
    case 0
    with s have a: "a = 1 + i div 64" and w: "w = 2 * (i mod 64)" by (auto simp: slot_def)
    have "a \<le> ni" using inode_block_le [OF i] a by simp
    with D(3) D(7) [of a] have "a < N" "a \<notin> set free" by fastforce+
    moreover have "unowned B ni N lev free x \<longrightarrow> a \<noteq> x" using \<open>a \<le> ni\<close> by (auto simp: unowned_def)
    ultimately show ?thesis using a w inode_words(4) [of i] by simp
  next
    case (Suc k')
    with s have a: "a = nd B i k' (q div 128)" "a \<noteq> 0" and w: "w = q mod 128" by (auto simp: slot_def)
    have "w < 128" using w by simp
    with D(10,11) [OF i, of k' "q div 128"] a k Suc unowned_nd [of B ni N lev free x, OF _ i, of k'] show ?thesis
      by auto
  qed
  then show "a \<noteq> 0" "a < N" "a \<notin> set free" "unowned B ni N lev free x \<Longrightarrow> a \<noteq> x" "4 * w + 3 < BLOCK_SIZE"
    by blast+
qed

text \<open>All files but one block of inode \<open>i\<close> are the same.\<close>

definition file_frame :: "nat \<Rightarrow> nat \<Rightarrow> blocks \<Rightarrow> blocks \<Rightarrow> (nat \<Rightarrow> nat) \<Rightarrow> nat \<Rightarrow> bool" where
  "file_frame i q B B' lev ni \<longleftrightarrow> (\<forall>j<64 * ni. size_of B' j = size_of B j
     \<and> (\<forall>p. (j, p) \<noteq> (i, q) \<longrightarrow> content B' lev j p = content B lev j p \<and> nd B' j (lev j) p = nd B j (lev j) p))"

lemma file_frame_refl [simp]: "file_frame i q B B lev ni"
  by (simp add: file_frame_def)

lemma file_frame_trans:
  "file_frame i q A B lev ni \<Longrightarrow> file_frame i q B C lev ni \<Longrightarrow> file_frame i q A C lev ni"
  by (simp add: file_frame_def)

lemma same_files_frame: "same_files B lev B' lev ni \<Longrightarrow> file_frame i q B B' lev ni"
  by (simp add: same_files_def file_frame_def)

lemma slot_link:
  assumes inv: "tree_inv B ni N lev free" and x: "unowned B ni N lev free x" and i: "i < 64 * ni" and k: "k \<le> lev i"
    and s: "slot B i k q a w" and hole: "nd B i k q = 0" and fresh: "k < lev i \<longrightarrow> B x = null_block"
    and off: "k = lev i \<longrightarrow> q = off"
  shows "tree_inv (B(a := put32 (B a) w x)) ni N lev free"
    "nd (B(a := put32 (B a) w x)) i k q = x" "file_frame i off B (B(a := put32 (B a) w x)) lev ni"
proof -
  let ?B = "B(a := put32 (B a) w x)"
  have "tree_inv ?B ni N lev free \<and> nd ?B i k q = x \<and> file_frame i off B ?B lev ni"
  proof (cases k)
    case 0
    with s have e: "?B = put_root i x B" and q: "q = 0" by (auto simp: slot_def put_root_def)
    have h: "root_of B i = 0" using hole 0 q by simp
    have f: "0 < lev i \<longrightarrow> B x = null_block" using fresh 0 by simp
    have "x < UINT" using x tree_invD(1) [OF inv] by (simp add: unowned_def)
    moreover have "root_of (put_root i x B) i = x" using link_root_nd [OF inv x i h f i le0, of 0] by simp
    ultimately show ?thesis
      unfolding e file_frame_def
      using link_root_inv [OF inv x i h f] link_root_nd [OF inv x i h f] put_root_facts(4) [OF inv i] 0 q off i by auto
  next
    case (Suc k')
    with s have e: "?B = link_child a q x B" and a: "a = nd B i k' (q div 128)" "a \<noteq> 0"
      by (auto simp: slot_def link_child_def)
    have k': "k' < lev i" "nd B i (Suc k') q = 0" "Suc k' < lev i \<longrightarrow> B x = null_block"
      using k hole fresh Suc by auto
    show ?thesis
      unfolding e file_frame_def
      using link_child_inv [OF inv x i k'(1) a k'(2,3)] link_child_nd [OF inv x i k'(1) a k'(2,3)] Suc k off i by auto
  qed
  then show "tree_inv ?B ni N lev free" "nd ?B i k q = x" "file_frame i off B ?B lev ni" by blast+
qed

subsection \<open>The height of a tree\<close>

lemma shift_div: "n \<le> 4 \<Longrightarrow> log_shift_r x (n * 7) = x div 128 ^ n"
  by (simp add: log_shift_r_def drop_bit_eq_div power_mult mult.commute [of n 7])

lemma shift_zero_iff:
  assumes "x < UINT" "n \<le> 5"
  shows "log_shift_r x (n * 7) = 0 \<longleftrightarrow> x < 128 ^ n"
proof (cases "n = 5")
  case True
  have "(UINT::nat) < 128 ^ 5" by simp
  with assms(1) True show ?thesis by (simp add: log_shift_r_def)
next
  case False
  with assms(2) show ?thesis by (simp add: shift_div div_eq_0_iff)
qed

lemma nlevels_loop_spec:
  assumes "x < UINT" "l \<le> 5" "\<forall>l'<l. 128 ^ l' \<le> x"
  shows "nlevels_loop x l \<le> 5 \<and> x < 128 ^ nlevels_loop x l \<and> (\<forall>l'<nlevels_loop x l. 128 ^ l' \<le> x)"
  using assms
proof (induction "5 - l" arbitrary: l)
  case 0
  then have "l = 5" by simp
  moreover have "log_shift_r x (5 * 7) = 0" by (simp add: log_shift_r_def)
  ultimately have "nlevels_loop x l = l" by (subst nlevels_loop.simps) simp
  with 0 shift_zero_iff [OF 0(2), of 5] \<open>l = 5\<close> \<open>log_shift_r x (5 * 7) = 0\<close> show ?case by simp
next
  case (Suc m)
  show ?case
  proof (cases "log_shift_r x (l * 7) = 0")
    case True
    then have "nlevels_loop x l = l" by (subst nlevels_loop.simps) simp
    with True Suc.prems shift_zero_iff [OF Suc.prems(1,2)] show ?thesis by simp
  next
    case False
    then have e: "nlevels_loop x l = nlevels_loop x (l + 1)" by (subst nlevels_loop.simps) simp
    have "128 ^ l \<le> x" using False shift_zero_iff [OF Suc.prems(1,2)] by simp
    then have "\<forall>l'<l + 1. 128 ^ l' \<le> x" using Suc.prems(3) by (auto simp: less_Suc_eq)
    with Suc.hyps(1) [of "l + 1"] Suc.hyps(2) Suc.prems(1) show ?thesis unfolding e by simp
  qed
qed

lemma levels_spec:
  assumes "x < UINT"
  shows "nlevels_loop x 0 \<le> 5" "x < 128 ^ nlevels_loop x 0" "l < nlevels_loop x 0 \<Longrightarrow> 128 ^ l \<le> x"
  using nlevels_loop_spec [OF assms, of 0] by auto

lemma levels_mono:
  assumes "x \<le> y" "y < UINT"
  shows "nlevels_loop x 0 \<le> nlevels_loop y 0"
proof (rule ccontr)
  assume "\<not> nlevels_loop x 0 \<le> nlevels_loop y 0"
  then have "128 ^ nlevels_loop y 0 \<le> x" using levels_spec(3) [of x] assms by simp
  with levels_spec(2) [OF assms(2)] assms(1) show False by simp
qed

lemma tree_levels_bound: "sz < UINT \<Longrightarrow> p < sz \<Longrightarrow> p < 128 ^ tree_levels sz"
  using levels_spec(2) [of "sz - 1"] by (simp add: tree_levels_def less_imp_diff_less)

text \<open>The height the tree of inode \<open>i\<close> has according to its size.\<close>

definition heights :: "blocks \<Rightarrow> nat \<Rightarrow> nat" where
  "heights B i = tree_levels (size_of B i)"

lemma size_of_less: "size_of B i < UINT"
  by (simp add: size_of_def get32_less)

lemma heights_le: "heights B i \<le> 5" "p < size_of B i \<Longrightarrow> p < 128 ^ heights B i"
proof -
  have u: "size_of B i - 1 < UINT" using size_of_less by (rule less_imp_diff_less)
  show "heights B i \<le> 5" using levels_spec(1) [OF u] by (simp add: heights_def tree_levels_def)
  show "p < size_of B i \<Longrightarrow> p < 128 ^ heights B i"
    unfolding heights_def by (rule tree_levels_bound [OF size_of_less])
qed

subsection \<open>What a stored file system holds\<close>

text \<open>
  The invariant: trees and free list are in order, trees are as high as the sizes say, and
  behind the end of a file there are only holes. \<open>fblock\<close> is a block of a file, \<open>file_of\<close> the
  whole file, and \<open>file_write\<close> what writing one block does to a file: it may extend it, and the
  gap reads as zeros.
\<close>

definition fs_inv :: "blocks \<Rightarrow> nat \<Rightarrow> nat \<Rightarrow> nat list \<Rightarrow> bool" where
  "fs_inv B ni N free \<longleftrightarrow> tree_inv B ni N (heights B) free \<and> 64 * ni < UINT
     \<and> (\<forall>i<64 * ni. \<forall>p. size_of B i \<le> p \<longrightarrow> nd B i (heights B i) p = 0)"

definition fblock :: "blocks \<Rightarrow> nat \<Rightarrow> nat \<Rightarrow> block" where
  "fblock B i p = content B (heights B) i p"

definition file_of :: "blocks \<Rightarrow> nat \<Rightarrow> block list" where
  "file_of B i = map (fblock B i) [0..<size_of B i]"

definition file_write :: "block list \<Rightarrow> nat \<Rightarrow> block \<Rightarrow> block list" where
  "file_write f off blk = (f @ replicate (off + 1 - length f) null_block)[off := blk]"

lemma fblock_behind: "fs_inv B ni N free \<Longrightarrow> i < 64 * ni \<Longrightarrow> size_of B i \<le> p \<Longrightarrow> fblock B i p = null_block"
  by (simp add: fs_inv_def fblock_def content_def)

lemma file_of_write:
  assumes "fs_inv B ni N free" "i < 64 * ni" "size_of B' i = max (size_of B i) (off + 1)"
    and "\<forall>p. fblock B' i p = (if p = off then blk else fblock B i p)"
  shows "file_of B' i = file_write (file_of B i) off blk"
proof (rule nth_equalityI)
  show "length (file_of B' i) = length (file_write (file_of B i) off blk)"
    using assms(3) by (simp add: file_of_def file_write_def max_def)
  fix p assume "p < length (file_of B' i)"
  then show "file_of B' i ! p = file_write (file_of B i) off blk ! p"
    using assms(3,4) fblock_behind [OF assms(1,2), of p]
    by (auto simp: file_of_def file_write_def nth_list_update nth_append)
qed

text \<open>
  The number of free blocks that writing a block may take: one for each level the tree grows
  by, and one for each node on the way down.
\<close>

definition write_cost :: "blocks \<Rightarrow> nat \<Rightarrow> nat \<Rightarrow> nat" where
  "write_cost B i off = (let sz = max (size_of B i) (off + 1) in tree_levels sz - tree_levels (size_of B i) + tree_levels sz + 1)"

lemma tree_levels_le5: "sz < UINT \<Longrightarrow> tree_levels sz \<le> 5"
  using levels_spec(1) [of "sz - 1"] by (simp add: tree_levels_def)

lemma write_cost_le: "off + 1 < UINT \<Longrightarrow> write_cost B i off \<le> 11"
  using tree_levels_le5 [of "max (size_of B i) (off + 1)"] size_of_less [of B i] by (simp add: write_cost_def Let_def)

lemma tree_inv_levels:
  assumes "tree_inv B ni N lev free" "\<forall>j<64 * ni. lev' j = lev j"
  shows "tree_inv B ni N lev' free"
proof -
  note D = tree_invD [OF assms(1)]
  have range: "ni < nd B i k p \<and> nd B i k p < N \<and> nd B i k p \<notin> set free"
    if "i < 64 * ni" "k \<le> lev' i" "nd B i k p \<noteq> 0" for i k p
    using that assms(2) D(9-11) [of i k p] by simp
  have inj: "i = j \<and> k = l \<and> p = q"
    if "i < 64 * ni" "j < 64 * ni" "k \<le> lev' i" "l \<le> lev' j" "nd B i k p \<noteq> 0 \<and> nd B i k p = nd B j l q" for i j k l p q
    using that assms(2) D(12) [of i j k l p q] by simp
  show ?thesis unfolding tree_inv_def using D(1-8) range inj by blast
qed

text \<open>Two stores that agree on the blocks of the file system hold the same files.\<close>

lemma fs_inv_same:
  assumes "fs_inv B ni N free" "\<forall>b<N. B' b = B b"
  shows "fs_inv B' ni N free \<and> (\<forall>i<64 * ni. file_of B' i = file_of B i)"
proof -
  have T: "tree_inv B ni N (heights B) free" using assms(1) by (simp add: fs_inv_def)
  note D = tree_invD [OF T]
  have i: "root_of B' i = root_of B i" "size_of B' i = size_of B i" if "i < 64 * ni" for i
    using inode_frame [of ni B' B i] assms(2) D(3) that by auto
  have h: "heights B' i = heights B i" if "i < 64 * ni" for i using i(2) [OF that] by (simp add: heights_def)
  have "freelist B' (free_list (B' 0)) free" using freelist_frame [OF D(5)] assms(2) D(3,8) by auto
  moreover have "\<forall>b<N. length (B' b) = BLOCK_SIZE" "n_inodeblocks (B' 0) = ni" using assms(2) D(2-4) by auto
  moreover have "\<forall>i<64 * ni. \<forall>k<heights B i. \<forall>p. nd B i k p \<noteq> 0 \<longrightarrow> B' (nd B i k p) = B (nd B i k p)"
    using assms(2) D(10) by auto
  ultimately have F: "\<forall>i<64 * ni. \<forall>k\<le>heights B i. \<forall>p. nd B' i k p = nd B i k p" "tree_inv B' ni N (heights B) free"
    using tree_inv_frame [OF T, of B' free] i(1) D(6) by blast+
  have "fs_inv B' ni N free"
    using assms(1) F(1) i(2) h tree_inv_levels [OF F(2), of "heights B'"] by (simp add: fs_inv_def)
  moreover have "content B' (heights B') i p = content B (heights B) i p" if "i < 64 * ni" for i p
    using F(1) h [OF that] assms(2) D(10) [OF that, of "heights B i" p] that by (auto simp: content_def Let_def)
  ultimately show ?thesis using i(2) by (simp add: file_of_def fblock_def)
qed

subsection \<open>The store below\<close>

locale block_store =
  fixes S :: "'d inode_store" and ino0 :: nat and N :: nat
    and blocks :: "'d \<Rightarrow> nat \<Rightarrow> block" and ok :: "'d \<Rightarrow> bool"
  assumes size_ok: "ok d \<Longrightarrow> \<exists>d'. st_getsize S ino0 d = Some (int N, d') \<and> ok d' \<and> blocks d' = blocks d"
    and size_less: "N < 2147483648"
    and block_length: "ok d \<Longrightarrow> b < N \<Longrightarrow> length (blocks d b) = BLOCK_SIZE"
    and read_ok: "ok d \<Longrightarrow> b < N \<Longrightarrow>
      \<exists>d'. st_read S ino0 b buf d = Some (0, blocks d b, d') \<and> ok d' \<and> blocks d' = blocks d"
    and write_ok: "ok d \<Longrightarrow> b < N \<Longrightarrow> length blk = BLOCK_SIZE \<Longrightarrow>
      \<exists>d'. st_write S ino0 b blk d = Some (0, d') \<and> ok d' \<and> blocks d' = (blocks d)(b := blk)"
begin

lemma new_fields [simp]: "ts_below (treedisk_new S ino0) = S" "ts_below_ino (treedisk_new S ino0) = ino0"
  by (simp_all add: treedisk_new_def)

lemma get_snapshot:
  assumes "ok d" "tree_inv (blocks d) ni N lev free" "64 * ni < UINT"
  shows "\<exists>d'. treedisk_get_snapshot (treedisk_new S ino0) i d = Some (if i < 64 * ni then
     Some \<lparr>superblock = blocks d 0, inodeblock = blocks d (1 + i div 64), inode_blockno = 1 + i div 64,
           inode = i mod 64\<rparr> else None, d') \<and> ok d' \<and> blocks d' = blocks d"
proof -
  note D = tree_invD [OF assms(2)]
  have N: "0 < N" "i < 64 * ni \<Longrightarrow> 1 + i div 64 < N" using D(3) inode_block_le [of i ni] by linarith+
  obtain d1 where d1: "st_read S ino0 0 null_block d = Some (0, blocks d 0, d1)" "ok d1" "blocks d1 = blocks d"
    using read_ok [OF assms(1) N(1)] by blast
  show ?thesis
  proof (cases "i < 64 * ni")
    case True
    obtain d2 where d2: "st_read S ino0 (1 + i div 64) null_block d1 = Some (0, blocks d (1 + i div 64), d2)" "ok d2"
      "blocks d2 = blocks d" using read_ok [OF d1(2) N(2) [OF True]] d1(3) by auto
    then show ?thesis
      using d1 D(4) assms(3) True by (simp add: treedisk_get_snapshot_def mult.commute Let_def)
  next
    case False
    then show ?thesis using d1 D(4) assms(3) by (simp add: treedisk_get_snapshot_def mult.commute)
  qed
qed

lemma alloc_block:
  assumes "ok d" "superblock s = blocks d 0" "B = (blocks d)(a := v)" "a \<noteq> 0" "a \<notin> set (x # xs)"
    and inv: "tree_inv B ni N lev (x # xs)"
  shows "\<exists>d'. treedisk_alloc_block (treedisk_new S ino0) s d = Some (x, s\<lparr>superblock := blocks d' 0\<rparr>, d')
     \<and> ok d' \<and> (blocks d')(a := v) = pop_free B \<and> blocks d' a = blocks d a"
proof -
  note D = tree_invD [OF inv]
  let ?fl = "free_list (B 0)"
  have B0: "B 0 = blocks d 0" using assms(3,4) by simp
  have fl: "?fl \<in> set (x # xs)" "?fl \<noteq> 0" using D(5) by (cases rule: freelist.cases; auto)+
  then have flN: "?fl < N" "?fl \<noteq> a" "?fl \<noteq> 0" "B ?fl = blocks d ?fl" using D(8) assms(3,5) by auto
  have N0: "0 < N" using D(3) by simp
  have len: "length (blocks d 0) = 512" "length (blocks d ?fl) = 512"
    using D(2) [OF N0] D(2) [OF flN(1)] B0 flN(4) by simp_all
  obtain d0 where d0: "st_read S ino0 ?fl null_block d = Some (0, B ?fl, d0)" "ok d0" "blocks d0 = blocks d"
    using read_ok [OF assms(1) flN(1)] flN(4) by auto
  let ?i = "alloc_scan (B ?fl) 127"
  show ?thesis
  proof (cases "?i = 0")
    case True
    let ?sb = "put32 (blocks d 0) 1 (get32 (B ?fl) 0)"
    obtain d' where d': "st_write S ino0 0 ?sb d0 = Some (0, d')" "ok d'" "blocks d' = (blocks d)(0 := ?sb)"
      using write_ok [OF d0(2) N0, of ?sb] len(1) d0(3) by auto
    have "treedisk_alloc_block (treedisk_new S ino0) s d = Some (?fl, s\<lparr>superblock := ?sb\<rparr>, d')"
      using True d0(1) d'(1) fl(2) by (simp add: treedisk_alloc_block_def Let_def assms(2) B0)
    moreover have "x = ?fl" using freelist_pop_self(1) [OF D(5) True] .
    moreover have "(blocks d')(a := v) = pop_free B"
      using True assms(3,4) d'(3) B0 by (simp add: pop_free_def Let_def fun_upd_twist)
    ultimately show ?thesis using d' assms(4) by auto
  next
    case False
    let ?b = "put32 (B ?fl) ?i 0"
    obtain d' where d': "st_write S ino0 ?fl ?b d0 = Some (0, d')" "ok d'" "blocks d' = (blocks d)(?fl := ?b)"
      using write_ok [OF d0(2) flN(1), of ?b] len(2) flN(4) d0(3) by auto
    have "treedisk_alloc_block (treedisk_new S ino0) s d = Some (get32 (B ?fl) ?i, s, d')"
      using False d0(1) d'(1) fl(2) by (simp add: treedisk_alloc_block_def Let_def assms(2) B0)
    moreover have "x = get32 (B ?fl) ?i" using freelist_pop_ref(1) [OF D(5,6) refl False] len(2) flN(4) by simp
    moreover have "blocks d' 0 = superblock s" using d'(3) flN(3) assms(2) by simp
    moreover have "(blocks d')(a := v) = pop_free B"
      using False assms(3) d'(3) flN(2) by (simp add: pop_free_def Let_def fun_upd_twist)
    ultimately show ?thesis using d' flN(2) by auto
  qed
qed

text \<open>The loop that adds levels on top of the tree of inode \<open>i\<close>.\<close>

lemma grow:
  assumes "ok d" "superblock s = blocks d 0" "inode_blockno s = 1 + i div 64" "inode s = i mod 64"
    and "B = (blocks d)(1 + i div 64 := inodeblock s)" "i < 64 * ni"
    and "tree_inv B ni N lev free" "n \<le> length free"
  shows "\<exists>s' d' B'. write_grow (treedisk_new S ino0) n s d = Some (s', d') \<and> ok d'
     \<and> superblock s' = blocks d' 0 \<and> inode_blockno s' = 1 + i div 64 \<and> inode s' = i mod 64
     \<and> B' = (blocks d')(1 + i div 64 := inodeblock s')
     \<and> tree_inv B' ni N (lev(i := lev i + n)) (drop n free) \<and> same_files B lev B' (lev(i := lev i + n)) ni"
  using assms
proof (induction n arbitrary: d s B lev free)
  case 0
  then show ?case by simp
next
  case (Suc n)
  let ?T = "treedisk_new S ino0" and ?ib = "1 + i div 64"
  from Suc.prems(8) obtain x xs where free: "free = x # xs" by (cases free) auto
  note inv = Suc.prems(7) [unfolded free] and D = tree_invD [OF inv]
  have ib: "?ib \<le> ni" "?ib < N" "?ib \<noteq> 0" using inode_block_le [OF Suc.prems(6)] D(3) by linarith+
  have "?ib \<notin> set (x # xs)" using D(7) [of ?ib] ib(1) by linarith
  from alloc_block [OF Suc.prems(1,2,5) ib(3) this inv] obtain d1 where
    d1: "treedisk_alloc_block ?T s d = Some (x, s\<lparr>superblock := blocks d1 0\<rparr>, d1)" "ok d1"
      "(blocks d1)(?ib := inodeblock s) = pop_free B" by blast
  note P = pop_free_inv [OF inv]
  let ?s = "s\<lparr>superblock := blocks d1 0\<rparr>" and ?tib = "put32 null_block 0 (inode_root s)"
  have x: "x < N" "x \<noteq> ?ib" "x < UINT" "ni < x" using P(3) D(1) ib(1) by (auto simp: unowned_def)
  have lt: "length ?tib = 512" by (simp add: null_block_def)
  obtain d2 where d2: "st_write S ino0 x ?tib d1 = Some (0, d2)" "ok d2" "blocks d2 = (blocks d1)(x := ?tib)"
    using write_ok [OF d1(2) x(1) lt] by auto
  let ?s2 = "set_inode_root x ?s"
  have w: "write_grow ?T (Suc n) s d = write_grow ?T n ?s2 d2"
    using d1(1) d2(1) by (simp add: set_inode_root_def inode_root_def)
  define B1 where "B1 = pop_free B"
  define B2 where "B2 = B1(x := ?tib)"
  have "nd B1 i 0 0 = nd B i 0 0" using P(4) Suc.prems(6) unfolding B1_def by blast
  then have "root_of B1 i = root_of B i" by simp
  moreover have "root_of B i = inode_root s" using Suc.prems(4,5) by (simp add: root_of_def inode_root_def)
  moreover note F = fill_unowned [OF P(1,3) lt, folded B1_def, folded B2_def]
  ultimately have indir: "B2 x = put32 null_block 0 (root_of B2 i)"
    using Suc.prems(6) by (simp add: B2_def)
  let ?B = "put_root i x B2" and ?lev = "lev(i := Suc (lev i))"
  note R = new_root_inv [OF F(1,3) Suc.prems(6) indir]
  have "B1 ?ib = inodeblock s" using d1(3) unfolding B1_def by (metis fun_upd_same)
  then have B3: "?B = (blocks d2)(?ib := inodeblock ?s2)"
    unfolding put_root_def B2_def set_inode_root_def d2(3)
    using x(2) Suc.prems(4) d1(3) [folded B1_def, symmetric] by (simp add: fun_upd_twist)
  have s2: "superblock ?s2 = blocks d2 0" "inode_blockno ?s2 = ?ib" "inode ?s2 = i mod 64"
    using x(4) d2(3) Suc.prems(3,4) by (simp_all add: set_inode_root_def)
  have "n \<le> length xs" using Suc.prems(8) free by simp
  from Suc.IH [OF d2(2) s2 B3 Suc.prems(6) R(1) this] obtain s' d' B' where
    IH: "write_grow ?T n ?s2 d2 = Some (s', d')" "ok d'" "superblock s' = blocks d' 0" "inode_blockno s' = ?ib"
      "inode s' = i mod 64" "B' = (blocks d')(?ib := inodeblock s')"
      "tree_inv B' ni N (?lev(i := ?lev i + n)) (drop n xs)" "same_files ?B ?lev B' (?lev(i := ?lev i + n)) ni"
    by blast
  have lev: "?lev(i := ?lev i + n) = lev(i := lev i + Suc n)" by simp
  have "same_files B lev ?B ?lev ni"
    using P(2) F(2) R(2) same_files_trans unfolding B1_def by blast
  with IH(8) have "same_files B lev B' (lev(i := lev i + Suc n)) ni" unfolding lev by (blast intro: same_files_trans)
  with IH(1-6) IH(7) [unfolded lev] show ?case unfolding w free drop_Suc_Cons by blast
qed

text \<open>One round of the descent.\<close>

lemma walk_step:
  assumes "ok d" "superblock s = blocks d 0" and B: "B = (blocks d)(a := v)" and inv: "tree_inv B ni N lev free"
    and i: "i < 64 * ni" and k: "k \<le> lev i" and sl: "slot B i k q a w" and off: "k = lev i \<longrightarrow> q = off"
    and clean: "get32 v w \<noteq> 0 \<longrightarrow> blocks d a = v" and free: "free \<noteq> []"
  shows "\<exists>b tib s' d' B' free'. write_step (treedisk_new S ino0) (lev i - k) a v w s d = Some (b, tib, s', d')
     \<and> ok d' \<and> superblock s' = blocks d' 0 \<and> b \<noteq> 0 \<and> b = nd B' i k q \<and> tree_inv B' ni N lev free'
     \<and> file_frame i off B B' lev ni \<and> length free \<le> Suc (length free')
     \<and> (if k = lev i then B' = blocks d'
        else B' = (blocks d')(b := tib) \<and> (\<forall>w<128. get32 tib w \<noteq> 0 \<longrightarrow> blocks d' b = tib))"
proof -
  note D = tree_invD [OF inv] and Sl = slot_block [OF inv i k sl]
  let ?T = "treedisk_new S ino0"
  have Ba: "B a = v" using B by simp
  have ref: "get32 v w = nd B i k q" using slot_word [OF sl] Ba by simp
  show ?thesis
  proof (cases "get32 v w = 0")
    case False
    then have d: "B = blocks d" using clean B by auto
    let ?b = "get32 v w"
    have "?b < N" using D(10) [OF i k] False ref by simp
    then obtain d0 where d0: "st_read S ino0 ?b null_block d = Some (0, blocks d ?b, d0)" "ok d0" "blocks d0 = blocks d"
      using read_ok [OF assms(1)] by blast
    let ?tib = "if k = lev i then null_block else blocks d ?b" and ?d = "if k = lev i then d else d0"
    show ?thesis
    proof (intro exI conjI)
      show "write_step ?T (lev i - k) a v w s d = Some (?b, ?tib, s, ?d)"
        using False d0(1) k by (auto simp: write_step_def Let_def)
      show "if k = lev i then B = blocks ?d
        else B = (blocks ?d)(?b := ?tib) \<and> (\<forall>w<128. get32 ?tib w \<noteq> 0 \<longrightarrow> blocks ?d ?b = ?tib)"
        unfolding d using d0(3) by simp
      show "length free \<le> Suc (length free)" by simp
    qed (use False assms(1,2) d0 inv ref in simp_all)
  next
    case True
    obtain x xs where fr: "free = x # xs" using free by (cases free) auto
    note P = pop_free_inv [OF inv [unfolded fr]]
    define B1 where "B1 = pop_free B"
    obtain d1 where d1: "treedisk_alloc_block ?T s d = Some (x, s\<lparr>superblock := blocks d1 0\<rparr>, d1)" "ok d1"
      "(blocks d1)(a := v) = B1"
      using alloc_block [OF assms(1,2) B Sl(1) _ inv [unfolded fr]] Sl(3) fr unfolding B1_def by blast
    have x: "x < N" "x \<noteq> 0" "x \<noteq> 0" "x \<noteq> a"
      using P(3) Sl(3) fr by (auto simp: unowned_def)
    let ?v = "put32 v w x"
    have lv: "length ?v = 512" using D(2) [OF Sl(2)] Ba by simp
    obtain d2 where d2: "st_write S ino0 a ?v d1 = Some (0, d2)" "ok d2" "blocks d2 = (blocks d1)(a := ?v)"
      using write_ok [OF d1(2) Sl(2) lv] by auto
    have ws: "write_step ?T (lev i - k) a v w s d = Some (x, null_block, s\<lparr>superblock := blocks d1 0\<rparr>, d2)"
      using True d1(1) d2(1) by (simp add: write_step_def Let_def)
    have sb: "superblock (s\<lparr>superblock := blocks d1 0\<rparr>) = blocks d2 0" using d2(3) Sl(1) by simp
    define B2 where "B2 = (if k = lev i then B1 else B1(x := null_block))"
    have B2: "tree_inv B2 ni N lev xs" "unowned B2 ni N lev xs x" "same_files B1 lev B2 lev ni"
      "\<forall>j<64 * ni. \<forall>k\<le>lev j. \<forall>p. nd B2 j k p = nd B1 j k p"
      using P(1,3) fill_unowned [OF P(1,3), of null_block] unfolding B2_def B1_def by (auto simp: null_block_def)
    have n2: "nd B2 j l p = nd B j l p" if "j < 64 * ni" "l \<le> lev j" for j l p
      using B2(4) P(4) that unfolding B1_def by simp
    have "slot B2 i k q a w" using sl n2 [OF i] k unfolding slot_def by (auto split: nat.splits)
    moreover have "nd B2 i k q = 0" using n2 [OF i k] ref True by simp
    moreover have "k < lev i \<longrightarrow> B2 x = null_block" by (simp add: B2_def)
    moreover have "B1 a = v" by (simp add: d1(3) [symmetric])
    then have "B2 a = v" using x(4) by (simp add: B2_def)
    ultimately have L: "tree_inv (B2(a := ?v)) ni N lev xs" "nd (B2(a := ?v)) i k q = x"
      "file_frame i off B2 (B2(a := ?v)) lev ni"
      using slot_link [OF B2(1,2) i k _ _ _ off, of a w] by auto
    have "file_frame i off B (B2(a := ?v)) lev ni"
      using P(2) B2(3) L(3) same_files_frame file_frame_trans unfolding B1_def by metis
    moreover have "if k = lev i then B2(a := ?v) = blocks d2
        else B2(a := ?v) = (blocks d2)(x := null_block)
          \<and> (\<forall>w<128. get32 null_block w \<noteq> 0 \<longrightarrow> blocks d2 x = null_block)"
      unfolding B2_def d2(3) d1(3) [symmetric] using x(4) null_words by (auto simp: fun_upd_twist)
    moreover have "length free \<le> Suc (length xs)" using fr by simp
    ultimately show ?thesis
      by (intro exI conjI) (rule ws, rule d2, rule sb, rule x, rule L(2) [symmetric], rule L, assumption+)
  qed
qed

text \<open>The whole descent finds or creates the data block.\<close>

lemma walk:
  assumes "ok d" "superblock s = blocks d 0" "B = (blocks d)(a := v)" "tree_inv B ni N lev free" "i < 64 * ni"
    and "n \<le> lev i" "slot B i (lev i - n) (off div 128 ^ n) a w" "get32 v w \<noteq> 0 \<longrightarrow> blocks d a = v"
    and "n < length free" "lev i \<le> 5"
  shows "\<exists>b d' free'. write_walk (treedisk_new S ino0) off n a v w s d = Some (b, d') \<and> ok d'
     \<and> tree_inv (blocks d') ni N lev free' \<and> b = nd (blocks d') i (lev i) off \<and> b \<noteq> 0
     \<and> file_frame i off B (blocks d') lev ni \<and> length free \<le> length free' + Suc n"
  using assms
proof (induction n arbitrary: d s B a v w free)
  case 0
  have sl: "slot B i (lev i) off a w" using 0(7) by simp
  have "free \<noteq> []" using 0(9) by auto
  from walk_step [OF 0(1-5) order_refl sl _ 0(8) this, of off] obtain b tib s' d' free' where
    st: "write_step (treedisk_new S ino0) 0 a v w s d = Some (b, tib, s', d')" "ok d'" "b \<noteq> 0"
      "b = nd (blocks d') i (lev i) off" "tree_inv (blocks d') ni N lev free'"
      "file_frame i off B (blocks d') lev ni" "length free \<le> Suc (length free')"
    unfolding if_P [OF refl] diff_self_eq_0 by blast
  then show ?case by (intro exI [of _ b] exI [of _ d'] exI [of _ free']) simp
next
  case (Suc m)
  let ?T = "treedisk_new S ino0" and ?k = "lev i - Suc m" and ?q = "off div 128 ^ Suc m"
  have ne: "free \<noteq> []" using Suc.prems(9) by auto
  have kl: "?k \<le> lev i" "?k \<noteq> lev i" "lev i - ?k = Suc m" "Suc ?k = lev i - m" using Suc.prems(6) by auto
  have kq: "?k = lev i \<longrightarrow> ?q = off" using kl(2) by blast
  from walk_step [OF Suc.prems(1-5) kl(1) Suc.prems(7) kq Suc.prems(8) ne]
  obtain b tib s' d' B' free' where
    st: "write_step ?T (Suc m) a v w s d = Some (b, tib, s', d')" "ok d'" "superblock s' = blocks d' 0" "b \<noteq> 0"
      "b = nd B' i ?k ?q" "tree_inv B' ni N lev free'" "file_frame i off B B' lev ni"
      "length free \<le> Suc (length free')" "B' = (blocks d')(b := tib)"
      "\<forall>w<128. get32 tib w \<noteq> 0 \<longrightarrow> blocks d' b = tib"
    unfolding if_not_P [OF kl(2)] kl(3) by blast
  let ?w = "log_shift_r off (m * log_rpb) mod 128"
  have w: "?w = off div 128 ^ m mod 128" using shift_div [of m off] Suc.prems(6,10) by simp
  have "off div 128 ^ m div 128 = ?q" by (simp only: power_Suc2 div_mult2_eq)
  then have sl: "slot B' i (lev i - m) (off div 128 ^ m) b ?w"
    using st(4,5) w unfolding kl(4) [symmetric] slot_def by simp
  have "?w < 128" by simp
  then have cl: "get32 tib ?w \<noteq> 0 \<longrightarrow> blocks d' b = tib" using st(10) by blast
  have m: "m \<le> lev i" "m < length free'" using Suc.prems(6,9) st(8) by auto
  from Suc.IH [OF st(2,3,9,6) Suc.prems(5) m(1) sl cl m(2) Suc.prems(10)] obtain b2 d2 free2 where
    IH: "write_walk ?T off m b tib ?w s' d' = Some (b2, d2)" "ok d2" "tree_inv (blocks d2) ni N lev free2"
      "b2 = nd (blocks d2) i (lev i) off" "b2 \<noteq> 0" "file_frame i off B' (blocks d2) lev ni"
      "length free' \<le> length free2 + Suc m" by blast
  have "write_walk ?T off (Suc m) a v w s d = Some (b2, d2)" using st(1) IH(1) by simp
  moreover have "file_frame i off B (blocks d2) lev ni" using st(7) IH(6) by (rule file_frame_trans)
  moreover have "length free \<le> length free2 + Suc (Suc m)" using st(8) IH(7) by simp
  ultimately show ?case using IH(2-5) by blast
qed

lemma read_walk_content:
  assumes "tree_inv B ni N lev free" "i < 64 * ni" "lev i \<le> 5"
    and "ok d" "blocks d = B" "n \<le> lev i" "b = nd B i (lev i - n) (off div 128 ^ n)"
  shows "\<exists>d'. read_walk (treedisk_new S ino0) off n b buf d = Some (0, content B lev i off, d') \<and> ok d' \<and> blocks d' = B"
  using assms(4-7)
proof (induction n arbitrary: b d buf)
  case 0
  have b: "b = nd B i (lev i) off" using 0(4) by simp
  show ?case
  proof (cases "b = 0")
    case True
    with b 0(1,2) show ?thesis by (subst read_walk.simps) (simp add: content_def)
  next
    case False
    then have "b < N" using tree_invD(10) [OF assms(1,2) order_refl] b by simp
    from read_ok [OF 0(1) this, of buf] False b 0(2) show ?thesis by (subst read_walk.simps) (auto simp: content_def)
  qed
next
  case (Suc m)
  let ?k = "lev i - Suc m"
  show ?case
  proof (cases "b = 0")
    case True
    have "node B (root_of B i) ?k (off div 128 ^ Suc m) = 0" using True Suc.prems(4) by simp
    from node_below_hole [OF this] have "nd B i (lev i) off = 0" using Suc.prems(3) by simp
    with True Suc.prems(1,2) show ?thesis by (subst read_walk.simps) (simp add: content_def)
  next
    case False
    then have bN: "b < N" using tree_invD(10) [OF assms(1,2), of ?k] Suc.prems(4) by simp
    obtain d1 where d1: "st_read S ino0 b buf d = Some (0, B b, d1)" "ok d1" "blocks d1 = B"
      using read_ok [OF Suc.prems(1) bN, of buf] Suc.prems(2) by auto
    let ?w = "log_shift_r off (m * 7) mod 128"
    have w: "?w = off div 128 ^ m mod 128" using shift_div [of m off] Suc.prems(3) assms(3) by simp
    have e: "lev i - m = Suc ?k" using Suc.prems(3) by simp
    have "off div 128 ^ m div 128 = off div 128 ^ Suc m" by (simp only: power_Suc2 div_mult2_eq)
    then have "get32 (B b) ?w = nd B i (lev i - m) (off div 128 ^ m)"
      using False Suc.prems(4) w unfolding e node_Suc [of _ _ ?k] by (simp add: Let_def)
    from Suc.IH [OF d1(2,3) _ this, of "B b"] Suc.prems(3) False d1(1) show ?thesis
      by (subst read_walk.simps) (simp add: Let_def)
  qed
qed

lemma read_spec:
  assumes "ok d" "fs_inv (blocks d) ni N free"
  shows "\<exists>d'. treedisk_read (treedisk_new S ino0) i off buf d =
     (if i < 64 * ni \<and> off < size_of (blocks d) i then Some (0, fblock (blocks d) i off, d') else Some (- 1, buf, d'))
     \<and> ok d' \<and> blocks d' = blocks d"
proof -
  let ?B = "blocks d" and ?T = "treedisk_new S ino0"
  have inv: "tree_inv ?B ni N (heights ?B) free" "64 * ni < UINT" using assms by (auto simp: fs_inv_def)
  obtain d1 where g: "treedisk_get_snapshot ?T i d = Some (if i < 64 * ni then
     Some \<lparr>superblock = ?B 0, inodeblock = ?B (1 + i div 64), inode_blockno = 1 + i div 64, inode = i mod 64\<rparr> else None, d1)"
    "ok d1" "blocks d1 = ?B" using get_snapshot [OF assms(1) inv] by blast
  show ?thesis
  proof (cases "i < 64 * ni \<and> off < size_of ?B i")
    case True
    have w: "get32 (?B (1 + i div 64)) (2 * (i mod 64) + 1) = size_of ?B i"
      "get32 (?B (1 + i div 64)) (2 * (i mod 64)) = root_of ?B i" by (simp_all add: size_of_def root_of_def)
    have h: "tree_levels (size_of ?B i) = heights ?B i" by (simp add: heights_def)
    have "\<exists>d'. read_walk ?T off (heights ?B i) (root_of ?B i) buf d1 = Some (0, fblock ?B i off, d') \<and> ok d' \<and> blocks d' = ?B"
      unfolding fblock_def using True heights_le(1) [of ?B i] heights_le(2) [of off ?B i] g(2,3)
      by (intro read_walk_content [OF inv(1)]) auto
    with True g(1) show ?thesis
      by (simp add: treedisk_read_def inode_nblocks_def inode_root_def w [simplified] h)
  next
    case False
    then show ?thesis using g by (auto simp: treedisk_read_def inode_nblocks_def size_of_def)
  qed
qed

subsection \<open>Writing\<close>

lemma tree_levels_mono: "x \<le> y \<Longrightarrow> y < UINT \<Longrightarrow> tree_levels x \<le> tree_levels y"
  using levels_mono [of "x - 1" "y - 1"] by (simp add: tree_levels_def)

text \<open>The first half of \<^verbatim>\<open>treedisk_write\<close>: size and height are brought up to date.\<close>

lemma write_prepare:
  assumes ok: "ok d" and inv: "fs_inv (blocks d) ni N free" and i: "i < 64 * ni" and off: "off + 1 < UINT"
    and s1: "s1 = (if size_of (blocks d) i \<le> off then set_inode_nblocks (off + 1) s0 else s0)"
    and s0: "s0 = \<lparr>superblock = blocks d 0, inodeblock = blocks d (1 + i div 64), inode_blockno = 1 + i div 64,
           inode = i mod 64\<rparr>"
    and sz: "sz = max (size_of (blocks d) i) (off + 1)" and n: "n = tree_levels sz - tree_levels (size_of (blocks d) i)" "n \<le> length free"
    and lev: "lev = (heights (blocks d))(i := tree_levels sz)"
  shows "\<exists>s d' B. write_grow (treedisk_new S ino0) n s1 d = Some (s, d')
     \<and> ok d' \<and> superblock s = blocks d' 0 \<and> inode_blockno s = 1 + i div 64 \<and> inode s = i mod 64
     \<and> B = (blocks d')(1 + i div 64 := inodeblock s) \<and> tree_inv B ni N lev (drop n free)
     \<and> (\<forall>j<64 * ni. size_of B j = (if j = i then sz else size_of (blocks d) j)
        \<and> (\<forall>p. content B lev j p = fblock (blocks d) j p \<and> nd B j (lev j) p = nd (blocks d) j (heights (blocks d) j) p))"
proof -
  let ?B = "blocks d" and ?ib = "1 + i div 64" and ?h = "heights (blocks d)"
  have T: "tree_inv ?B ni N ?h free" using inv by (auto simp: fs_inv_def)
  have szu: "sz < UINT" using off size_of_less [of ?B i] by (simp add: sz )
  define B1 where "B1 = (if size_of (blocks d) i \<le> off then put_size i sz ?B else ?B)"
  have B1: "B1 = ?B(?ib := inodeblock s1)"
    by (auto simp: B1_def s1 s0 put_size_def set_inode_nblocks_def sz)
  note PS = put_size_inv [OF T i szu]
  have T1: "tree_inv B1 ni N ?h free" using PS(1) T by (simp add: B1_def)
  have s1': "superblock s1 = ?B 0" "inode_blockno s1 = ?ib" "inode s1 = i mod 64"
    by (simp_all add: s1 s0 set_inode_nblocks_def)
  have f1: "size_of B1 j = (if j = i then sz else size_of (blocks d) j)" "content B1 ?h j p = fblock (blocks d) j p"
    "nd B1 j (?h j) p = nd ?B j (?h j) p" if "j < 64 * ni" for j p
    using that PS(2-4) [of j] by (auto simp: B1_def  fblock_def sz)
  have hn: "?h i + n = tree_levels sz"
    using tree_levels_mono [of "size_of (blocks d) i" sz] szu n(1) by (simp add: sz heights_def )
  from grow [OF ok s1' B1 i T1 n(2)] obtain s d' B where
    G: "write_grow (treedisk_new S ino0) n s1 d = Some (s, d')" "ok d'" "superblock s = blocks d' 0"
      "inode_blockno s = ?ib" "inode s = i mod 64" "B = (blocks d')(?ib := inodeblock s)"
      "tree_inv B ni N lev (drop n free)" "same_files B1 ?h B lev ni"
    unfolding hn lev by blast
  have "\<forall>j<64 * ni. size_of B j = (if j = i then sz else size_of (blocks d) j)
        \<and> (\<forall>p. content B lev j p = fblock (blocks d) j p \<and> nd B j (lev j) p = nd ?B j (?h j) p)"
    using G(8) f1 unfolding same_files_def by auto
  with G show ?thesis by blast
qed

text \<open>The inode block is written back whenever it changed.\<close>

lemma write_inode:
  assumes "ok d'" "superblock s = blocks d' 0" "B = (blocks d')(1 + i div 64 := inodeblock s)"
    and "tree_inv B ni N lev free" "i < 64 * ni" "inode_blockno s = 1 + i div 64" "\<not> c \<Longrightarrow> B = blocks d'"
  shows "\<exists>d2. (if c then st_write S ino0 (inode_blockno s) (inodeblock s) d' else Some (0, d')) = Some (0, d2)
     \<and> ok d2 \<and> blocks d2 = B \<and> superblock s = blocks d2 0"
proof (cases c)
  case True
  note D = tree_invD [OF assms(4)]
  have ib: "1 + i div 64 < N" using inode_block_le [OF assms(5)] D(3) by linarith
  have "length (inodeblock s) = 512" using D(2) [OF ib] assms(3) by simp
  from write_ok [OF assms(1) ib this] assms(2,3,6) True show ?thesis by auto
qed (use assms in auto)

text \<open>\<^verbatim>\<open>treedisk_write\<close> with its heights and its number of new levels worked out.\<close>

lemma write_eq:
  assumes ok: "ok d" and inv: "fs_inv (blocks d) ni N free" and i: "i < 64 * ni" and off: "off + 1 < UINT"
    and s1: "s1 = (if size_of (blocks d) i \<le> off then set_inode_nblocks (off + 1) s0 else s0)"
    and s0: "s0 = \<lparr>superblock = blocks d 0, inodeblock = blocks d (1 + i div 64), inode_blockno = 1 + i div 64,
           inode = i mod 64\<rparr>"
    and sz: "sz = max (size_of (blocks d) i) (off + 1)" and n: "n = tree_levels sz - tree_levels (size_of (blocks d) i)"
  shows "\<exists>d0. treedisk_write (treedisk_new S ino0) i off blk d =
       write_commit (treedisk_new S ino0) off n (tree_levels sz) (size_of (blocks d) i \<le> off) blk s1 d0
     \<and> ok d0 \<and> blocks d0 = blocks d"
proof -
  let ?z = "size_of (blocks d) i"
  have I: "tree_inv (blocks d) ni N (heights (blocks d)) free" "64 * ni < UINT"
    using inv by (auto simp: fs_inv_def)
  note D = tree_invD [OF I(1)]
  from get_snapshot [OF ok I, of i] obtain d0 where
    g: "treedisk_get_snapshot (treedisk_new S ino0) i d = Some (Some s0, d0)" "ok d0" "blocks d0 = blocks d"
    unfolding s0 using i by auto
  have ib: "1 + i div 64 < N" using inode_block_le [OF i] D(3) by linarith
  have n0: "inode_nblocks s0 = ?z" by (simp add: s0 inode_nblocks_def size_of_def)
  have "inode_nblocks (set_inode_nblocks (off + 1) s0) = off + 1"
    using D(2) [OF ib] off inode_words(5) [of i]
    by (simp add: s0 inode_nblocks_def set_inode_nblocks_def get32_put32_same)
  then have n1: "inode_nblocks s1 \<noteq> 0" using n0 by (simp add: s1)
  have m: "(off + 1) mod UINT = off + 1" using off by simp
  have a: "(if ?z \<le> off then nlevels_loop off 0 else tree_levels ?z) = tree_levels sz" by (simp add: sz tree_levels_def)
  have "sz < UINT" using off size_of_less [of "blocks d" i] by (simp add: sz)
  then have "tree_levels ?z \<le> tree_levels sz" using tree_levels_mono [of ?z sz] by (simp add: sz)
  then have mx: "max (tree_levels ?z) (tree_levels sz) = tree_levels sz" by simp
  have "treedisk_write (treedisk_new S ino0) i off blk d =
       write_commit (treedisk_new S ino0) off n (tree_levels sz) (?z \<le> off) blk s1 d0"
    unfolding treedisk_write_def g(1) bind.bind_lunit prod.case option.case Let_def n0 m s1 [symmetric] a
      if_not_P [OF n1] mx n [symmetric] by (rule refl)
  with g(2,3) show ?thesis by blast
qed

text \<open>The second half: the data block is found or allocated.\<close>

lemma write_place:
  assumes ok: "ok d" and inv: "fs_inv (blocks d) ni N free" and i: "i < 64 * ni" and off: "off + 1 < UINT" and free: "n + tree_levels sz < length free"
    and s1: "s1 = (if size_of (blocks d) i \<le> off then set_inode_nblocks (off + 1) s0 else s0)"
    and s0: "s0 = \<lparr>superblock = blocks d 0, inodeblock = blocks d (1 + i div 64), inode_blockno = 1 + i div 64,
           inode = i mod 64\<rparr>"
    and sz: "sz = max (size_of (blocks d) i) (off + 1)" and n: "n = tree_levels sz - tree_levels (size_of (blocks d) i)"
    and lev: "lev = (heights (blocks d))(i := tree_levels sz)"
  shows "\<exists>s d1 d2 b d3 free'. write_grow (treedisk_new S ino0) n s1 d = Some (s, d1)
     \<and> (if size_of (blocks d) i \<le> off \<or> n > 0 then st_write S ino0 (inode_blockno s) (inodeblock s) d1 else Some (0, d1)) = Some (0, d2)
     \<and> write_walk (treedisk_new S ino0) off (tree_levels sz) (inode_blockno s) (inodeblock s) (2 * inode s) s d2 = Some (b, d3)
     \<and> ok d3 \<and> tree_inv (blocks d3) ni N lev free' \<and> b = nd (blocks d3) i (lev i) off \<and> b \<noteq> 0
     \<and> length free \<le> length free' + n + tree_levels sz + 1
     \<and> (\<forall>j<64 * ni. size_of (blocks d3) j = (if j = i then sz else size_of (blocks d) j)
        \<and> (\<forall>p. (j, p) \<noteq> (i, off) \<longrightarrow> content (blocks d3) lev j p = fblock (blocks d) j p
              \<and> nd (blocks d3) j (lev j) p = nd (blocks d) j (heights (blocks d) j) p))"
proof -
  let ?T = "treedisk_new S ino0" and ?ib = "1 + i div 64" and ?h = "heights (blocks d)"
  have szu: "sz < UINT" using off size_of_less [of "blocks d" i] by (simp add: sz )
  have L5: "lev i \<le> 5" using levels_spec(1) [of "sz - 1"] szu by (simp add: lev tree_levels_def)
  have n5: "n \<le> length free" using free by simp
  from write_prepare [OF ok inv i off s1 s0 sz n n5 lev] obtain s d1 B where
    G: "write_grow ?T n s1 d = Some (s, d1)" "ok d1" "superblock s = blocks d1 0" "inode_blockno s = ?ib"
      "inode s = i mod 64" "B = (blocks d1)(?ib := inodeblock s)" "tree_inv B ni N lev (drop n free)"
      "\<forall>j<64 * ni. size_of B j = (if j = i then sz else size_of (blocks d) j)
        \<and> (\<forall>p. content B lev j p = fblock (blocks d) j p \<and> nd B j (lev j) p = nd (blocks d) j (?h j) p)" by blast
  let ?c = "size_of (blocks d) i \<le> off \<or> 0 < n"
  have "B = blocks d1" if "\<not> ?c" using that G(1,6) by (auto simp: s1 s0)
  from write_inode [OF G(2,3,6,7) i G(4) this] obtain d2 where
    W: "(if ?c then st_write S ino0 (inode_blockno s) (inodeblock s) d1 else Some (0, d1)) = Some (0, d2)"
      "ok d2" "blocks d2 = B" "superblock s = blocks d2 0" by blast
  have ofl: "off < 128 ^ lev i" using tree_levels_bound [OF szu, of off] by (simp add: lev sz)
  have Bib: "inodeblock s = blocks d2 ?ib" using G(6) W(3) by simp
  then have B2: "B = (blocks d2)(?ib := inodeblock s)" using W(3) by simp
  have sl: "slot B i (lev i - lev i) (off div 128 ^ lev i) ?ib (2 * (i mod 64))" using ofl by (simp add: slot_def)
  have fr: "lev i < length (drop n free)" using free by (simp add: lev)
  from walk [OF W(2,4) B2 G(7) i order_refl sl _ fr L5] Bib obtain b d3 free3 where
    K: "write_walk ?T off (lev i) ?ib (inodeblock s) (2 * (i mod 64)) s d2 = Some (b, d3)" "ok d3"
      "tree_inv (blocks d3) ni N lev free3" "b = nd (blocks d3) i (lev i) off" "b \<noteq> 0"
      "file_frame i off B (blocks d3) lev ni" "length (drop n free) \<le> length free3 + Suc (lev i)" by auto
  have "lev i = tree_levels sz" by (simp add: lev)
  then have "write_walk ?T off (tree_levels sz) (inode_blockno s) (inodeblock s) (2 * inode s) s d2 = Some (b, d3)"
    using K(1) G(4,5) by simp
  moreover have "length free \<le> length free3 + n + tree_levels sz + 1" using K(7) n5 by (simp add: lev)
  moreover have "\<forall>j<64 * ni. size_of (blocks d3) j = (if j = i then sz else size_of (blocks d) j)
        \<and> (\<forall>p. (j, p) \<noteq> (i, off) \<longrightarrow> content (blocks d3) lev j p = fblock (blocks d) j p
              \<and> nd (blocks d3) j (lev j) p = nd (blocks d) j (?h j) p)"
    using K(6) G(8) unfolding file_frame_def by simp
  ultimately show ?thesis using G(1) W(1) K(2-5) by blast
qed

lemma write_spec:
  assumes ok: "ok d" and inv: "fs_inv (blocks d) ni N free" and i: "i < 64 * ni" and off: "off + 1 < UINT"
    and blk: "length blk = BLOCK_SIZE" and free: "write_cost (blocks d) i off \<le> length free"
  shows "\<exists>d' free'. treedisk_write (treedisk_new S ino0) i off blk d = Some (0, d') \<and> ok d' \<and> fs_inv (blocks d') ni N free'
     \<and> length free \<le> length free' + write_cost (blocks d) i off
     \<and> (\<forall>j<64 * ni. size_of (blocks d') j = (if j = i then max (size_of (blocks d) i) (off + 1) else size_of (blocks d) j)
        \<and> (\<forall>p. fblock (blocks d') j p = (if j = i \<and> p = off then blk else fblock (blocks d) j p)))"
proof -
  let ?T = "treedisk_new S ino0" and ?ib = "1 + i div 64" and ?h = "heights (blocks d)"
  have ni: "64 * ni < UINT" and behind: "\<forall>j<64 * ni. \<forall>p. size_of (blocks d) j \<le> p \<longrightarrow> nd (blocks d) j (?h j) p = 0"
    using inv by (auto simp: fs_inv_def )
  define s0 where "s0 = \<lparr>superblock = blocks d 0, inodeblock = blocks d ?ib, inode_blockno = ?ib, inode = i mod 64\<rparr>"
  define s1 where "s1 = (if size_of (blocks d) i \<le> off then set_inode_nblocks (off + 1) s0 else s0)"
  define sz where "sz = max (size_of (blocks d) i) (off + 1)"
  define n where "n = tree_levels sz - tree_levels (size_of (blocks d) i)"
  define lev where "lev = ?h(i := tree_levels sz)"
  from write_eq [OF ok inv i off s1_def s0_def sz_def n_def] obtain d0 where
    E: "treedisk_write ?T i off blk d = write_commit ?T off n (tree_levels sz) (size_of (blocks d) i \<le> off) blk s1 d0"
      "ok d0" and d0: "blocks d0 = blocks d" by blast
  have cost: "write_cost (blocks d) i off = n + tree_levels sz + 1" by (simp add: write_cost_def n_def sz_def Let_def)
  then have fr: "n + tree_levels sz < length free" using free by simp
  from write_place [of d0 ni free i off n sz s1 s0 lev, unfolded d0, OF E(2) inv i off fr s1_def s0_def sz_def n_def lev_def]
  obtain s d1 d2 b d3 free3 where
    G: "write_grow ?T n s1 d0 = Some (s, d1)"
      "(if size_of (blocks d) i \<le> off \<or> n > 0 then st_write S ino0 (inode_blockno s) (inodeblock s) d1 else Some (0, d1)) = Some (0, d2)"
      "write_walk ?T off (tree_levels sz) (inode_blockno s) (inodeblock s) (2 * inode s) s d2 = Some (b, d3)"
    and K: "ok d3" "tree_inv (blocks d3) ni N lev free3" "b = nd (blocks d3) i (lev i) off" "b \<noteq> 0"
      "length free \<le> length free3 + n + tree_levels sz + 1"
    and P: "\<forall>j<64 * ni. size_of (blocks d3) j = (if j = i then sz else size_of (blocks d) j)
        \<and> (\<forall>p. (j, p) \<noteq> (i, off) \<longrightarrow> content (blocks d3) lev j p = fblock (blocks d) j p
              \<and> nd (blocks d3) j (lev j) p = nd (blocks d) j (?h j) p)" by blast
  have "b < N" using tree_invD(10) [OF K(2) i order_refl] K(3,4) by simp
  from write_ok [OF K(1) this blk] obtain d4 where
    F: "st_write S ino0 b blk d3 = Some (0, d4)" "ok d4" "blocks d4 = (blocks d3)(b := blk)" by blast
  have w: "treedisk_write ?T i off blk d = Some (0, d4)"
    unfolding E(1) write_commit_def new_fields G bind.bind_lunit prod.case by (simp add: G(3) F(1))
  note Lf = write_leaf [OF K(2) i K(3,4) blk, folded F(3)]
  have size: "size_of (blocks d4) j = (if j = i then sz else size_of (blocks d) j)" if "j < 64 * ni" for j
    using Lf(2) [OF that] P that by simp
  have hl: "heights (blocks d4) j = lev j" if "j < 64 * ni" for j
    using size [OF that] by (simp add: heights_def lev_def )
  have T4: "tree_inv (blocks d4) ni N (heights (blocks d4)) free3" using tree_inv_levels [OF Lf(1)] hl by blast
  have c4: "fblock (blocks d4) j p = (if j = i \<and> p = off then blk else fblock (blocks d) j p)" if "j < 64 * ni" for j p
  proof -
    have "fblock (blocks d4) j p = content (blocks d4) lev j p" by (simp add: fblock_def content_def hl [OF that])
    with Lf(4) [OF that, of p] P that show ?thesis by auto
  qed
  have b4: "nd (blocks d4) j (heights (blocks d4) j) p = 0" if "j < 64 * ni" "size_of (blocks d4) j \<le> p" for j p
  proof -
    have "(j, p) \<noteq> (i, off)" "size_of (blocks d) j \<le> p" using that(2) size [OF that(1)] by (auto simp: sz_def split: if_splits)
    with Lf(3) [OF that(1), of p] hl [OF that(1)] P behind that(1) show ?thesis by auto
  qed
  have "fs_inv (blocks d4) ni N free3" unfolding fs_inv_def using T4 ni b4 by blast
  moreover have "\<forall>j<64 * ni. size_of (blocks d4) j = (if j = i then max (size_of (blocks d) i) (off + 1) else size_of (blocks d) j)
        \<and> (\<forall>p. fblock (blocks d4) j p = (if j = i \<and> p = off then blk else fblock (blocks d) j p))"
    using size c4 by (simp add:  sz_def)
  moreover have "length free \<le> length free3 + write_cost (blocks d) i off" using K(5) cost by simp
  ultimately show ?thesis using w F(2) by blast
qed

text \<open>The same as a refinement: a store of files, one of which is written.\<close>

lemma write_files_cost:
  assumes "ok d" "fs_inv (blocks d) ni N free" "i < 64 * ni" "off + 1 < UINT" "length blk = BLOCK_SIZE" "write_cost (blocks d) i off \<le> length free"
  shows "\<exists>d' free'. treedisk_write (treedisk_new S ino0) i off blk d = Some (0, d') \<and> ok d'
     \<and> fs_inv (blocks d') ni N free' \<and> length free \<le> length free' + write_cost (blocks d) i off
     \<and> (\<forall>j<64 * ni. file_of (blocks d') j =
          (if j = i then file_write (file_of (blocks d) i) off blk else file_of (blocks d) j))"
proof -
  from write_spec [OF assms] obtain d' free' where
    W: "treedisk_write (treedisk_new S ino0) i off blk d = Some (0, d')" "ok d'" "fs_inv (blocks d') ni N free'"
      "length free \<le> length free' + write_cost (blocks d) i off"
      "\<forall>j<64 * ni. size_of (blocks d') j = (if j = i then max (size_of (blocks d) i) (off + 1) else size_of (blocks d) j)
        \<and> (\<forall>p. fblock (blocks d') j p = (if j = i \<and> p = off then blk else fblock (blocks d) j p))" by blast
  have "file_of (blocks d') i = file_write (file_of (blocks d) i) off blk"
    using W(5) assms(3) by (intro file_of_write [OF assms(2,3)]) auto
  moreover have "file_of (blocks d') j = file_of (blocks d) j" if "j < 64 * ni" "j \<noteq> i" for j
    using W(5) that by (simp add: file_of_def)
  ultimately show ?thesis using W(1-4) by auto
qed

lemma write_files:
  assumes "ok d" "fs_inv (blocks d) ni N free" "i < 64 * ni" "off + 1 < UINT" "length blk = BLOCK_SIZE" "11 \<le> length free"
  shows "\<exists>d' free'. treedisk_write (treedisk_new S ino0) i off blk d = Some (0, d') \<and> ok d'
     \<and> fs_inv (blocks d') ni N free' \<and> length free \<le> length free' + 11
     \<and> (\<forall>j<64 * ni. file_of (blocks d') j =
          (if j = i then file_write (file_of (blocks d) i) off blk else file_of (blocks d) j))"
proof -
  have "write_cost (blocks d) i off \<le> 11" using assms(4) by (rule write_cost_le)
  then show ?thesis using write_files_cost [OF assms(1-5)] assms(6) by fastforce
qed

lemma read_file:
  assumes "ok d" "fs_inv (blocks d) ni N free"
  shows "\<exists>d'. treedisk_read (treedisk_new S ino0) i off buf d =
     (if i < 64 * ni \<and> off < length (file_of (blocks d) i) then Some (0, file_of (blocks d) i ! off, d')
      else Some (- 1, buf, d')) \<and> ok d' \<and> blocks d' = blocks d"
proof -
  obtain d' where "treedisk_read (treedisk_new S ino0) i off buf d =
     (if i < 64 * ni \<and> off < size_of (blocks d) i then Some (0, fblock (blocks d) i off, d') else Some (- 1, buf, d'))"
    "ok d'" "blocks d' = blocks d" using read_spec [OF assms] by blast
  then show ?thesis by (intro exI [of _ d']) (simp add: file_of_def)
qed

lemma getsize_file:
  assumes "ok d" "fs_inv (blocks d) ni N free" "i < 64 * ni"
  shows "\<exists>d'. treedisk_getsize (treedisk_new S ino0) i d = Some (int_of_u32 (length (file_of (blocks d) i)), d')
     \<and> ok d' \<and> blocks d' = blocks d"
  using get_snapshot [OF assms(1), of ni "heights (blocks d)" free i] assms(2,3)
  by (auto simp: treedisk_getsize_def fs_inv_def inode_nblocks_def file_of_def size_of_def)

end

end
