(* ===== verification/Treedisk_Create.thy ===== *)
theory Treedisk_Create
  imports Treedisk_Correct
begin

section \<open>A new file system\<close>

text \<open>
  \<^verbatim>\<open>treedisk_create\<close> on a store that holds no file system yet: the free list built by
  \<^verbatim>\<open>setup_freelist\<close> has every data block once, and all files are empty.
\<close>

subsection \<open>Blocks of references\<close>

lemma nth_concat_map4:
  "(\<forall>x. length (f x) = 4) \<Longrightarrow> i < length xs \<Longrightarrow> k < 4 \<Longrightarrow> concat (map f xs) ! (4 * i + k) = f (xs ! i) ! k"
proof (induction xs arbitrary: i)
  case (Cons x xs)
  show ?case
  proof (cases i)
    case (Suc j)
    with Cons have "concat (map f xs) ! (4 * j + k) = f (xs ! j) ! k" by simp
    with Suc Cons.prems(1) show ?thesis by (simp add: nth_append)
  qed (use Cons.prems in \<open>simp add: nth_append\<close>)
qed simp

lemma length_refs_block [simp]: "length (refs_block rs) = 4 * length rs"
  by (induction rs) (simp_all add: refs_block_def)

lemma get32_refs_block:
  assumes "i < length rs"
  shows "get32 (refs_block rs) i = rs ! i mod UINT"
proof -
  let ?f = "\<lambda>v. [of_nat v, of_nat (v div 256), of_nat (v div 65536), of_nat (v div 16777216)] :: byte list"
  have "refs_block rs ! (4 * i + k) = ?f (rs ! i) ! k" if "k < 4" for k
    unfolding refs_block_def using nth_concat_map4 [of ?f i rs k] assms that by simp
  from this [of 0] this [of 1] this [of 2] this [of 3] show ?thesis
    by (simp add: get32_def unat_byte_of_nat le32_split numeral_2_eq_2 numeral_3_eq_3)
qed

text \<open>One block of the new free list: the next block of the list, then the blocks it lists.\<close>

lemma freelist_block:
  assumes "0 < nf" "nf < nb" "nb < UINT" "fb < UINT" "la = min nb (nf + 128)"
    and "b = refs_block (fb # [nf + 1..<la] @ replicate (128 - (la - nf)) 0)"
  shows "length b = 512" "get32 b 0 = fb" "free_refs b = rev [nf + 1..<la]"
proof -
  define rs where "rs = fb # [nf + 1..<la] @ replicate (128 - (la - nf)) 0"
  have b: "b = refs_block rs" by (simp only: assms(6) rs_def)
  have len: "length rs = 128" using assms(1,2,5) by (auto simp: rs_def)
  then show "length b = 512" by (simp add: b)
  have small: "r < UINT" if "r \<in> set rs" for r using that assms(3,4,5) by (auto simp: rs_def min_def split: if_splits)
  have get: "get32 b i = rs ! i" if "i < 128" for i
    using get32_refs_block [of i rs] small [OF nth_mem, of i] that len by (simp add: b)
  show "get32 b 0 = fb" using get [of 0] by (simp add: rs_def)
  have "map (get32 b) [1..<128] = map (\<lambda>i. rs ! i) [1..<128]" using get by simp
  also have "\<dots> = tl (map (\<lambda>i. rs ! i) [0..<128])" by (simp only: map_tl [symmetric] tl_upt One_nat_def)
  also have "\<dots> = tl rs" using map_nth [of rs] len by simp
  finally have "map (get32 b) [1..<128] = tl rs" .
  moreover have "filter (\<lambda>x. x \<noteq> 0) (tl rs) = [nf + 1..<la]" by (simp add: rs_def filter_id_conv)
  ultimately show "free_refs b = rev [nf + 1..<la]" by (simp only: free_refs_def)
qed

subsection \<open>Creation\<close>

lemma node_no_root: "node B 0 k p = 0"
  by (induction k arbitrary: p) (simp_all add: node_Suc)

text \<open>A fresh file system: superblock, null inode blocks and a free list of the rest.\<close>

lemma fresh_fs_inv:
  assumes len: "\<forall>b<N. length (B b) = BLOCK_SIZE" and N: "N < UINT" "ni < N" "64 * ni < UINT"
    and sb: "n_inodeblocks (B 0) = ni" "freelist B (free_list (B 0)) free" "distinct free" "\<forall>b\<in>set free. ni < b \<and> b < N"
    and null: "\<forall>b. 1 \<le> b \<and> b \<le> ni \<longrightarrow> B b = null_block"
  shows "fs_inv B ni N free" "\<forall>i<64 * ni. file_of B i = []"
proof -
  have z: "root_of B i = 0" "size_of B i = 0" if "i < 64 * ni" for i
  proof -
    have "B (1 + i div 64) = null_block" using null inode_block_le [OF that] by simp
    then show "root_of B i = 0" "size_of B i = 0"
      unfolding root_of_def size_of_def null_block_def
      using inode_words(4,5) [of i] get32_replicate0 [of _ 512] by metis+
  qed
  then show "\<forall>i<64 * ni. file_of B i = []" by (simp add: file_of_def)
  have "nd B i k p = 0" if "i < 64 * ni" for i k p using z(1) [OF that] node_no_root by simp
  then show "fs_inv B ni N free" unfolding fs_inv_def tree_inv_def using assms by simp
qed

context block_store
begin

lemma setup_freelist_loop_ok:
  assumes "ok d" "freelist (blocks d) fb fs" "distinct fs" "set fs \<subseteq> {..<nf}" "0 < nf" "nf \<le> N" "fb < UINT"
  shows "\<exists>fl d' free. setup_freelist_loop S ino0 fb nf N d = Some (fl, d') \<and> ok d' \<and> fl < UINT
     \<and> freelist (blocks d') fl free \<and> distinct free \<and> set free = set fs \<union> {nf..<N} \<and> (\<forall>b<nf. blocks d' b = blocks d b)"
  using assms
proof (induction "N - nf" arbitrary: fb nf fs d rule: less_induct)
  case less
  show ?case
  proof (cases "nf < N")
    case False
    then have "setup_freelist_loop S ino0 fb nf N d = Some (fb, d)" by (subst setup_freelist_loop.simps) simp
    with less.prems False show ?thesis by (intro exI [of _ fb] exI [of _ d] exI [of _ fs]) auto
  next
    case True
    have Nu: "N < UINT" using size_less by simp
    let ?la = "min N (nf + 128)"
    let ?b = "refs_block (fb # [nf + 1..<?la] @ replicate (128 - (?la - nf)) 0)"
    note F = freelist_block [OF less.prems(5) True Nu less.prems(7) refl refl]
    obtain d1 where d1: "st_write S ino0 nf ?b d = Some (0, d1)" "ok d1" "blocks d1 = (blocks d)(nf := ?b)"
      using write_ok [OF less.prems(1) True F(1)] by blast
    have step: "setup_freelist_loop S ino0 fb nf N d = setup_freelist_loop S ino0 nf ?la N d1"
      using True d1(1) by (subst setup_freelist_loop.simps) (simp add: Let_def)
    let ?fs = "rev [nf + 1..<?la] @ nf # fs"
    have "nf \<notin> set fs" using less.prems(4) by auto
    then have "freelist (blocks d1) fb fs" using d1(3) by (intro freelist_frame [OF less.prems(2)]) auto
    then have fl: "freelist (blocks d1) nf ?fs"
      using freelist.link [of nf "blocks d1" fs] F(2,3) less.prems(5) d1(3) by simp
    have ds: "distinct ?fs" "set ?fs \<subseteq> {..<?la}" "set ?fs = set fs \<union> {nf..<?la}"
      using less.prems(3,4) True by auto
    have la: "N - ?la < N - nf" "0 < ?la" "?la \<le> N" "nf < UINT" using True Nu by auto
    from less.hyps [OF la(1) d1(2) fl ds(1,2) la(2-4)] obtain fl d' free where
      IH: "setup_freelist_loop S ino0 nf ?la N d1 = Some (fl, d')" "ok d'" "fl < UINT" "freelist (blocks d') fl free"
        "distinct free" "set free = set ?fs \<union> {?la..<N}" "\<forall>b<?la. blocks d' b = blocks d1 b" by blast
    have "set free = set fs \<union> {nf..<N}" unfolding IH(6) ds(3) using True by auto
    moreover have "\<forall>b<nf. blocks d' b = blocks d b" using IH(7) d1(3) True by auto
    ultimately show ?thesis unfolding step using IH(1-5) by blast
  qed
qed

lemma clear_inodes_ok:
  assumes "ok d" "i + n \<le> N"
  shows "\<exists>d'. clear_inodes S ino0 i n d = Some (0, d') \<and> ok d'
     \<and> blocks d' = (\<lambda>b. if i \<le> b \<and> b < i + n then null_block else blocks d b)"
  using assms
proof (induction n arbitrary: i d)
  case (Suc n)
  have l: "length null_block = BLOCK_SIZE" by (simp add: null_block_def)
  obtain d1 where d1: "st_write S ino0 i null_block d = Some (0, d1)" "ok d1" "blocks d1 = (blocks d)(i := null_block)"
    using write_ok [OF Suc.prems(1) _ l, of i] Suc.prems(2) by auto
  from Suc.IH [OF d1(2), of "i + 1"] Suc.prems(2) obtain d' where
    "clear_inodes S ino0 (i + 1) n d1 = Some (0, d')" "ok d'"
    "blocks d' = (\<lambda>b. if i + 1 \<le> b \<and> b < i + 1 + n then null_block else blocks d1 b)" by auto
  with d1(1,3) show ?case by (intro exI [of _ d']) (auto simp: fun_eq_iff)
qed (auto simp: fun_eq_iff)

text \<open>The first part of \<^verbatim>\<open>treedisk_create\<close>: the size and the old superblock.\<close>

lemma create_begin:
  assumes "ok d" "ninodes + 63 < UINT" "nib = (ninodes + 63) div 64" "nib + 2 \<le> N"
  shows "\<exists>d'. treedisk_create S ino0 ninodes d = (if n_inodeblocks (blocks d 0) = 0 then
       do { (fl, d) \<leftarrow> setup_freelist S ino0 (nib + 1) N d';
            (rc, d) \<leftarrow> st_write S ino0 0 (put32 (put32 null_block 0 nib) 1 fl) d;
            if rc < 0 then Some (- 1, d) else clear_inodes S ino0 1 nib d }
     else Some (0, d')) \<and> ok d' \<and> blocks d' = blocks d"
proof -
  have N: "N < UINT" "0 < N" using size_less assms(4) by auto
  obtain d1 where d1: "st_getsize S ino0 d = Some (int N, d1)" "ok d1" "blocks d1 = blocks d"
    using size_ok [OF assms(1)] by blast
  obtain d2 where d2: "st_read S ino0 0 null_block d1 = Some (0, blocks d 0, d2)" "ok d2" "blocks d2 = blocks d"
    using read_ok [OF d1(2) N(2)] d1(3) by auto
  have "u32_of_int (int N) = N" using N(1) by (simp add: u32_of_int_def)
  moreover have "(ninodes + 64 - 1) mod UINT div 64 = nib" "(nib + 2) mod UINT = nib + 2"
    using assms(2-4) N(1) by simp_all
  ultimately show ?thesis using d1(1) d2 assms(4) by (intro exI [of _ d2]) (simp add: treedisk_create_def Let_def)
qed

lemma create_spec:
  assumes "ok d" "ninodes + 63 < UINT" "nib = (ninodes + 63) div 64" "nib + 2 \<le> N" "n_inodeblocks (blocks d 0) = 0"
  shows "\<exists>d' free. treedisk_create S ino0 ninodes d = Some (0, d') \<and> ok d' \<and> fs_inv (blocks d') nib N free
     \<and> distinct free \<and> set free = {nib + 1..<N} \<and> (\<forall>i<64 * nib. file_of (blocks d') i = [])"
proof -
  have N: "N < UINT" "0 < N" "nib < N" "nib + 1 \<le> N" using size_less assms(4) by auto
  from create_begin [OF assms(1-4)] assms(5) obtain d0 where
    E: "treedisk_create S ino0 ninodes d = do { (fl, d) \<leftarrow> setup_freelist S ino0 (nib + 1) N d0;
            (rc, d) \<leftarrow> st_write S ino0 0 (put32 (put32 null_block 0 nib) 1 fl) d;
            if rc < 0 then Some (- 1, d) else clear_inodes S ino0 1 nib d }" "ok d0" by auto
  from setup_freelist_loop_ok [OF E(2) freelist.nil distinct.simps(1) [THEN iffD2, OF TrueI] _ _ N(4)]
  obtain fl d1 free where
    F: "setup_freelist S ino0 (nib + 1) N d0 = Some (fl, d1)" "ok d1" "fl < UINT" "freelist (blocks d1) fl free"
      "distinct free" "set free = {nib + 1..<N}" unfolding setup_freelist_def by auto
  let ?sb = "put32 (put32 null_block 0 nib) 1 fl"
  have sb: "length ?sb = BLOCK_SIZE" by (simp add: null_block_def)
  obtain d2 where d2: "st_write S ino0 0 ?sb d1 = Some (0, d2)" "ok d2" "blocks d2 = (blocks d1)(0 := ?sb)"
    using write_ok [OF F(2) N(2) sb] by blast
  obtain d3 where d3: "clear_inodes S ino0 1 nib d2 = Some (0, d3)" "ok d3"
    "blocks d3 = (\<lambda>b. if 1 \<le> b \<and> b < 1 + nib then null_block else blocks d2 b)"
    using clear_inodes_ok [OF d2(2), of 1 nib] N(4) by auto
  have n: "n_inodeblocks (blocks d3 0) = nib" "free_list (blocks d3 0) = fl"
    using N F(3) by (simp_all add: d3(3) d2(3) n_inodeblocks_def free_list_def get32_put32_same get32_put32_other null_block_def)
  have "freelist (blocks d3) fl free"
    using F(6) by (intro freelist_frame [OF F(4)]) (auto simp: d3(3) d2(3))
  moreover have "64 * nib < UINT" using assms(2,3) by simp
  moreover have "\<forall>b<N. length (blocks d3 b) = BLOCK_SIZE" using block_length [OF d3(2)] by blast
  moreover have "\<forall>b. 1 \<le> b \<and> b \<le> nib \<longrightarrow> blocks d3 b = null_block" by (simp add: d3(3))
  ultimately have I: "fs_inv (blocks d3) nib N free" "\<forall>i<64 * nib. file_of (blocks d3) i = []"
    using fresh_fs_inv [of N "blocks d3" nib free] N n F(5,6) by auto
  have "treedisk_create S ino0 ninodes d = Some (0, d3)"
    unfolding E(1) F(1) bind.bind_lunit prod.case d2(1) using d3(1) by simp
  with I d3(2) F(5,6) show ?thesis by blast
qed

lemma create_existing:
  assumes "ok d" "ninodes + 63 < UINT" "(ninodes + 63) div 64 + 2 \<le> N" "n_inodeblocks (blocks d 0) \<noteq> 0"
  shows "\<exists>d'. treedisk_create S ino0 ninodes d = Some (0, d') \<and> ok d' \<and> blocks d' = blocks d"
  using create_begin [OF assms(1,2) refl assms(3)] assms(4) by auto

subsection \<open>A full store\<close>

lemma walk_full:
  assumes "free_list (superblock s) = 0" "tree_inv B ni N lev free" "i < 64 * ni" "lev i \<le> 5" "nd B i (lev i) off = 0"
    and "ok d" "blocks d = B" "n \<le> lev i" "slot B i (lev i - n) (off div 128 ^ n) a w"
  shows "write_walk (treedisk_new S ino0) off n a (B a) w s d = None"
  using assms(6-9)
proof (induction n arbitrary: a w d)
  case 0
  then have "get32 (B a) w = 0" using slot_word assms(5) by fastforce
  then show ?case by (simp add: write_step_def treedisk_alloc_block_def assms(1))
next
  case (Suc n)
  let ?b = "get32 (B a) w" and ?T = "treedisk_new S ino0" and ?k = "lev i - Suc n"
  let ?w = "log_shift_r off (n * log_rpb) mod 128"
  show ?case
  proof (cases "?b = 0")
    case True
    then show ?thesis by (simp add: write_step_def treedisk_alloc_block_def assms(1))
  next
    case False
    have b: "?b = nd B i ?k (off div 128 ^ Suc n)" by (rule slot_word [OF Suc.prems(4)])
    then have "?b < N" using tree_invD(10) [OF assms(2,3), of ?k] False by simp
    then obtain d1 where d1: "st_read S ino0 ?b null_block d = Some (0, B ?b, d1)" "ok d1" "blocks d1 = B"
      using read_ok [OF Suc.prems(1)] Suc.prems(2) by blast
    then have st: "write_step ?T (Suc n) a (B a) w s d = Some (?b, B ?b, s, d1)"
      using False by (simp add: write_step_def Let_def)
    have w: "?w = off div 128 ^ n mod 128" using shift_div [of n off] Suc.prems(3) assms(4) by simp
    have "off div 128 ^ n div 128 = off div 128 ^ Suc n" by (simp only: power_Suc2 div_mult2_eq)
    moreover have "lev i - n = Suc ?k" using Suc.prems(3) by simp
    ultimately have "slot B i (lev i - n) (off div 128 ^ n) ?b ?w"
      using b False w by (simp add: slot_def)
    from Suc.IH [OF d1(2,3) _ this] Suc.prems(3) show ?thesis by (simp add: st)
  qed
qed

lemma write_full:
  assumes ok: "ok d" and inv: "fs_inv (blocks d) ni N []" and i: "i < 64 * ni" and off: "off + 1 < UINT"
    and hole: "nd (blocks d) i (heights (blocks d) i) off = 0"
  shows "treedisk_write (treedisk_new S ino0) i off blk d = None"
proof -
  let ?T = "treedisk_new S ino0" and ?ib = "1 + i div 64" and ?h = "heights (blocks d)"
  define s0 where "s0 = \<lparr>superblock = blocks d 0, inodeblock = blocks d ?ib, inode_blockno = ?ib, inode = i mod 64\<rparr>"
  define s1 where "s1 = (if size_of (blocks d) i \<le> off then set_inode_nblocks (off + 1) s0 else s0)"
  define sz where "sz = max (size_of (blocks d) i) (off + 1)"
  define n where "n = tree_levels sz - tree_levels (size_of (blocks d) i)"
  define lev where "lev = ?h(i := tree_levels sz)"
  have T: "tree_inv (blocks d) ni N ?h []" using inv by (simp add: fs_inv_def)
  from tree_invD(5) [OF T] have fl: "free_list (blocks d 0) = 0" by (cases rule: freelist.cases) auto
  from write_eq [OF ok inv i off s1_def s0_def sz_def n_def] obtain d0 where
    E: "treedisk_write ?T i off blk d = write_commit ?T off n (tree_levels sz) (size_of (blocks d) i \<le> off) blk s1 d0"
      "ok d0" and d0: "blocks d0 = blocks d" by blast
  show ?thesis
  proof (cases n)
    case (Suc m)
    have "superblock s1 = blocks d 0" by (simp add: s1_def s0_def set_inode_nblocks_def)
    then have "treedisk_alloc_block ?T s1 d0 = None" using fl by (simp add: treedisk_alloc_block_def)
    then show ?thesis unfolding E(1) write_commit_def Suc by simp
  next
    case 0
    from write_prepare [of d0 ni "[]" i off s1 s0 sz n lev, unfolded d0, OF E(2) inv i off s1_def s0_def sz_def n_def _ lev_def]
      0 obtain s d1 B where
      G: "write_grow ?T n s1 d0 = Some (s, d1)" "ok d1" "superblock s = blocks d1 0" "inode_blockno s = ?ib"
        "inode s = i mod 64" "B = (blocks d1)(?ib := inodeblock s)" "tree_inv B ni N lev []"
        "nd B i (lev i) off = 0" using hole i by auto
    have d1: "d1 = d0" "s = s1" using G(1) 0 by simp_all
    let ?c = "size_of (blocks d) i \<le> off \<or> 0 < n"
    have "B = blocks d1" if "\<not> ?c" using that G(6) d1 d0 by (simp add: s1_def s0_def)
    from write_inode [OF G(2,3,6,7) i G(4) this] obtain d2 where
      W: "(if ?c then st_write S ino0 (inode_blockno s) (inodeblock s) d1 else Some (0, d1)) = Some (0, d2)"
        "ok d2" "blocks d2 = B" "superblock s = blocks d2 0" by blast
    have szu: "sz < UINT" using off size_of_less [of "blocks d" i] by (simp add: sz_def)
    have L5: "lev i \<le> 5" using levels_spec(1) [of "sz - 1"] szu by (simp add: lev_def tree_levels_def)
    have "off < 128 ^ lev i" using tree_levels_bound [OF szu, of off] by (simp add: lev_def sz_def)
    then have sl: "slot B i (lev i - lev i) (off div 128 ^ lev i) ?ib (2 * (i mod 64))" by (simp add: slot_def)
    have "free_list (superblock s) = 0" using G(3) d1 d0 fl by simp
    from walk_full [OF this G(7) i L5 G(8) W(2,3) order_refl sl]
    have "write_walk ?T off (tree_levels sz) ?ib (inodeblock s) (2 * (i mod 64)) s d2 = None"
      using G(6) by (simp add: lev_def)
    then show ?thesis
      unfolding E(1) write_commit_def new_fields G(1) bind.bind_lunit prod.case W(1) by (simp add: G(4,5))
  qed
qed

end

end
