(* ===== verification/Ramdisk.thy ===== *)
theory Ramdisk
  imports Treedisk_Create
begin

section \<open>The file system on a disk image\<close>

text \<open>
  The inode store of \<^verbatim>\<open>tools/mkfs.c\<close>: the array \<^verbatim>\<open>fs\<close> of \<^verbatim>\<open>FS_DISK_SIZE\<close> bytes with
  \<^verbatim>\<open>ramread\<close> and \<^verbatim>\<open>ramwrite\<close>, and \<open>block_store\<close> interpreted on it. The byte offset of a block
  is an \<^verbatim>\<open>unsigned int\<close> product. A block number behind the end of the array is undefined in C;
  here it reads as a short block, and none of the statements below depends on it.
\<close>

abbreviation (input) FS_DISK_SIZE :: nat where "FS_DISK_SIZE \<equiv> 2097152"

definition ramread :: "nat \<Rightarrow> nat \<Rightarrow> block \<Rightarrow> byte list \<Rightarrow> (int \<times> block \<times> byte list) option" where
  "ramread ino offset block fs = Some (0, take BLOCK_SIZE (drop (offset * BLOCK_SIZE mod UINT) fs), fs)"

definition ramwrite :: "nat \<Rightarrow> nat \<Rightarrow> block \<Rightarrow> byte list \<Rightarrow> (int \<times> byte list) option" where
  "ramwrite ino offset block fs = (let a = offset * BLOCK_SIZE mod UINT in
     Some (0, take a fs @ take BLOCK_SIZE block @ drop (a + BLOCK_SIZE) fs))"

definition getsize :: "nat \<Rightarrow> byte list \<Rightarrow> (int \<times> byte list) option" where
  "getsize ino fs = Some (int (FS_DISK_SIZE div BLOCK_SIZE), fs)"

text \<open>\<^verbatim>\<open>assert(0)\<close>.\<close>

definition setsize :: "nat \<Rightarrow> nat \<Rightarrow> byte list \<Rightarrow> (int \<times> byte list) option" where
  "setsize ino nblocks fs = None"

definition ramdisk_init :: "byte list inode_store" where
  "ramdisk_init = \<lparr>st_getsize = getsize, st_setsize = setsize, st_read = ramread, st_write = ramwrite\<rparr>"

definition ram_blocks :: "byte list \<Rightarrow> blocks" where
  "ram_blocks fs b = take BLOCK_SIZE (drop (BLOCK_SIZE * b) fs)"

definition ram_ok :: "byte list \<Rightarrow> bool" where
  "ram_ok fs \<longleftrightarrow> length fs = FS_DISK_SIZE"

lemma slice_update:
  assumes "length ys = n" "n * j + n \<le> length xs"
  shows "take n (drop (n * i) (take (n * j) xs @ ys @ drop (n * j + n) xs)) =
     (if i = j then ys else take n (drop (n * i) xs))"
proof -
  define zs where "zs = take (n * j) xs @ ys @ drop (n * j + n) xs"
  have len: "length zs = length xs" using assms by (simp add: zs_def)
  have at: "zs ! k = (if n * j \<le> k \<and> k < n * j + n then ys ! (k - n * j) else xs ! k)" if "k < length xs" for k
    using assms that by (auto simp: zs_def nth_append)
  show ?thesis
  proof (cases "i = j")
    case True
    then show ?thesis using assms by simp
  next
    case False
    have out: "\<not> (n * j \<le> n * i + k \<and> n * i + k < n * j + n)" if "k < n" for k
    proof (cases "i < j")
      case True
      then have "n * i + n \<le> n * j" by (metis Suc_leI mult_Suc_right mult_le_mono2 add.commute)
      with that show ?thesis by simp
    next
      case False
      with \<open>i \<noteq> j\<close> have "n * j + n \<le> n * i" by (metis Suc_leI linorder_neqE_nat mult_Suc_right mult_le_mono2 add.commute)
      then show ?thesis by simp
    qed
    have "take n (drop (n * i) zs) = take n (drop (n * i) xs)"
    proof (rule nth_equalityI)
      show "length (take n (drop (n * i) zs)) = length (take n (drop (n * i) xs))" unfolding length_take length_drop len ..
      fix k assume "k < length (take n (drop (n * i) zs))"
      then have k: "k < n" "n * i + k < length xs" unfolding length_take length_drop len by auto
      then show "take n (drop (n * i) zs) ! k = take n (drop (n * i) xs) ! k"
        using at [OF k(2)] out [OF k(1)] len by simp
    qed
    with False show ?thesis by (simp only: zs_def if_False)
  qed
qed

interpretation ram: block_store ramdisk_init 0 "FS_DISK_SIZE div BLOCK_SIZE" ram_blocks ram_ok
proof unfold_locales
  fix fs :: "byte list" and b :: nat and blk buf :: block
  assume ok: "ram_ok fs"
  show "\<exists>d'. st_getsize ramdisk_init 0 fs = Some (int (FS_DISK_SIZE div BLOCK_SIZE), d') \<and> ram_ok d'
      \<and> ram_blocks d' = ram_blocks fs" using ok by (simp add: ramdisk_init_def getsize_def)
  assume b: "b < FS_DISK_SIZE div BLOCK_SIZE"
  have m: "b * 512 mod UINT = 512 * b" using b by simp
  show "length (ram_blocks fs b) = BLOCK_SIZE" using ok b by (simp add: ram_ok_def ram_blocks_def)
  show "\<exists>d'. st_read ramdisk_init 0 b buf fs = Some (0, ram_blocks fs b, d') \<and> ram_ok d' \<and> ram_blocks d' = ram_blocks fs"
    using ok by (simp add: ramdisk_init_def ramread_def ram_blocks_def m)
  assume blk: "length blk = BLOCK_SIZE"
  let ?fs = "take (512 * b) fs @ blk @ drop (512 * b + 512) fs"
  have "st_write ramdisk_init 0 b blk fs = Some (0, ?fs)" using blk by (simp add: ramdisk_init_def ramwrite_def m Let_def)
  moreover have "ram_ok ?fs" using ok b blk by (simp add: ram_ok_def)
  moreover have "ram_blocks ?fs = (ram_blocks fs)(b := blk)"
    using slice_update [OF blk, of b fs] ok b by (auto simp: fun_eq_iff ram_blocks_def ram_ok_def)
  ultimately show "\<exists>d'. st_write ramdisk_init 0 b blk fs = Some (0, d') \<and> ram_ok d' \<and> ram_blocks d' = (ram_blocks fs)(b := blk)"
    by blast
qed simp

subsection \<open>Reading and writing files\<close>

text \<open>The empty image, and the one that \<^verbatim>\<open>treedisk_create(ramdisk, 0, NINODES)\<close> makes of it.\<close>

definition blank_image :: "byte list" where
  "blank_image = replicate FS_DISK_SIZE 0"

definition new_image :: "byte list" where
  "new_image = (case treedisk_create ramdisk_init 0 NINODES blank_image of Some (_, fs) \<Rightarrow> fs | None \<Rightarrow> blank_image)"

lemma ram_create:
  assumes "ram_ok fs" "n_inodeblocks (ram_blocks fs 0) = 0"
  shows "\<exists>fs' free. treedisk_create ramdisk_init 0 NINODES fs = Some (0, fs') \<and> ram_ok fs'
     \<and> fs_inv (ram_blocks fs') 2 4096 free \<and> distinct free \<and> set free = {3..<4096}
     \<and> (\<forall>i<NINODES. file_of (ram_blocks fs') i = [])"
  using ram.create_spec [OF assms(1), of NINODES 2] assms(2) by simp

lemma blank_image_facts: "ram_ok blank_image" "n_inodeblocks (ram_blocks blank_image 0) = 0"
  by (simp_all add: blank_image_def ram_ok_def ram_blocks_def n_inodeblocks_def get32_replicate0)

lemma new_image_facts:
  "\<exists>free. ram_ok new_image \<and> fs_inv (ram_blocks new_image) 2 4096 free \<and> distinct free \<and> set free = {3..<4096}
     \<and> (\<forall>i<NINODES. file_of (ram_blocks new_image) i = [])"
  using ram_create [OF blank_image_facts] by (auto simp: new_image_def)

lemma new_image_free: "\<exists>free. ram_ok new_image \<and> fs_inv (ram_blocks new_image) 2 4096 free \<and> length free = 4093
     \<and> file_of (ram_blocks new_image) 5 = []"
proof -
  obtain free where f: "ram_ok new_image" "fs_inv (ram_blocks new_image) 2 4096 free" "distinct free" "set free = {3..<4096}"
    "file_of (ram_blocks new_image) 5 = []" using new_image_facts by auto
  have "length free = 4093" using distinct_card [OF f(3)] f(4) by simp
  with f show ?thesis by blast
qed

text \<open>
  C4. Writing a block of a file refines the abstract write: with enough free blocks it
  succeeds, the image keeps the invariant of the file system, the file becomes the old file
  with this block replaced (or appended, the gap being zeros), and every other file is
  unchanged. At most 11 free blocks are used.
\<close>

theorem treedisk_write_refines:
  assumes "ram_ok fs" "fs_inv (ram_blocks fs) ni 4096 free" "i < 64 * ni" "off + 1 < UINT"
    and "length blk = BLOCK_SIZE" "11 \<le> length free"
  shows "\<exists>fs' free'. st_write (treedisk_init ramdisk_init 0) i off blk fs = Some (0, fs') \<and> ram_ok fs'
     \<and> fs_inv (ram_blocks fs') ni 4096 free' \<and> length free \<le> length free' + 11
     \<and> (\<forall>j<64 * ni. file_of (ram_blocks fs') j =
          (if j = i then file_write (file_of (ram_blocks fs) i) off blk else file_of (ram_blocks fs) j))"
  using ram.write_files [of fs ni free i off blk] assms by (simp add: treedisk_init_def Let_def)

theorem treedisk_write_refines_witness:
  "\<exists>fs'. st_write (treedisk_init ramdisk_init 0) 5 130 (replicate 512 7) new_image = Some (0, fs')
     \<and> file_of (ram_blocks fs') 5 = file_write (file_of (ram_blocks new_image) 5) 130 (replicate 512 7)"
proof -
  obtain free where f: "ram_ok new_image" "fs_inv (ram_blocks new_image) 2 4096 free" "length free = 4093"
    using new_image_free by blast
  have "(5::nat) < 64 * 2" "130 + 1 < UINT" "length (replicate 512 7 :: block) = BLOCK_SIZE" "11 \<le> length free"
    using f(3) by simp_all
  from treedisk_write_refines [OF f(1,2) this] show ?thesis by auto
qed

text \<open>
  C5. Reading returns exactly the block of the file, zeros in a hole; an offset behind the
  end of the file or an inode number that does not exist gives -1 and leaves the caller's
  buffer alone.
\<close>

theorem treedisk_read_refines:
  assumes "ram_ok fs" "fs_inv (ram_blocks fs) ni 4096 free"
  shows "\<exists>fs'. st_read (treedisk_init ramdisk_init 0) i off buf fs =
     (if i < 64 * ni \<and> off < length (file_of (ram_blocks fs) i) then Some (0, file_of (ram_blocks fs) i ! off, fs')
      else Some (- 1, buf, fs')) \<and> ram_ok fs' \<and> ram_blocks fs' = ram_blocks fs"
  using ram.read_file [of fs ni free i off buf] assms by (simp add: treedisk_init_def Let_def)

theorem treedisk_read_refines_witness:
  "\<exists>fs'. st_read (treedisk_init ramdisk_init 0) 5 0 [7] new_image = Some (- 1, [7], fs') \<and> ram_blocks fs' = ram_blocks new_image"
proof -
  obtain free where f: "ram_ok new_image" "fs_inv (ram_blocks new_image) 2 4096 free"
    "file_of (ram_blocks new_image) 5 = []" using new_image_free by blast
  show ?thesis using treedisk_read_refines [OF f(1,2), of 5 0 "[7]"] f(3) by auto
qed

text \<open>
  C31. \<^verbatim>\<open>treedisk_create\<close> on an image without a file system makes one in which all 128 files
  are empty and every block behind the two inode blocks is on the free list, exactly once.
\<close>

theorem treedisk_create_empty:
  assumes "ram_ok fs" "n_inodeblocks (ram_blocks fs 0) = 0"
  shows "\<exists>fs' free. treedisk_create ramdisk_init 0 NINODES fs = Some (0, fs') \<and> ram_ok fs'
     \<and> fs_inv (ram_blocks fs') 2 4096 free \<and> distinct free \<and> set free = {3..<4096}
     \<and> (\<forall>i<NINODES. file_of (ram_blocks fs') i = [])"
  by (rule ram_create [OF assms])

theorem treedisk_create_empty_witness:
  "\<exists>fs' free. treedisk_create ramdisk_init 0 NINODES blank_image = Some (0, fs')
     \<and> fs_inv (ram_blocks fs') 2 4096 free \<and> set free = {3..<4096}"
  using treedisk_create_empty [OF blank_image_facts] by blast


text \<open>An image with no free block: the free list of a new image cut off.\<close>

definition full_image :: "byte list" where
  "full_image = snd (the (ramwrite 0 0 (put32 (put32 null_block 0 2) 1 0) blank_image))"

lemma full_image_facts: "ram_ok full_image" "fs_inv (ram_blocks full_image) 2 4096 []" "file_of (ram_blocks full_image) 5 = []"
proof -
  let ?sb = "put32 (put32 null_block 0 2) 1 0"
  have sb: "length ?sb = BLOCK_SIZE" "n_inodeblocks ?sb = 2" "free_list ?sb = 0"
    by (simp_all add: null_block_def n_inodeblocks_def free_list_def get32_put32_same get32_put32_other)
  have w: "ram_ok full_image" "ram_blocks full_image = (ram_blocks blank_image)(0 := ?sb)"
    using ram.write_ok [OF blank_image_facts(1), of 0 ?sb] sb(1) by (auto simp: full_image_def ramdisk_init_def)
  have null: "ram_blocks blank_image b = null_block" if "b < 4096" for b
    using that by (simp add: ram_blocks_def blank_image_def null_block_def)
  show "ram_ok full_image" by (rule w(1))
  show "fs_inv (ram_blocks full_image) 2 4096 []" "file_of (ram_blocks full_image) 5 = []"
    using fresh_fs_inv [of 4096 "ram_blocks full_image" 2 "[]"] null sb w(2)
    by (auto simp: null_block_def)
qed


end
