(* ===== verification/Sd.thy ===== *)
theory Sd
  imports Tty
begin

section \<open>The SD card driver\<close>

text \<open>
  \<^verbatim>\<open>earth/sd/sd_utils.c\<close>, \<^verbatim>\<open>sd_rw.c\<close> and \<^verbatim>\<open>sd_init.c\<close>. The SPI1 controller with the card behind
  it is hardware: a record of the two accesses the driver makes to its registers (\<open>spi_get\<close>
  reads the register at an offset, \<open>spi_put\<close> writes it) on a device state of type \<open>'c\<close>. Loops
  that poll the card are \<open>partial_function\<close>s; \<^verbatim>\<open>FATAL\<close> is \<open>None\<close>. What the driver relies on is
  stated in the locales \<open>spi_bus\<close> and \<open>sd_card\<close>.
\<close>

record 'c spi =
  spi_get :: "nat \<Rightarrow> 'c \<Rightarrow> u32 \<times> 'c"
  spi_put :: "nat \<Rightarrow> u32 \<Rightarrow> 'c \<Rightarrow> 'c"

abbreviation (input) SPI1_SCKDIV :: nat where "SPI1_SCKDIV \<equiv> 0"
abbreviation (input) SPI1_SCKMODE :: nat where "SPI1_SCKMODE \<equiv> 4"
abbreviation (input) SPI1_CSID :: nat where "SPI1_CSID \<equiv> 16"
abbreviation (input) SPI1_CSDEF :: nat where "SPI1_CSDEF \<equiv> 20"
abbreviation (input) SPI1_CSMODE :: nat where "SPI1_CSMODE \<equiv> 24"
abbreviation (input) SPI1_FMT :: nat where "SPI1_FMT \<equiv> 64"
abbreviation (input) SPI1_TXDATA :: nat where "SPI1_TXDATA \<equiv> 72"
abbreviation (input) SPI1_RXDATA :: nat where "SPI1_RXDATA \<equiv> 76"
abbreviation (input) SPI1_FCTRL :: nat where "SPI1_FCTRL \<equiv> 96"

subsection \<open>\<^verbatim>\<open>sd_utils.c\<close>\<close>

partial_function (option) tx_wait :: "'c spi \<Rightarrow> 'c \<Rightarrow> 'c option" where
  "tx_wait s c = (case spi_get s SPI1_TXDATA c of (r, c) \<Rightarrow>
     if r AND 0x80000000 \<noteq> 0 then tx_wait s c else Some c)"

partial_function (option) rx_wait :: "'c spi \<Rightarrow> 'c \<Rightarrow> (u32 \<times> 'c) option" where
  "rx_wait s c = (case spi_get s SPI1_RXDATA c of (r, c) \<Rightarrow>
     if r AND 0x80000000 \<noteq> 0 then rx_wait s c else Some (r, c))"

definition send_data_byte :: "'c spi \<Rightarrow> byte \<Rightarrow> 'c \<Rightarrow> (byte \<times> 'c) option" where
  "send_data_byte s byte c =
    do { c \<leftarrow> tx_wait s c;
         (rxdata, c) \<leftarrow> rx_wait s (spi_put s SPI1_TXDATA (ucast byte) c);
         Some (ucast (rxdata AND 0xFF), c) }"

definition recv_data_byte :: "'c spi \<Rightarrow> 'c \<Rightarrow> (byte \<times> 'c) option" where
  "recv_data_byte s c = send_data_byte s 0xFF c"

text \<open>The loops around them: sending an array, \<^verbatim>\<open>while (recv_data_byte() != v);\<close> and receiving one.\<close>

fun send_bytes :: "'c spi \<Rightarrow> byte list \<Rightarrow> 'c \<Rightarrow> 'c option" where
  "send_bytes s [] c = Some c"
| "send_bytes s (b # bs) c = do { (_, c) \<leftarrow> send_data_byte s b c; send_bytes s bs c }"

partial_function (option) recv_until :: "'c spi \<Rightarrow> byte \<Rightarrow> 'c \<Rightarrow> 'c option" where
  "recv_until s v c = do { (b, c) \<leftarrow> recv_data_byte s c; if b \<noteq> v then recv_until s v c else Some c }"

fun recv_bytes :: "'c spi \<Rightarrow> nat \<Rightarrow> 'c \<Rightarrow> (byte list \<times> 'c) option" where
  "recv_bytes s 0 c = Some ([], c)"
| "recv_bytes s (Suc n) c =
    do { (b, c) \<leftarrow> recv_data_byte s c; (bs, c) \<leftarrow> recv_bytes s n c; Some (b # bs, c) }"

fun recv_reply :: "'c spi \<Rightarrow> nat \<Rightarrow> 'c \<Rightarrow> (byte \<times> 'c) option" where
  "recv_reply s 0 c = None"
| "recv_reply s (Suc n) c =
    do { (reply, c) \<leftarrow> recv_data_byte s c; if reply \<noteq> 0xFF then Some (reply, c) else recv_reply s n c }"

definition sd_exec_cmd :: "'c spi \<Rightarrow> byte list \<Rightarrow> 'c \<Rightarrow> (byte \<times> 'c) option" where
  "sd_exec_cmd s cmd c = do { c \<leftarrow> send_bytes s (take 6 cmd) c; recv_reply s 8000 c }"

definition sd_exec_acmd :: "'c spi \<Rightarrow> byte list \<Rightarrow> 'c \<Rightarrow> (byte \<times> 'c) option" where
  "sd_exec_acmd s cmd c =
    do { c \<leftarrow> recv_until s 0xFF c;
         (_, c) \<leftarrow> sd_exec_cmd s [0x77, 0, 0, 0, 0, 0xFF] c;
         c \<leftarrow> recv_until s 0xFF c;
         sd_exec_cmd s cmd c }"

subsection \<open>\<^verbatim>\<open>sd_rw.c\<close>\<close>

text \<open>A command with the block number as its big-endian argument.\<close>

definition block_cmd :: "byte \<Rightarrow> int \<Rightarrow> byte list" where
  "block_cmd op offset = (let a = u32_of_int offset in
     [op, of_nat (a div 16777216), of_nat (a div 65536), of_nat (a div 256), of_nat a, 0xFF])"

definition single_read :: "'c spi \<Rightarrow> int \<Rightarrow> 'c \<Rightarrow> (byte list \<times> 'c) option" where
  "single_read s offset c =
    do { c \<leftarrow> recv_until s 0xFF c;
         (reply, c) \<leftarrow> sd_exec_cmd s (block_cmd 0x51 offset) c;
         if reply \<noteq> 0 then None
         else do { c \<leftarrow> recv_until s 0xFE c;
                   (dst, c) \<leftarrow> recv_bytes s BLOCK_SIZE c;
                   (_, c) \<leftarrow> recv_data_byte s c;
                   (_, c) \<leftarrow> recv_data_byte s c;
                   Some (dst, c) } }"

partial_function (option) recv_ack :: "'c spi \<Rightarrow> 'c \<Rightarrow> (byte \<times> 'c) option" where
  "recv_ack s c = do { (reply, c) \<leftarrow> recv_data_byte s c; if reply = 0xFF then recv_ack s c else Some (reply, c) }"

definition single_write :: "'c spi \<Rightarrow> int \<Rightarrow> byte list \<Rightarrow> 'c \<Rightarrow> 'c option" where
  "single_write s offset src c =
    do { c \<leftarrow> recv_until s 0xFF c;
         (reply, c) \<leftarrow> sd_exec_cmd s (block_cmd 0x58 offset) c;
         if reply \<noteq> 0 then None
         else do { c \<leftarrow> send_bytes s ([0xFE] @ take BLOCK_SIZE src @ [0xFF, 0xFF]) c;
                   (reply, c) \<leftarrow> recv_ack s c;
                   if reply AND 0x1F \<noteq> 0x05 then None else Some c } }"

text \<open>The loops over the blocks, \<open>n\<close> rounds; the count is an \<^verbatim>\<open>int\<close>, so a negative one does nothing.\<close>

fun sdread_loop :: "'c spi \<Rightarrow> int \<Rightarrow> nat \<Rightarrow> 'c \<Rightarrow> (byte list \<times> 'c) option" where
  "sdread_loop s offset 0 c = Some ([], c)"
| "sdread_loop s offset (Suc n) c =
    do { (b, c) \<leftarrow> single_read s offset c; (bs, c) \<leftarrow> sdread_loop s (offset + 1) n c; Some (b @ bs, c) }"

definition sdread :: "'c spi \<Rightarrow> int \<Rightarrow> int \<Rightarrow> 'c \<Rightarrow> (byte list \<times> 'c) option" where
  "sdread s offset nblock c = sdread_loop s offset (nat nblock) c"

fun sdwrite_loop :: "'c spi \<Rightarrow> int \<Rightarrow> nat \<Rightarrow> byte list \<Rightarrow> 'c \<Rightarrow> 'c option" where
  "sdwrite_loop s offset 0 src c = Some c"
| "sdwrite_loop s offset (Suc n) src c =
    do { c \<leftarrow> single_write s offset src c; sdwrite_loop s (offset + 1) n (drop BLOCK_SIZE src) c }"

definition sdwrite :: "'c spi \<Rightarrow> int \<Rightarrow> int \<Rightarrow> byte list \<Rightarrow> 'c \<Rightarrow> 'c option" where
  "sdwrite s offset nblock src c = sdwrite_loop s offset (nat nblock) src c"

subsection \<open>\<^verbatim>\<open>sd_init.c\<close>\<close>

datatype sd_type = SD_TYPE_SD1 | SD_TYPE_SD2 | SD_TYPE_SDHC | SD_TYPE_UNKNOWN

definition spi_set_clock :: "'c spi \<Rightarrow> int \<Rightarrow> 'c \<Rightarrow> 'c" where
  "spi_set_clock s baud_rate c =
    spi_put s SPI1_SCKDIV (word_of_int (CPU_CLOCK_RATE div (2 * baud_rate) - 1) AND 0xFFF) c"

definition spi_config :: "'c spi \<Rightarrow> 'c \<Rightarrow> 'c" where
  "spi_config s c = spi_put s SPI1_FMT 0x80000 (spi_put s SPI1_FCTRL 0
     (spi_put s SPI1_CSDEF 0 (spi_put s SPI1_CSID 0 (spi_put s SPI1_SCKMODE 0 c))))"

definition sd_reset :: "'c spi \<Rightarrow> 'c \<Rightarrow> 'c option" where
  "sd_reset s c =
    do { c \<leftarrow> send_bytes s (replicate 1000 0xFF) (spi_put s SPI1_CSMODE 2 c);
         (reply, c) \<leftarrow> sd_exec_cmd s [0x40, 0, 0, 0, 0, 0x95] (spi_put s SPI1_CSDEF 1 c);
         c \<leftarrow> (if reply \<noteq> 0x01 then recv_until s 0x01 c else Some c);
         recv_until s 0xFF c }"

text \<open>The four payload bytes arrive most significant first.\<close>

definition payload_word :: "byte list \<Rightarrow> u32" where
  "payload_word p = (case p of [b3, b2, b1, b0] \<Rightarrow>
     ucast b3 * 0x1000000 + ucast b2 * 0x10000 + ucast b1 * 0x100 + ucast b0 | _ \<Rightarrow> 0)"

definition sd_check_type :: "'c spi \<Rightarrow> sd_type \<Rightarrow> 'c \<Rightarrow> (int \<times> sd_type \<times> 'c) option" where
  "sd_check_type s ty c =
    do { (reply, c) \<leftarrow> sd_exec_cmd s [0x48, 0, 0, 0x01, 0xAA, 0x87] c;
         if reply AND 0x04 \<noteq> 0 then
           do { c \<leftarrow> recv_until s 0xFF c; Some (0, SD_TYPE_SD1, c) }
         else
           do { (payload, c) \<leftarrow> recv_bytes s 4 c;
                if payload_word payload AND 0xFFF \<noteq> 0x1AA then Some (- 1, ty, c)
                else do { c \<leftarrow> recv_until s 0xFF c; Some (0, SD_TYPE_SD2, c) } } }"

definition sd_check_capacity :: "'c spi \<Rightarrow> sd_type \<Rightarrow> 'c \<Rightarrow> (sd_type \<times> 'c) option" where
  "sd_check_capacity s ty c =
    do { c \<leftarrow> recv_until s 0xFF c;
         (reply, c) \<leftarrow> sd_exec_cmd s [0x7A, 0, 0, 0, 0, 0xFF] c;
         if reply \<noteq> 0 then None
         else do { (payload, c) \<leftarrow> recv_bytes s 4 c;
                   let ty = (if payload ! 0 AND 0xC0 = 0xC0 then SD_TYPE_SDHC else ty);
                   c \<leftarrow> recv_until s 0xFF c;
                   Some (ty, c) } }"

partial_function (option) acmd_loop :: "'c spi \<Rightarrow> byte list \<Rightarrow> 'c \<Rightarrow> 'c option" where
  "acmd_loop s cmd c = do { (reply, c) \<leftarrow> sd_exec_acmd s cmd c; if reply \<noteq> 0 then acmd_loop s cmd c else Some c }"

definition sdinit :: "'c spi \<Rightarrow> 'c \<Rightarrow> (sd_type \<times> 'c) option" where
  "sdinit s c =
    do { c \<leftarrow> sd_reset s (spi_config s (spi_set_clock s 100000 c));
         let c = spi_set_clock s (CPU_CLOCK_RATE div 4) c;
         (rc, ty, c) \<leftarrow> sd_check_type s SD_TYPE_UNKNOWN c;
         if rc \<noteq> 0 then None
         else do { c \<leftarrow> acmd_loop s [0x69, if ty = SD_TYPE_SD2 then 0x40 else 0, 0, 0, 0, 0xFF] c;
                   c \<leftarrow> recv_until s 0xFF c;
                   (reply, c) \<leftarrow> sd_exec_cmd s [0x50, 0, 0, 0x02, 0, 0xFF] c;
                   c \<leftarrow> recv_until s 0xFF c;
                   (ty, c) \<leftarrow> (if ty = SD_TYPE_SD2 then sd_check_capacity s ty c else Some (ty, c));
                   if ty \<noteq> SD_TYPE_SDHC then None else Some (ty, c) } }"


subsection \<open>The bus\<close>

text \<open>
  The replies of a card, a machine that answers every byte with a byte, to a list of bytes.
\<close>

fun spi_run :: "(byte \<Rightarrow> 'k \<Rightarrow> byte \<times> 'k) \<Rightarrow> byte list \<Rightarrow> 'k \<Rightarrow> byte list \<times> 'k" where
  "spi_run xfer [] k = ([], k)"
| "spi_run xfer (b # bs) k =
    (case xfer b k of (r, k) \<Rightarrow> case spi_run xfer bs k of (rs, k) \<Rightarrow> (r # rs, k))"

lemma spi_run_append:
  "spi_run xfer (as @ bs) k =
    (case spi_run xfer as k of (rs, k) \<Rightarrow> case spi_run xfer bs k of (rs', k) \<Rightarrow> (rs @ rs', k))"
  by (induction as arbitrary: k) (simp_all split: prod.splits)

lemma spi_run_length: "length (fst (spi_run xfer bs k)) = length bs"
  by (induction bs arbitrary: k) (simp_all split: prod.splits, metis fst_conv)

lemma spi_run_splitE:
  assumes "spi_run xfer (as @ bs) k = (rs @ rs', k')" "length rs = length as"
  obtains k1 where "spi_run xfer as k = (rs, k1)" "spi_run xfer bs k1 = (rs', k')"
proof -
  obtain ra k1 where a: "spi_run xfer as k = (ra, k1)" by fastforce
  obtain rb k2 where b: "spi_run xfer bs k1 = (rb, k2)" by fastforce
  have "ra @ rb = rs @ rs'" "k2 = k'" using assms(1) a b by (simp_all add: spi_run_append)
  moreover have "length ra = length rs" using spi_run_length [of xfer as k] a assms(2) by simp
  ultimately show thesis using a b that by simp
qed

text \<open>
  The SPI controller: \<open>live\<close> when it waits for the next byte, \<open>loaded v\<close> when it has exchanged one
  and \<open>v\<close> is in the receive register. The full and empty flags clear after finitely many polls
  (\<open>txw\<close>, \<open>rxw\<close>), and polling does not touch the card.
\<close>

locale spi_bus =
  fixes s :: "'c spi" and media :: "'c \<Rightarrow> 'k" and xfer :: "byte \<Rightarrow> 'k \<Rightarrow> byte \<times> 'k"
    and live :: "'c \<Rightarrow> bool" and loaded :: "byte \<Rightarrow> 'c \<Rightarrow> bool" and txw :: "'c \<Rightarrow> nat" and rxw :: "'c \<Rightarrow> nat"
  assumes tx_poll: "live c \<Longrightarrow> spi_get s SPI1_TXDATA c = (r, c') \<Longrightarrow>
      live c' \<and> media c' = media c \<and> (r AND 0x80000000 \<noteq> 0 \<longrightarrow> txw c' < txw c)"
    and tx_put: "live c \<Longrightarrow> xfer b (media c) = (v, k) \<Longrightarrow>
      loaded v (spi_put s SPI1_TXDATA (ucast b) c) \<and> media (spi_put s SPI1_TXDATA (ucast b) c) = k"
    and rx_poll: "loaded v c \<Longrightarrow> spi_get s SPI1_RXDATA c = (r, c') \<Longrightarrow> media c' = media c
      \<and> (if r AND 0x80000000 \<noteq> 0 then loaded v c' \<and> rxw c' < rxw c else ucast (r AND 0xFF) = v \<and> live c')"
begin

lemma tx_wait_ok: "live c \<Longrightarrow> \<exists>c'. tx_wait s c = Some c' \<and> live c' \<and> media c' = media c"
proof (induction "txw c" arbitrary: c rule: less_induct)
  case less
  obtain r c1 where g: "spi_get s SPI1_TXDATA c = (r, c1)" by fastforce
  note P = tx_poll [OF less.prems g]
  show ?case
  proof (cases "r AND 0x80000000 \<noteq> 0")
    case True
    then show ?thesis using less.hyps [of c1] P g by (subst tx_wait.simps) simp
  next
    case False
    then show ?thesis using P g by (subst tx_wait.simps) simp
  qed
qed

lemma rx_wait_ok: "loaded v c \<Longrightarrow> \<exists>r c'. rx_wait s c = Some (r, c') \<and> ucast (r AND 0xFF) = v \<and> live c' \<and> media c' = media c"
proof (induction "rxw c" arbitrary: c rule: less_induct)
  case less
  obtain r c1 where g: "spi_get s SPI1_RXDATA c = (r, c1)" by fastforce
  note P = rx_poll [OF less.prems g]
  show ?case
  proof (cases "r AND 0x80000000 \<noteq> 0")
    case True
    then show ?thesis using less.hyps [of c1] P g by (subst rx_wait.simps) simp
  next
    case False
    then show ?thesis using P g by (subst rx_wait.simps) simp
  qed
qed

lemma send_data_byte_ok:
  assumes "live c" "xfer b (media c) = (v, k)"
  shows "\<exists>c'. send_data_byte s b c = Some (v, c') \<and> live c' \<and> media c' = k"
proof -
  obtain c1 where c1: "tx_wait s c = Some c1" "live c1" "media c1 = media c" using tx_wait_ok [OF assms(1)] by blast
  have x: "loaded v (spi_put s SPI1_TXDATA (ucast b) c1)" "media (spi_put s SPI1_TXDATA (ucast b) c1) = k"
    using tx_put [OF c1(2)] assms(2) c1(3) by auto
  from rx_wait_ok [OF x(1)] x(2) c1(1) show ?thesis by (auto simp: send_data_byte_def)
qed

lemma send_bytes_ok:
  "live c \<Longrightarrow> spi_run xfer bs (media c) = (rs, k) \<Longrightarrow> \<exists>c'. send_bytes s bs c = Some c' \<and> live c' \<and> media c' = k"
proof (induction bs arbitrary: c rs)
  case (Cons b bs)
  obtain r k1 where x: "xfer b (media c) = (r, k1)" by fastforce
  obtain c1 where c1: "send_data_byte s b c = Some (r, c1)" "live c1" "media c1 = k1"
    using send_data_byte_ok [OF Cons.prems(1) x] by blast
  obtain rs1 where "spi_run xfer bs k1 = (rs1, k)" using Cons.prems(2) x by (auto split: prod.splits)
  then show ?case using Cons.IH [OF c1(2)] c1(1,3) by simp
qed simp

lemma recv_bytes_ok:
  "live c \<Longrightarrow> spi_run xfer (replicate n 0xFF) (media c) = (rs, k) \<Longrightarrow> \<exists>c'. recv_bytes s n c = Some (rs, c') \<and> live c' \<and> media c' = k"
proof (induction n arbitrary: c rs)
  case (Suc n)
  obtain r k1 where x: "xfer 0xFF (media c) = (r, k1)" by fastforce
  obtain c1 where c1: "recv_data_byte s c = Some (r, c1)" "live c1" "media c1 = k1"
    using send_data_byte_ok [OF Suc.prems(1) x] by (auto simp: recv_data_byte_def)
  obtain rs1 where r: "spi_run xfer (replicate n 0xFF) k1 = (rs1, k)" "rs = r # rs1"
    using Suc.prems(2) x by (auto split: prod.splits)
  then obtain c2 where "recv_bytes s n c1 = Some (rs1, c2)" "live c2" "media c2 = k"
    using Suc.IH [OF c1(2)] c1(3) by blast
  then show ?case using c1(1) r(2) by simp
qed simp

text \<open>The three waiting loops skip a prefix of other replies.\<close>

lemma recv_until_ok:
  "live c \<Longrightarrow> v \<notin> set rs \<Longrightarrow> spi_run xfer (replicate (Suc (length rs)) 0xFF) (media c) = (rs @ [v], k)
    \<Longrightarrow> \<exists>c'. recv_until s v c = Some c' \<and> live c' \<and> media c' = k"
proof (induction rs arbitrary: c)
  case Nil
  then have x: "xfer 0xFF (media c) = (v, k)" by (auto split: prod.splits)
  show ?case using send_data_byte_ok [OF Nil.prems(1) x] by (subst recv_until.simps) (auto simp: recv_data_byte_def)
next
  case (Cons r rs)
  then obtain k1 where x: "xfer 0xFF (media c) = (r, k1)"
    "spi_run xfer (replicate (Suc (length rs)) 0xFF) k1 = (rs @ [v], k)" by (auto split: prod.splits)
  obtain c1 where c1: "recv_data_byte s c = Some (r, c1)" "live c1" "media c1 = k1"
    using send_data_byte_ok [OF Cons.prems(1) x(1)] by (auto simp: recv_data_byte_def)
  then show ?case using Cons.IH [OF c1(2)] x(2) Cons.prems(2) by (subst recv_until.simps) auto
qed

lemma recv_reply_ok:
  "live c \<Longrightarrow> v \<noteq> 0xFF \<Longrightarrow> m < n \<Longrightarrow> spi_run xfer (replicate (Suc m) 0xFF) (media c) = (replicate m 0xFF @ [v], k)
    \<Longrightarrow> \<exists>c'. recv_reply s n c = Some (v, c') \<and> live c' \<and> media c' = k"
proof (induction m arbitrary: c n)
  case 0
  then obtain n' where "n = Suc n'" by (cases n) auto
  moreover have x: "xfer 0xFF (media c) = (v, k)" using 0 by (auto split: prod.splits)
  ultimately show ?case using send_data_byte_ok [OF 0(1) x] 0(2) by (auto simp: recv_data_byte_def)
next
  case (Suc m)
  then obtain n' where n: "n = Suc n'" "m < n'" by (cases n) auto
  from Suc.prems(4) obtain k1 where x: "xfer 0xFF (media c) = (0xFF, k1)"
    "spi_run xfer (replicate (Suc m) 0xFF) k1 = (replicate m 0xFF @ [v], k)" by (auto split: prod.splits)
  obtain c1 where c1: "recv_data_byte s c = Some (0xFF, c1)" "live c1" "media c1 = k1"
    using send_data_byte_ok [OF Suc.prems(1) x(1)] by (auto simp: recv_data_byte_def)
  then show ?case using Suc.IH [OF c1(2) Suc.prems(2) n(2)] x(2) n(1) by simp
qed

lemma recv_ack_ok:
  "live c \<Longrightarrow> v \<noteq> 0xFF \<Longrightarrow> spi_run xfer (replicate (Suc m) 0xFF) (media c) = (replicate m 0xFF @ [v], k)
    \<Longrightarrow> \<exists>c'. recv_ack s c = Some (v, c') \<and> live c' \<and> media c' = k"
proof (induction m arbitrary: c)
  case 0
  then have x: "xfer 0xFF (media c) = (v, k)" by (auto split: prod.splits)
  then show ?case using send_data_byte_ok [OF 0(1) x] 0(2) by (subst recv_ack.simps) (auto simp: recv_data_byte_def)
next
  case (Suc m)
  from Suc.prems(3) obtain k1 where x: "xfer 0xFF (media c) = (0xFF, k1)"
    "spi_run xfer (replicate (Suc m) 0xFF) k1 = (replicate m 0xFF @ [v], k)" by (auto split: prod.splits)
  obtain c1 where c1: "recv_data_byte s c = Some (0xFF, c1)" "live c1" "media c1 = k1"
    using send_data_byte_ok [OF Suc.prems(1) x(1)] by (auto simp: recv_data_byte_def)
  then show ?case using Suc.IH [OF c1(2) Suc.prems(2)] x(2) by (subst recv_ack.simps) auto
qed

end

end
