(* ===== verification/Sd_Card.thy ===== *)
theory Sd_Card
  imports Sd
begin

section \<open>Reading and writing an SD card\<close>

text \<open>
  The SPI-mode protocol of an SD card as the contract \<open>sd_card\<close>, and what the driver makes of
  it. A \<open>ready\<close> card holds its line low while it is busy and then answers FF; it is then \<open>idle\<close>
  and takes a command. CMD17 is answered with status 0, the token FE, the 512 bytes of the
  block and a checksum. CMD24 is answered with status 0; the card then takes the token, the
  block and a checksum, and acknowledges with the data response 00101.
\<close>

lemma concat_blocks:
  "length src = 512 * n \<Longrightarrow> concat (map (\<lambda>b. take 512 (drop (512 * (b - a)) src)) [a..<a + n]) = src"
proof (induction n arbitrary: a src)
  case (Suc n)
  have "512 * (b - a) = 512 * (b - Suc a) + 512" if "b \<in> set [Suc a..<Suc a + n]" for b using that by auto
  then have e: "map (\<lambda>b. take 512 (drop (512 * (b - a)) src)) [Suc a..<Suc a + n]
      = map (\<lambda>b. take 512 (drop (512 * (b - Suc a)) (drop 512 src))) [Suc a..<Suc a + n]"
    by (intro map_cong refl) (simp add: add.commute)
  have "length (drop 512 src) = 512 * n" using Suc.prems by simp
  from Suc.IH [OF this] have "concat (map (\<lambda>b. take 512 (drop (512 * (b - a)) src)) [Suc a..<Suc a + n]) = drop 512 src"
    unfolding e .
  moreover have "[a..<a + Suc n] = a # [Suc a..<Suc a + n]" by (simp add: upt_conv_Cons)
  ultimately show ?case by (simp del: upt_Suc)
qed simp

locale sd_card = spi_bus s media xfer live loaded txw rxw
  for s :: "'c spi" and media :: "'c \<Rightarrow> 'k" and xfer :: "byte \<Rightarrow> 'k \<Rightarrow> byte \<times> 'k" and live loaded txw rxw +
  fixes ready idle :: "'k \<Rightarrow> bool" and cells :: "'k \<Rightarrow> nat \<Rightarrow> byte list" and ncells :: nat
  assumes busy: "ready k \<Longrightarrow> \<exists>rs k'. 0xFF \<notin> set rs \<and> spi_run xfer (replicate (Suc (length rs)) 0xFF) k = (rs @ [0xFF], k')
      \<and> idle k' \<and> cells k' = cells k"
    and cmd17: "idle k \<Longrightarrow> a < ncells \<Longrightarrow> \<exists>pre m n crc k'. length pre = 6 \<and> length crc = 2 \<and> m < 8000
      \<and> spi_run xfer (block_cmd 0x51 (int a) @ replicate (Suc m) 0xFF @ replicate (Suc n) 0xFF
            @ replicate BLOCK_SIZE 0xFF @ replicate 2 0xFF) k
        = (pre @ (replicate m 0xFF @ [0]) @ (replicate n 0xFF @ [0xFE]) @ cells k a @ crc, k') \<and> ready k' \<and> cells k' = cells k"
    and cmd24: "idle k \<Longrightarrow> a < ncells \<Longrightarrow> length blk = BLOCK_SIZE \<Longrightarrow> \<exists>pre m mid n ack k'. length pre = 6
      \<and> length mid = BLOCK_SIZE + 3 \<and> m < 8000 \<and> ack \<noteq> 0xFF \<and> ack AND 0x1F = 0x05
      \<and> spi_run xfer (block_cmd 0x58 (int a) @ replicate (Suc m) 0xFF @ ([0xFE] @ blk @ [0xFF, 0xFF]) @ replicate (Suc n) 0xFF) k
        = (pre @ (replicate m 0xFF @ [0]) @ mid @ (replicate n 0xFF @ [ack]), k') \<and> ready k' \<and> cells k' = (cells k)(a := blk)"
    and cell_length: "ready k \<Longrightarrow> a < ncells \<Longrightarrow> length (cells k a) = BLOCK_SIZE"
begin

lemma length_block_cmd [simp]: "length (block_cmd op offset) = 6"
  by (simp add: block_cmd_def Let_def)

lemma wait_ready:
  assumes "live c" "ready (media c)"
  shows "\<exists>c'. recv_until s 0xFF c = Some c' \<and> live c' \<and> idle (media c') \<and> cells (media c') = cells (media c)"
proof -
  from busy [OF assms(2)] obtain rs k' where
    "0xFF \<notin> set rs" "spi_run xfer (replicate (Suc (length rs)) 0xFF) (media c) = (rs @ [0xFF], k')"
    "idle k'" "cells k' = cells (media c)" by blast
  with recv_until_ok [OF assms(1)] show ?thesis by blast
qed

lemma exec_cmd_ok:
  assumes "live c" "length cmd = 6" "spi_run xfer cmd (media c) = (pre, k1)" "m < 8000" "v \<noteq> 0xFF"
    and "spi_run xfer (replicate (Suc m) 0xFF) k1 = (replicate m 0xFF @ [v], k)"
  shows "\<exists>c'. sd_exec_cmd s cmd c = Some (v, c') \<and> live c' \<and> media c' = k"
proof -
  obtain c1 where c1: "send_bytes s cmd c = Some c1" "live c1" "media c1 = k1" using send_bytes_ok [OF assms(1,3)] by blast
  obtain c2 where "recv_reply s 8000 c1 = Some (v, c2)" "live c2" "media c2 = k"
    using recv_reply_ok [OF c1(2) assms(5,4)] assms(6) c1(3) by blast
  with c1(1) assms(2) show ?thesis by (simp add: sd_exec_cmd_def)
qed

lemma single_read_ok:
  assumes "live c" "ready (media c)" "a < ncells"
  shows "\<exists>c'. single_read s (int a) c = Some (cells (media c) a, c') \<and> live c' \<and> ready (media c') \<and> cells (media c') = cells (media c)"
proof -
  obtain c0 where c0: "recv_until s 0xFF c = Some c0" "live c0" "idle (media c0)" "cells (media c0) = cells (media c)"
    using wait_ready [OF assms(1,2)] by blast
  let ?d = "cells (media c) a"
  from cmd17 [OF c0(3) assms(3)] c0(4) obtain pre m n crc k' where
    R: "length pre = 6" "length crc = 2" "m < 8000" "ready k'" "cells k' = cells (media c)"
      "spi_run xfer (block_cmd 0x51 (int a) @ replicate (Suc m) 0xFF @ replicate (Suc n) 0xFF
            @ replicate BLOCK_SIZE 0xFF @ replicate 2 0xFF) (media c0)
        = (pre @ (replicate m 0xFF @ [0]) @ (replicate n 0xFF @ [0xFE]) @ ?d @ crc, k')" by auto
  have ld: "length ?d = BLOCK_SIZE" by (rule cell_length [OF assms(2,3)])
  obtain k1 where k1: "spi_run xfer (block_cmd 0x51 (int a)) (media c0) = (pre, k1)"
    "spi_run xfer (replicate (Suc m) 0xFF @ replicate (Suc n) 0xFF @ replicate BLOCK_SIZE 0xFF @ replicate 2 0xFF) k1
      = ((replicate m 0xFF @ [0]) @ (replicate n 0xFF @ [0xFE]) @ ?d @ crc, k')"
    using spi_run_splitE [OF R(6)] R(1) by auto
  obtain k2 where k2: "spi_run xfer (replicate (Suc m) 0xFF) k1 = (replicate m 0xFF @ [0], k2)"
    "spi_run xfer (replicate (Suc n) 0xFF @ replicate BLOCK_SIZE 0xFF @ replicate 2 0xFF) k2
      = ((replicate n 0xFF @ [0xFE]) @ ?d @ crc, k')" using spi_run_splitE [OF k1(2)] by auto
  obtain k3 where k3: "spi_run xfer (replicate (Suc n) 0xFF) k2 = (replicate n 0xFF @ [0xFE], k3)"
    "spi_run xfer (replicate BLOCK_SIZE 0xFF @ replicate 2 0xFF) k3 = (?d @ crc, k')" using spi_run_splitE [OF k2(2)] by auto
  obtain k4 where k4: "spi_run xfer (replicate BLOCK_SIZE 0xFF) k3 = (?d, k4)" "spi_run xfer (replicate 2 0xFF) k4 = (crc, k')"
    using spi_run_splitE [OF k3(2)] ld by auto
  obtain c1 where c1: "sd_exec_cmd s (block_cmd 0x51 (int a)) c0 = Some (0, c1)" "live c1" "media c1 = k2"
    using exec_cmd_ok [OF c0(2) _ k1(1) R(3) _ k2(1)] by auto
  obtain c2 where c2: "recv_until s 0xFE c1 = Some c2" "live c2" "media c2 = k3"
    using recv_until_ok [OF c1(2), of "0xFE" "replicate n 0xFF" k3] k3(1) c1(3) by auto
  obtain c3 where c3: "recv_bytes s BLOCK_SIZE c2 = Some (?d, c3)" "live c3" "media c3 = k4"
    using recv_bytes_ok [OF c2(2)] k4(1) c2(3) by blast
  obtain c4 where c4: "recv_bytes s 2 c3 = Some (crc, c4)" "live c4" "media c4 = k'"
    using recv_bytes_ok [OF c3(2)] k4(2) c3(3) by blast
  have "\<exists>x y c'. recv_data_byte s c3 = Some (x, c') \<and> recv_data_byte s c' = Some (y, c4)"
    using c4(1) by (auto simp: numeral_2_eq_2 bind_eq_Some_conv)
  with c0(1) c1(1) c2(1) c3(1) have "single_read s (int a) c = Some (?d, c4)" by (auto simp: single_read_def)
  with c4 R(4,5) show ?thesis by blast
qed

lemma single_write_ok:
  assumes "live c" "ready (media c)" "a < ncells" "BLOCK_SIZE \<le> length src"
  shows "\<exists>c'. single_write s (int a) src c = Some c' \<and> live c' \<and> ready (media c')
     \<and> cells (media c') = (cells (media c))(a := take BLOCK_SIZE src)"
proof -
  obtain c0 where c0: "recv_until s 0xFF c = Some c0" "live c0" "idle (media c0)" "cells (media c0) = cells (media c)"
    using wait_ready [OF assms(1,2)] by blast
  let ?b = "take BLOCK_SIZE src" and ?p = "[0xFE] @ take BLOCK_SIZE src @ [0xFF, 0xFF]"
  have lb: "length ?b = BLOCK_SIZE" using assms(4) by simp
  from cmd24 [OF c0(3) assms(3) lb] c0(4) obtain pre m mid n ack k' where
    R: "length pre = 6" "length mid = BLOCK_SIZE + 3" "m < 8000" "ack \<noteq> 0xFF" "ack AND 0x1F = 0x05" "ready k'"
      "cells k' = (cells (media c))(a := ?b)"
      "spi_run xfer (block_cmd 0x58 (int a) @ replicate (Suc m) 0xFF @ ?p @ replicate (Suc n) 0xFF) (media c0)
        = (pre @ (replicate m 0xFF @ [0]) @ mid @ (replicate n 0xFF @ [ack]), k')" by auto
  obtain k1 where k1: "spi_run xfer (block_cmd 0x58 (int a)) (media c0) = (pre, k1)"
    "spi_run xfer (replicate (Suc m) 0xFF @ ?p @ replicate (Suc n) 0xFF) k1
      = ((replicate m 0xFF @ [0]) @ mid @ (replicate n 0xFF @ [ack]), k')" using spi_run_splitE [OF R(8)] R(1) by auto
  obtain k2 where k2: "spi_run xfer (replicate (Suc m) 0xFF) k1 = (replicate m 0xFF @ [0], k2)"
    "spi_run xfer (?p @ replicate (Suc n) 0xFF) k2 = (mid @ (replicate n 0xFF @ [ack]), k')"
    using spi_run_splitE [OF k1(2)] by auto
  obtain k3 where k3: "spi_run xfer ?p k2 = (mid, k3)"
    "spi_run xfer (replicate (Suc n) 0xFF) k3 = (replicate n 0xFF @ [ack], k')"
    using spi_run_splitE [OF k2(2)] R(2) lb by auto
  obtain c1 where c1: "sd_exec_cmd s (block_cmd 0x58 (int a)) c0 = Some (0, c1)" "live c1" "media c1 = k2"
    using exec_cmd_ok [OF c0(2) _ k1(1) R(3) _ k2(1)] by auto
  obtain c2 where c2: "send_bytes s ?p c1 = Some c2" "live c2" "media c2 = k3"
    using send_bytes_ok [OF c1(2)] k3(1) c1(3) by blast
  obtain c3 where c3: "recv_ack s c2 = Some (ack, c3)" "live c3" "media c3 = k'"
    using recv_ack_ok [OF c2(2) R(4)] k3(2) c2(3) by blast
  have "single_write s (int a) src c = Some c3"
    unfolding single_write_def c0(1) bind.bind_lunit c1(1) prod.case c2(1) c3(1) using R(5) by simp
  with c3 R(6,7) show ?thesis by auto
qed

lemma sdread_ok:
  assumes "live c" "ready (media c)" "a + n \<le> ncells"
  shows "\<exists>c'. sdread s (int a) (int n) c = Some (concat (map (cells (media c)) [a..<a + n]), c')
     \<and> live c' \<and> ready (media c') \<and> cells (media c') = cells (media c)"
  unfolding sdread_def nat_int using assms
proof (induction n arbitrary: a c)
  case (Suc n)
  obtain c1 where c1: "single_read s (int a) c = Some (cells (media c) a, c1)" "live c1" "ready (media c1)"
    "cells (media c1) = cells (media c)" using single_read_ok [OF Suc.prems(1,2), of a] Suc.prems(3) by auto
  obtain c2 where "sdread_loop s (int (Suc a)) n c1 = Some (concat (map (cells (media c)) [Suc a..<Suc a + n]), c2)"
    "live c2" "ready (media c2)" "cells (media c2) = cells (media c)"
    using Suc.IH [OF c1(2,3), of "Suc a"] Suc.prems(3) c1(4) by auto
  moreover have "[a..<a + Suc n] = a # [Suc a..<Suc a + n]" by (simp add: upt_conv_Cons)
  ultimately show ?case using c1(1) by (simp add: add.commute del: upt_Suc)
qed simp

lemma sdwrite_ok:
  assumes "live c" "ready (media c)" "a + n \<le> ncells" "BLOCK_SIZE * n \<le> length src"
  shows "\<exists>c'. sdwrite s (int a) (int n) src c = Some c' \<and> live c' \<and> ready (media c')
     \<and> cells (media c') = (\<lambda>b. if a \<le> b \<and> b < a + n then take BLOCK_SIZE (drop (BLOCK_SIZE * (b - a)) src) else cells (media c) b)"
  unfolding sdwrite_def nat_int using assms
proof (induction n arbitrary: a c src)
  case (Suc n)
  obtain c1 where c1: "single_write s (int a) src c = Some c1" "live c1" "ready (media c1)"
    "cells (media c1) = (cells (media c))(a := take BLOCK_SIZE src)"
    using single_write_ok [OF Suc.prems(1,2), of a src] Suc.prems(3,4) by auto
  have len: "Suc a + n \<le> ncells" "BLOCK_SIZE * n \<le> length (drop BLOCK_SIZE src)" using Suc.prems(3,4) by auto
  obtain c2 where c2: "sdwrite_loop s (int (Suc a)) n (drop BLOCK_SIZE src) c1 = Some c2" "live c2" "ready (media c2)"
    "cells (media c2) = (\<lambda>b. if Suc a \<le> b \<and> b < Suc a + n then take BLOCK_SIZE (drop (BLOCK_SIZE * (b - Suc a)) (drop BLOCK_SIZE src))
      else cells (media c1) b)"
    using Suc.IH [OF c1(2,3) len] by blast
  have "BLOCK_SIZE * (b - Suc a) + BLOCK_SIZE = BLOCK_SIZE * (b - a)" if "Suc a \<le> b" for b using that by auto
  then have "cells (media c2) = (\<lambda>b. if a \<le> b \<and> b < a + Suc n then take BLOCK_SIZE (drop (BLOCK_SIZE * (b - a)) src)
      else cells (media c) b)"
    unfolding c2(4) c1(4) by (auto simp: fun_eq_iff add.commute)
  with c1(1) c2(1-3) show ?case by (simp add: add.commute)
qed (auto simp: fun_eq_iff)

end

end
