(* ===== verification/Disk.thy ===== *)
theory Disk
  imports Sd_Card Treedisk_Create
begin

section \<open>The disk\<close>

text \<open>
  \<^verbatim>\<open>earth/dev_disk.c\<close>, the driver that serves either the SD card or the read-only flash memory,
  and \<^verbatim>\<open>library/file/disk.c\<close>, the inode store that the file server puts the tree file system on.
  The flash memory is a function from the distance to address 20800000 (hexadecimal) to
  bytes.
\<close>

datatype disk_type = SD_CARD | FLASH_ROM

record 'c disk =
  dd_type :: disk_type
  dd_rom :: "int \<Rightarrow> byte"
  dd_dev :: 'c

definition disk_read :: "'c spi \<Rightarrow> int \<Rightarrow> int \<Rightarrow> 'c disk \<Rightarrow> (int \<times> byte list \<times> 'c disk) option" where
  "disk_read s block_no nblocks d =
    (if dd_type d = SD_CARD then
       do { (dst, c) \<leftarrow> sdread s block_no nblocks (dd_dev d); Some (0, dst, d\<lparr>dd_dev := c\<rparr>) }
     else Some (0, map (\<lambda>i. dd_rom d (block_no * int BLOCK_SIZE + int i)) [0..<nat (nblocks * int BLOCK_SIZE)], d))"

definition disk_write :: "'c spi \<Rightarrow> int \<Rightarrow> int \<Rightarrow> byte list \<Rightarrow> 'c disk \<Rightarrow> (int \<times> 'c disk) option" where
  "disk_write s block_no nblocks src d =
    (if dd_type d = FLASH_ROM then None
     else do { c \<leftarrow> sdwrite s block_no nblocks src (dd_dev d); Some (0, d\<lparr>dd_dev := c\<rparr>) })"

text \<open>
  \<^verbatim>\<open>for (buf[0] = 0; buf[0] != '0' && buf[0] != '1'; earth->tty_read_kernel(buf, 1));\<close>
\<close>

partial_function (option) read_choice :: "byte \<Rightarrow> tty \<Rightarrow> (byte \<times> tty) option" where
  "read_choice b t = (if b \<noteq> 0x30 \<and> b \<noteq> 0x31
     then do { (cs, t) \<leftarrow> tty_read_kernel 1 t; read_choice (hd cs) t } else Some (b, t))"

definition disk_init :: "'c spi \<Rightarrow> tty \<Rightarrow> 'c disk \<Rightarrow> ('c disk \<times> tty) option" where
  "disk_init s t d =
    do { (b, t) \<leftarrow> read_choice 0 t;
         let d = d\<lparr>dd_type := if b = 0x30 then SD_CARD else FLASH_ROM\<rparr>;
         if dd_type d = SD_CARD then do { (_, c) \<leftarrow> sdinit s (dd_dev d); Some (d\<lparr>dd_dev := c\<rparr>, t) }
         else Some (d, t) }"

subsection \<open>The inode store of the file server\<close>

abbreviation (input) GRASS_FS_START :: nat where "GRASS_FS_START \<equiv> 4096"

definition disk_getsize :: "nat \<Rightarrow> 'c disk \<Rightarrow> (int \<times> 'c disk) option" where
  "disk_getsize ino d = Some (2097152 div 512, d)"

definition disk_setsize :: "nat \<Rightarrow> nat \<Rightarrow> 'c disk \<Rightarrow> (int \<times> 'c disk) option" where
  "disk_setsize ino nblocks d = None"

definition fs_disk_read :: "'c spi \<Rightarrow> nat \<Rightarrow> nat \<Rightarrow> block \<Rightarrow> 'c disk \<Rightarrow> (int \<times> block \<times> 'c disk) option" where
  "fs_disk_read s ino offset block d = disk_read s (int_of_u32 ((GRASS_FS_START + offset) mod UINT)) 1 d"

definition fs_disk_write :: "'c spi \<Rightarrow> nat \<Rightarrow> nat \<Rightarrow> block \<Rightarrow> 'c disk \<Rightarrow> (int \<times> 'c disk) option" where
  "fs_disk_write s ino offset block d = disk_write s (int_of_u32 ((GRASS_FS_START + offset) mod UINT)) 1 block d"

definition fs_disk_init :: "'c spi \<Rightarrow> 'c disk inode_store" where
  "fs_disk_init s = \<lparr>st_getsize = disk_getsize, st_setsize = disk_setsize,
     st_read = fs_disk_read s, st_write = fs_disk_write s\<rparr>"

text \<open>A card that has room for the image: 8192 blocks, the upper half for the file system.\<close>

definition card_blocks :: "('c \<Rightarrow> 'k) \<Rightarrow> ('k \<Rightarrow> nat \<Rightarrow> byte list) \<Rightarrow> 'c disk \<Rightarrow> blocks" where
  "card_blocks media cells d b = cells (media (dd_dev d)) (GRASS_FS_START + b)"

definition card_ok :: "('c \<Rightarrow> 'k) \<Rightarrow> ('c \<Rightarrow> bool) \<Rightarrow> ('k \<Rightarrow> bool) \<Rightarrow> 'c disk \<Rightarrow> bool" where
  "card_ok media live ready d \<longleftrightarrow> dd_type d = SD_CARD \<and> live (dd_dev d) \<and> ready (media (dd_dev d))"

locale sd_disk = sd_card +
  assumes big: "8192 \<le> ncells"

context sd_disk
begin

lemma fs_read_card:
  assumes "card_ok media live ready d" "b < 4096"
  shows "\<exists>d'. st_read (fs_disk_init s) 0 b buf d = Some (0, card_blocks media cells d b, d') \<and> card_ok media live ready d'
     \<and> cells (media (dd_dev d')) = cells (media (dd_dev d))"
proof -
  have k: "dd_type d = SD_CARD" "live (dd_dev d)" "ready (media (dd_dev d))" using assms(1) by (auto simp: card_ok_def)
  have a: "int_of_u32 ((4096 + b) mod UINT) = int (4096 + b)" using assms(2) by (simp add: int_of_u32_def)
  have "4096 + b + 1 \<le> ncells" using big assms(2) by simp
  from sdread_ok [OF k(2,3) this] obtain c' where
    "sdread s (int (4096 + b)) 1 (dd_dev d) = Some (cells (media (dd_dev d)) (4096 + b), c')"
    "live c'" "ready (media c')" "cells (media c') = cells (media (dd_dev d))" by (auto simp: upt_conv_Cons [of "4096 + b" "4097 + b"])
  then show ?thesis using k(1) by (auto simp: fs_disk_init_def fs_disk_read_def disk_read_def a card_ok_def card_blocks_def)
qed

lemma fs_write_card:
  assumes "card_ok media live ready d" "b < 4096" "length blk = BLOCK_SIZE"
  shows "\<exists>d'. st_write (fs_disk_init s) 0 b blk d = Some (0, d') \<and> card_ok media live ready d'
     \<and> cells (media (dd_dev d')) = (cells (media (dd_dev d)))(GRASS_FS_START + b := blk)"
proof -
  have k: "dd_type d = SD_CARD" "live (dd_dev d)" "ready (media (dd_dev d))" using assms(1) by (auto simp: card_ok_def)
  have a: "int_of_u32 ((4096 + b) mod UINT) = int (4096 + b)" using assms(2) by (simp add: int_of_u32_def)
  have "4096 + b + 1 \<le> ncells" using big assms(2) by simp
  from sdwrite_ok [OF k(2,3) this, of blk] assms(3) obtain c' where
    "sdwrite s (int (4096 + b)) 1 blk (dd_dev d) = Some c'" "live c'" "ready (media c')"
    "cells (media c') = (\<lambda>i. if 4096 + b \<le> i \<and> i < 4096 + b + 1 then take BLOCK_SIZE (drop (BLOCK_SIZE * (i - (4096 + b))) blk)
        else cells (media (dd_dev d)) i)" by auto
  then show ?thesis
    using k(1) assms(3) by (auto simp: fs_disk_init_def fs_disk_write_def disk_write_def a card_ok_def fun_eq_iff)
qed

text \<open>The store of the file system keeps the lower half of the card, where the frames and the executables are.\<close>

lemma fs_store_low:
  "block_store (fs_disk_init s) 0 4096 (card_blocks media cells)
     (\<lambda>d. card_ok media live ready d \<and> (\<forall>b<GRASS_FS_START. cells (media (dd_dev d)) b = low b))"
proof unfold_locales
  fix d :: "'a disk" and b :: nat and buf blk :: block
  let ?ok = "\<lambda>d. card_ok media live ready d \<and> (\<forall>b<4096. cells (media (dd_dev d)) b = low b)"
  assume ok: "?ok d"
  show "\<exists>d'. st_getsize (fs_disk_init s) 0 d = Some (int 4096, d') \<and> ?ok d' \<and> card_blocks media cells d' = card_blocks media cells d"
    using ok by (simp add: fs_disk_init_def disk_getsize_def)
  assume b: "b < 4096"
  have "ready (media (dd_dev d))" "4096 + b < ncells" using ok big b by (auto simp: card_ok_def)
  from cell_length [OF this] show "length (card_blocks media cells d b) = BLOCK_SIZE" by (simp add: card_blocks_def)
  from fs_read_card [of d b buf] ok b show "\<exists>d'. st_read (fs_disk_init s) 0 b buf d = Some (0, card_blocks media cells d b, d') \<and> ?ok d'
      \<and> card_blocks media cells d' = card_blocks media cells d" by (auto simp: card_blocks_def fun_eq_iff)
  assume blk: "length blk = BLOCK_SIZE"
  from fs_write_card [of d b blk] ok b blk show "\<exists>d'. st_write (fs_disk_init s) 0 b blk d = Some (0, d') \<and> ?ok d'
      \<and> card_blocks media cells d' = (card_blocks media cells d)(b := blk)" by (auto simp: card_blocks_def fun_eq_iff)
qed simp

end

sublocale sd_disk \<subseteq> fs: block_store "fs_disk_init s" 0 4096 "card_blocks media cells" "card_ok media live ready"
proof unfold_locales
  fix d :: "'a disk" and b :: nat and buf blk :: block
  assume ok: "card_ok media live ready d"
  note L = fs_store_low [of "cells (media (dd_dev d))"]
  show "\<exists>d'. st_getsize (fs_disk_init s) 0 d = Some (int 4096, d') \<and> card_ok media live ready d'
      \<and> card_blocks media cells d' = card_blocks media cells d"
    using ok by (simp add: fs_disk_init_def disk_getsize_def)
  assume b: "b < 4096"
  show "length (card_blocks media cells d b) = BLOCK_SIZE" using block_store.block_length [OF L _ b, of d] ok by simp
  show "\<exists>d'. st_read (fs_disk_init s) 0 b buf d = Some (0, card_blocks media cells d b, d') \<and> card_ok media live ready d'
      \<and> card_blocks media cells d' = card_blocks media cells d" using block_store.read_ok [OF L _ b, of d buf] ok by auto
  assume blk: "length blk = BLOCK_SIZE"
  show "\<exists>d'. st_write (fs_disk_init s) 0 b blk d = Some (0, d') \<and> card_ok media live ready d'
      \<and> card_blocks media cells d' = (card_blocks media cells d)(b := blk)" using block_store.write_ok [OF L _ b blk, of d] ok by auto
qed simp

context sd_disk
begin

lemma fs_store: "block_store (fs_disk_init s) 0 4096 (card_blocks media cells) (card_ok media live ready)"
  by (rule fs.block_store_axioms)

end

end
