(* ===== verification/Sd_Sim.thy ===== *)
theory Sd_Sim
  imports Disk
begin

section \<open>A card that keeps the contract\<close>

text \<open>
  A small SDHC card in SPI mode with 8192 blocks: it collects a command frame, answers CMD17
  and CMD24 after some idle bytes, and is busy for two bytes after a write. \<open>sd_disk\<close> is
  interpreted on it, so its assumptions can hold, and the statements about the driver and
  the file system are instantiated on it.
\<close>

datatype sim_mode = Sim_Idle | Sim_Frame "byte list" | Sim_Await nat | Sim_Data nat "byte list"

record sim_card =
  sim_mode :: sim_mode
  sim_out :: "byte list"
  sim_cells :: "nat \<Rightarrow> byte list"

definition sim_addr :: "byte list \<Rightarrow> nat" where
  "sim_addr f = unat (f ! 1) * 16777216 + unat (f ! 2) * 65536 + unat (f ! 3) * 256 + unat (f ! 4)"

definition sim_exec :: "byte list \<Rightarrow> sim_card \<Rightarrow> sim_card" where
  "sim_exec f k = (if f ! 0 = 0x51 then
       k\<lparr>sim_mode := Sim_Idle, sim_out := [0xFF, 0, 0xFF, 0xFF, 0xFE] @ sim_cells k (sim_addr f) @ [0xAA, 0xBB]\<rparr>
     else if f ! 0 = 0x58 then k\<lparr>sim_mode := Sim_Await (sim_addr f), sim_out := [0xFF, 0]\<rparr>
     else k\<lparr>sim_mode := Sim_Idle, sim_out := [0x04]\<rparr>)"

definition sim_input :: "byte \<Rightarrow> sim_card \<Rightarrow> sim_card" where
  "sim_input b k = (case sim_mode k of
     Sim_Idle \<Rightarrow> if b AND 0xC0 = 0x40 then k\<lparr>sim_mode := Sim_Frame [b]\<rparr> else k
   | Sim_Frame f \<Rightarrow> if length f = 5 then sim_exec (f @ [b]) k else k\<lparr>sim_mode := Sim_Frame (f @ [b])\<rparr>
   | Sim_Await a \<Rightarrow> if b = 0xFE then k\<lparr>sim_mode := Sim_Data a []\<rparr> else k
   | Sim_Data a ds \<Rightarrow> if length ds = 513
       then k\<lparr>sim_mode := Sim_Idle, sim_out := [0xFF, 0xE5, 0, 0], sim_cells := (sim_cells k)(a := take 512 ds)\<rparr>
       else k\<lparr>sim_mode := Sim_Data a (ds @ [b])\<rparr>)"

definition sim_xfer :: "byte \<Rightarrow> sim_card \<Rightarrow> byte \<times> sim_card" where
  "sim_xfer b k = (case sim_out k of r # rs \<Rightarrow> (r, k\<lparr>sim_out := rs\<rparr>) | [] \<Rightarrow> (0xFF, sim_input b k))"

text \<open>The controller: the card and the byte received last.\<close>

definition sim_spi :: "(sim_card \<times> byte) spi" where
  "sim_spi = \<lparr>spi_get = (\<lambda>reg c. (if reg = SPI1_RXDATA then ucast (snd c) else 0, c)),
     spi_put = (\<lambda>reg w c. if reg = SPI1_TXDATA then (case sim_xfer (ucast w) (fst c) of (r, k) \<Rightarrow> (k, r)) else c)\<rparr>"

definition sim_wf :: "sim_card \<Rightarrow> bool" where
  "sim_wf k \<longleftrightarrow> (\<forall>a<8192. length (sim_cells k a) = 512)"

definition sim_ready :: "sim_card \<Rightarrow> bool" where
  "sim_ready k \<longleftrightarrow> sim_mode k = Sim_Idle \<and> 0xFF \<notin> set (sim_out k) \<and> sim_wf k"

definition sim_idle :: "sim_card \<Rightarrow> bool" where
  "sim_idle k \<longleftrightarrow> sim_mode k = Sim_Idle \<and> sim_out k = [] \<and> sim_wf k"

lemma sim_drain:
  "sim_out k = rs @ rs' \<Longrightarrow> spi_run sim_xfer (replicate (length rs) b) k = (rs, k\<lparr>sim_out := rs'\<rparr>)"
proof (induction rs arbitrary: k)
  case (Cons r rs)
  have "sim_xfer b k = (r, k\<lparr>sim_out := rs @ rs'\<rparr>)" using Cons.prems by (simp add: sim_xfer_def)
  then show ?case using Cons.IH [of "k\<lparr>sim_out := rs @ rs'\<rparr>"] by simp
qed simp

lemma sim_addr_block_cmd: "a < UINT \<Longrightarrow> sim_addr (block_cmd op (int a)) = a"
  using le32_split [of a] by (simp add: sim_addr_def block_cmd_def Let_def u32_of_int_def unat_byte_of_nat algebra_simps)

lemma sim_frame:
  "sim_mode k = Sim_Frame f \<Longrightarrow> sim_out k = [] \<Longrightarrow> length f + length bs \<le> 5 \<Longrightarrow>
    spi_run sim_xfer bs k = (replicate (length bs) 0xFF, k\<lparr>sim_mode := Sim_Frame (f @ bs)\<rparr>)"
proof (induction bs arbitrary: k f)
  case (Cons b bs)
  have "sim_xfer b k = (0xFF, k\<lparr>sim_mode := Sim_Frame (f @ [b])\<rparr>)"
    using Cons.prems by (simp add: sim_xfer_def sim_input_def)
  then show ?case using Cons.IH [of "k\<lparr>sim_mode := Sim_Frame (f @ [b])\<rparr>" "f @ [b]"] Cons.prems by simp
qed simp

lemma sim_command:
  assumes "sim_mode k = Sim_Idle" "sim_out k = []" "op AND 0xC0 = 0x40"
  shows "spi_run sim_xfer (block_cmd op (int a)) k = (replicate 6 0xFF, sim_exec (block_cmd op (int a)) k)"
proof -
  obtain as where c: "block_cmd op (int a) = [op] @ as @ [0xFF]" "length as = 4"
    by (simp add: block_cmd_def Let_def)
  let ?k1 = "k\<lparr>sim_mode := Sim_Frame [op]\<rparr>" and ?k2 = "k\<lparr>sim_mode := Sim_Frame ([op] @ as)\<rparr>"
  have o: "spi_run sim_xfer [op] k = ([0xFF], ?k1)" using assms by (simp add: sim_xfer_def sim_input_def)
  have f: "spi_run sim_xfer as ?k1 = (replicate 4 0xFF, ?k2)"
    using sim_frame [of ?k1 "[op]" as] c(2) assms(2) by simp
  have "sim_xfer 0xFF ?k2 = (0xFF, sim_exec (block_cmd op (int a)) ?k2)"
    unfolding c using c(2) assms(2) by (simp add: sim_xfer_def sim_input_def)
  moreover have "sim_exec cmd ?k2 = sim_exec cmd k" for cmd by (simp add: sim_exec_def)
  ultimately have e: "spi_run sim_xfer [0xFF] ?k2 = ([0xFF], sim_exec (block_cmd op (int a)) k)" by simp
  have "[0xFF] @ replicate 4 0xFF @ [0xFF] = (replicate 6 0xFF :: byte list)" by (simp add: numeral_eq_Suc)
  then show ?thesis unfolding c(1) spi_run_append o f e [unfolded c(1)] prod.case by simp
qed

lemma sim_collect:
  "sim_mode k = Sim_Data a ds \<Longrightarrow> sim_out k = [] \<Longrightarrow> length ds + length bs \<le> 513 \<Longrightarrow>
    spi_run sim_xfer bs k = (replicate (length bs) 0xFF, k\<lparr>sim_mode := Sim_Data a (ds @ bs)\<rparr>)"
proof (induction bs arbitrary: k ds)
  case (Cons b bs)
  have "sim_xfer b k = (0xFF, k\<lparr>sim_mode := Sim_Data a (ds @ [b])\<rparr>)"
    using Cons.prems by (simp add: sim_xfer_def sim_input_def)
  then show ?case using Cons.IH [of "k\<lparr>sim_mode := Sim_Data a (ds @ [b])\<rparr>" "ds @ [b]"] Cons.prems by simp
qed simp

lemma sim_busy:
  assumes "sim_ready k"
  shows "\<exists>rs k'. 0xFF \<notin> set rs \<and> spi_run sim_xfer (replicate (Suc (length rs)) 0xFF) k = (rs @ [0xFF], k')
      \<and> sim_idle k' \<and> sim_cells k' = sim_cells k"
proof (intro exI conjI)
  let ?k = "k\<lparr>sim_out := []\<rparr>"
  show "0xFF \<notin> set (sim_out k)" using assms by (simp add: sim_ready_def)
  have "sim_xfer 0xFF ?k = (0xFF, ?k)" using assms by (simp add: sim_xfer_def sim_input_def sim_ready_def)
  moreover have "replicate (Suc (length (sim_out k))) 0xFF = replicate (length (sim_out k)) 0xFF @ [0xFF :: byte]"
    by (simp add: replicate_append_same)
  ultimately show "spi_run sim_xfer (replicate (Suc (length (sim_out k))) 0xFF) k = (sim_out k @ [0xFF], ?k)"
    using sim_drain [of k "sim_out k" "[]" "0xFF"] by (simp only: spi_run_append append_Nil2) simp
  show "sim_idle ?k" "sim_cells ?k = sim_cells k" using assms by (auto simp: sim_idle_def sim_ready_def sim_wf_def)
qed

lemma sim_cmd17:
  assumes k: "sim_idle k" and a: "a < 8192"
  shows "\<exists>pre m n crc k'. length pre = 6 \<and> length crc = 2 \<and> m < 8000
      \<and> spi_run sim_xfer (block_cmd 0x51 (int a) @ replicate (Suc m) 0xFF @ replicate (Suc n) 0xFF
            @ replicate BLOCK_SIZE 0xFF @ replicate 2 0xFF) k
        = (pre @ (replicate m 0xFF @ [0]) @ (replicate n 0xFF @ [0xFE]) @ sim_cells k a @ crc, k')
      \<and> sim_ready k' \<and> sim_cells k' = sim_cells k"
proof (intro exI conjI)
  let ?out = "(replicate 1 0xFF @ [0]) @ (replicate 2 0xFF @ [0xFE]) @ sim_cells k a @ [0xAA, 0xBB :: byte]"
  let ?k = "k\<lparr>sim_mode := Sim_Idle, sim_out := ?out\<rparr>" and ?k' = "k\<lparr>sim_mode := Sim_Idle, sim_out := []\<rparr>"
  have len: "length (sim_cells k a) = 512" using k a by (simp add: sim_idle_def sim_wf_def)
  have "sim_exec (block_cmd 0x51 (int a)) k = ?k"
    using sim_addr_block_cmd [of a "0x51"] a by (simp add: sim_exec_def numeral_2_eq_2) (simp add: block_cmd_def Let_def)
  then have c: "spi_run sim_xfer (block_cmd 0x51 (int a)) k = (replicate 6 0xFF, ?k)"
    using sim_command [of k "0x51" a] k by (simp add: sim_idle_def)
  have d: "spi_run sim_xfer (replicate (length ?out) 0xFF) ?k = (?out, ?k')"
    using sim_drain [of ?k ?out "[]" "0xFF"] by simp
  have l: "length ?out = Suc 1 + (Suc 2 + (512 + 2))" using len by simp
  have r: "replicate (length ?out) (0xFF :: byte) = replicate (Suc 1) 0xFF @ replicate (Suc 2) 0xFF @ replicate 512 0xFF @ replicate 2 0xFF"
    unfolding l by (simp only: replicate_add)
  show "spi_run sim_xfer (block_cmd 0x51 (int a) @ replicate (Suc 1) 0xFF @ replicate (Suc 2) 0xFF
            @ replicate BLOCK_SIZE 0xFF @ replicate 2 0xFF) k
        = (replicate 6 0xFF @ (replicate 1 0xFF @ [0]) @ (replicate 2 0xFF @ [0xFE]) @ sim_cells k a @ [0xAA, 0xBB], ?k')"
    unfolding spi_run_append [of _ "block_cmd _ _"] c prod.case d [unfolded r] ..
  show "sim_ready ?k'" using k by (simp add: sim_ready_def sim_idle_def sim_wf_def)
qed simp_all

lemma sim_cmd24:
  assumes k: "sim_idle k" and a: "a < 8192" and blk: "length blk = BLOCK_SIZE"
  shows "\<exists>pre m mid n ack k'. length pre = 6
      \<and> length mid = BLOCK_SIZE + 3 \<and> m < 8000 \<and> ack \<noteq> 0xFF \<and> ack AND 0x1F = 0x05
      \<and> spi_run sim_xfer (block_cmd 0x58 (int a) @ replicate (Suc m) 0xFF @ ([0xFE] @ blk @ [0xFF, 0xFF]) @ replicate (Suc n) 0xFF) k
        = (pre @ (replicate m 0xFF @ [0]) @ mid @ (replicate n 0xFF @ [ack]), k') \<and> sim_ready k' \<and> sim_cells k' = (sim_cells k)(a := blk)"
proof (intro exI conjI)
  let ?k1 = "k\<lparr>sim_mode := Sim_Await a, sim_out := [0xFF, 0]\<rparr>" and ?k2 = "k\<lparr>sim_mode := Sim_Await a, sim_out := []\<rparr>"
  let ?k3 = "k\<lparr>sim_mode := Sim_Data a [], sim_out := []\<rparr>" and ?k4 = "k\<lparr>sim_mode := Sim_Data a (blk @ [0xFF]), sim_out := []\<rparr>"
  let ?k5 = "k\<lparr>sim_mode := Sim_Idle, sim_out := [0xFF, 0xE5, 0, 0], sim_cells := (sim_cells k)(a := blk)\<rparr>"
  let ?k6 = "k\<lparr>sim_mode := Sim_Idle, sim_out := [0, 0], sim_cells := (sim_cells k)(a := blk)\<rparr>"
  have "sim_exec (block_cmd 0x58 (int a)) k = ?k1"
    using sim_addr_block_cmd [of a "0x58"] a by (simp add: sim_exec_def) (simp add: block_cmd_def Let_def)
  then have c: "spi_run sim_xfer (block_cmd 0x58 (int a)) k = (replicate 6 0xFF, ?k1)"
    using sim_command [of k "0x58" a] k by (simp add: sim_idle_def)
  have r: "spi_run sim_xfer (replicate (Suc 1) 0xFF) ?k1 = (replicate 1 0xFF @ [0], ?k2)"
    using sim_drain [of ?k1 "[0xFF, 0]" "[]" "0xFF"] by (simp add: numeral_2_eq_2)
  have t: "spi_run sim_xfer [0xFE] ?k2 = ([0xFF], ?k3)" by (simp add: sim_xfer_def sim_input_def)
  have p: "spi_run sim_xfer (blk @ [0xFF]) ?k3 = (replicate 513 0xFF, ?k4)"
    using sim_collect [of ?k3 a "[]" "blk @ [0xFF]"] blk by simp
  have e: "spi_run sim_xfer [0xFF] ?k4 = ([0xFF], ?k5)" using blk by (simp add: sim_xfer_def sim_input_def)
  have l: "[0xFE] @ blk @ [0xFF, 0xFF :: byte] = [0xFE] @ (blk @ [0xFF]) @ [0xFF]" by simp
  have m: "spi_run sim_xfer ([0xFE] @ blk @ [0xFF, 0xFF]) ?k2 = ([0xFF] @ replicate 513 0xFF @ [0xFF], ?k5)"
    unfolding l spi_run_append [of _ "[0xFE]"] t prod.case spi_run_append [of _ "blk @ [0xFF]"] p e ..
  have q: "spi_run sim_xfer (replicate (Suc 1) 0xFF) ?k5 = (replicate 1 0xFF @ [0xE5], ?k6)"
    using sim_drain [of ?k5 "[0xFF, 0xE5]" "[0, 0]" "0xFF"] by (simp add: numeral_2_eq_2)
  show "spi_run sim_xfer (block_cmd 0x58 (int a) @ replicate (Suc 1) 0xFF @ ([0xFE] @ blk @ [0xFF, 0xFF]) @ replicate (Suc 1) 0xFF) k
      = (replicate 6 0xFF @ (replicate 1 0xFF @ [0]) @ ([0xFF] @ replicate 513 0xFF @ [0xFF]) @ (replicate 1 0xFF @ [0xE5]), ?k6)"
    unfolding spi_run_append [of _ "block_cmd _ _"] c prod.case spi_run_append [of _ "replicate (Suc 1) _"] r
      spi_run_append [of _ "[0xFE] @ _"] m q ..
  show "sim_ready ?k6" using k blk by (simp add: sim_ready_def sim_idle_def sim_wf_def)
  show "length ([0xFF] @ replicate 513 0xFF @ [0xFF :: byte]) = BLOCK_SIZE + 3" by simp
qed simp_all

lemma rx_byte: "ucast (ucast v AND 0xFF :: u32) = v" "ucast v AND 0x80000000 = (0 :: u32)" for v :: byte
proof -
  have m: "(0xFF :: u32) = mask 8" by (simp add: mask_eq_exp_minus_1)
  show "ucast (ucast v AND 0xFF :: u32) = v"
    unfolding m by (rule bit_word_eqI) (auto simp: bit_simps)
  have e: "(0x80000000 :: u32) = 2 ^ 31" by simp
  show "ucast v AND 0x80000000 = (0 :: u32)"
    unfolding e and_exp_eq_0_iff_not_bit using bit_imp_le_length [of v 31] by (auto simp: bit_simps)
qed

interpretation sim: sd_disk sim_spi fst sim_xfer "\<lambda>_. True" "\<lambda>v c. snd c = v" "\<lambda>_. 0" "\<lambda>_. 0"
  sim_ready sim_idle sim_cells 8192
proof (unfold_locales, goal_cases)
  case (1 c r c')
  then show ?case by (auto simp: sim_spi_def)
next
  case (2 c b v k)
  have "ucast (ucast b :: u32) = b" by (rule bit_word_eqI) (simp add: bit_simps)
  with 2 show ?case by (simp add: sim_spi_def)
next
  case (3 v c r c')
  then show ?case by (auto simp: sim_spi_def rx_byte)
next
  case (4 k)
  then show ?case by (rule sim_busy)
next
  case (5 k a)
  then show ?case by (rule sim_cmd17)
next
  case (6 k a blk)
  then show ?case by (rule sim_cmd24)
next
  case (7 k a)
  then show ?case by (simp add: sim_ready_def sim_wf_def)
qed simp


subsection \<open>What the driver and the file system guarantee\<close>

text \<open>
  C18. What is written to the card is read back: on any card that keeps the SPI protocol,
  writing any number of blocks succeeds, reading them back gives the bytes that were written,
  and no other block changes, whatever delays and busy phases the card takes.
\<close>

theorem sd_write_read:
  assumes "sd_card s media xfer live loaded txw rxw ready idle cells ncells"
    and "live c" "ready (media c)" "a + n \<le> ncells" "length src = BLOCK_SIZE * n"
  shows "\<exists>c1 c2. sdwrite s (int a) (int n) src c = Some c1 \<and> sdread s (int a) (int n) c1 = Some (src, c2)
     \<and> (\<forall>b. b < a \<or> a + n \<le> b \<longrightarrow> cells (media c2) b = cells (media c) b)"
proof -
  note W = sd_card.sdwrite_ok [OF assms(1-4)] and R = sd_card.sdread_ok [OF assms(1) _ _ assms(4)]
  obtain c1 where c1: "sdwrite s (int a) (int n) src c = Some c1" "live c1" "ready (media c1)"
    "cells (media c1) = (\<lambda>b. if a \<le> b \<and> b < a + n then take BLOCK_SIZE (drop (BLOCK_SIZE * (b - a)) src) else cells (media c) b)"
    using W [of src] assms(5) by fastforce
  have "map (cells (media c1)) [a..<a + n] = map (\<lambda>b. take 512 (drop (512 * (b - a)) src)) [a..<a + n]"
    by (simp add: c1(4))
  then have "concat (map (cells (media c1)) [a..<a + n]) = src" using concat_blocks [OF assms(5), of a] by (simp only:)
  with R [OF c1(2,3)] obtain c2 where "sdread s (int a) (int n) c1 = Some (src, c2)" "cells (media c2) = cells (media c1)"
    by auto
  with c1(1,4) show ?thesis by auto
qed

text \<open>An empty card, and the disk on it.\<close>

definition blank_card :: "sim_card \<times> byte" where
  "blank_card = (\<lparr>sim_mode = Sim_Idle, sim_out = [], sim_cells = (\<lambda>_. null_block)\<rparr>, 0)"

definition blank_disk :: "(sim_card \<times> byte) disk" where
  "blank_disk = \<lparr>dd_type = SD_CARD, dd_rom = (\<lambda>_. 0), dd_dev = blank_card\<rparr>"

lemma blank_card_ready: "sim_ready (fst blank_card)"
  by (simp add: blank_card_def sim_ready_def sim_wf_def null_block_def)

theorem sd_write_read_witness:
  "\<exists>c1 c2. sdwrite sim_spi (int 7) (int 2) (replicate 1024 5) blank_card = Some c1
     \<and> sdread sim_spi (int 7) (int 2) c1 = Some (replicate 1024 5, c2)"
  using sd_write_read [OF sim.sd_card_axioms TrueI blank_card_ready, of 7 2 "replicate 1024 5"] by auto

text \<open>
  C6. The file system on the card: with a file system on the SD card, writing a block through
  \<^verbatim>\<open>treedisk_write\<close>, \<^verbatim>\<open>disk_write\<close> and the SD driver succeeds and makes the file system's files
  those of the abstract write; reading the block afterwards through all three layers returns
  it.
\<close>

theorem fs_disk_write_read:
  assumes "sd_disk s media xfer live loaded txw rxw ready idle cells ncells"
    and "card_ok media live ready d" "fs_inv (card_blocks media cells d) ni 4096 free" "i < 64 * ni" "off + 1 < UINT"
    and "length blk = BLOCK_SIZE" "11 \<le> length free"
  shows "\<exists>d1 d2 free'. st_write (treedisk_init (fs_disk_init s) 0) i off blk d = Some (0, d1)
     \<and> card_ok media live ready d1 \<and> fs_inv (card_blocks media cells d1) ni 4096 free'
     \<and> (\<forall>j<64 * ni. file_of (card_blocks media cells d1) j =
          (if j = i then file_write (file_of (card_blocks media cells d) i) off blk else file_of (card_blocks media cells d) j))
     \<and> st_read (treedisk_init (fs_disk_init s) 0) i off buf d1 = Some (0, blk, d2)"
proof -
  have bs: "block_store (fs_disk_init s) 0 4096 (card_blocks media cells) (card_ok media live ready)"
    by (rule sd_disk.fs_store [OF assms(1)])
  let ?T = "treedisk_new (fs_disk_init s) 0"
  obtain d1 free' where d1: "treedisk_write ?T i off blk d = Some (0, d1)" "card_ok media live ready d1"
    "fs_inv (card_blocks media cells d1) ni 4096 free'"
    "\<forall>j<64 * ni. file_of (card_blocks media cells d1) j =
          (if j = i then file_write (file_of (card_blocks media cells d) i) off blk else file_of (card_blocks media cells d) j)"
    using block_store.write_files [OF bs assms(2-7)] by blast
  have f: "file_of (card_blocks media cells d1) i = file_write (file_of (card_blocks media cells d) i) off blk"
    using d1(4) assms(4) by simp
  have "\<exists>d2. treedisk_read ?T i off buf d1 = Some (0, blk, d2)"
    using block_store.read_file [OF bs d1(2,3), of i off buf] assms(4) by (auto simp: f file_write_def)
  with d1 show ?thesis by (auto simp: treedisk_init_def Let_def)
qed

theorem fs_disk_write_read_witness:
  "\<exists>d0 d1 d2. treedisk_create (fs_disk_init sim_spi) 0 NINODES blank_disk = Some (0, d0)
     \<and> st_write (treedisk_init (fs_disk_init sim_spi) 0) 3 200 (replicate 512 9) d0 = Some (0, d1)
     \<and> st_read (treedisk_init (fs_disk_init sim_spi) 0) 3 200 [] d1 = Some (0, replicate 512 9, d2)"
proof -
  have ok: "card_ok fst (\<lambda>_. True) sim_ready blank_disk"
    using blank_card_ready by (simp add: card_ok_def blank_disk_def)
  have "n_inodeblocks (card_blocks fst sim_cells blank_disk 0) = 0"
    by (simp add: card_blocks_def blank_disk_def blank_card_def n_inodeblocks_def null_block_def get32_replicate0)
  then obtain d0 free where d0: "treedisk_create (fs_disk_init sim_spi) 0 NINODES blank_disk = Some (0, d0)"
    "card_ok fst (\<lambda>_. True) sim_ready d0" "fs_inv (card_blocks fst sim_cells d0) 2 4096 free" "distinct free" "set free = {3..<4096}"
    using sim.fs.create_spec [OF ok, of NINODES 2] by auto
  have "length free = 4093" using distinct_card [OF d0(4)] d0(5) by simp
  then have "(3::nat) < 64 * 2" "200 + 1 < UINT" "length (replicate 512 9 :: block) = BLOCK_SIZE" "11 \<le> length free" by simp_all
  from fs_disk_write_read [OF sim.sd_disk_axioms d0(2,3) this, of "[]"] d0(1) show ?thesis by blast
qed

end
