(* ===== verification/Paging.thy ===== *)
theory Paging
  imports Sd_Sim Timer
begin

section \<open>The paging device\<close>

text \<open>
  \<^verbatim>\<open>earth/dev_page.c\<close>. A frame is 4096 bytes. On QEMU all 256 frames are in memory from
  \<^verbatim>\<open>pages_start\<close> on; on the Arty board 28 of them are cached there and all of them have a place
  on the disk. \<open>pages i\<close> is the memory at \<^verbatim>\<open>pages_start + PAGE_SIZE * i\<close>, so that the address
  \<^verbatim>\<open>paging_read\<close> returns is a slot number. \<^verbatim>\<open>rand\<close> belongs to the C library: \<open>rands n\<close> is what its
  call number \<open>n\<close> returns.
\<close>

abbreviation (input) ARTY_CACHED_NFRAMES :: nat where "ARTY_CACHED_NFRAMES \<equiv> 28"
abbreviation (input) NBLOCKS_PER_PAGE :: nat where "NBLOCKS_PER_PAGE \<equiv> 8"
abbreviation (input) NFRAMES :: nat where "NFRAMES \<equiv> 256"

record 'c pager =
  pg_platform :: platform
  cache_slots :: "int list"
  pages :: "nat \<Rightarrow> byte list"
  rands :: "nat \<Rightarrow> nat"
  nrand :: nat
  pg_disk :: "'c disk"

definition cache_eviction :: "'c spi \<Rightarrow> 'c pager \<Rightarrow> (nat \<times> 'c pager) option" where
  "cache_eviction s p =
    (let idx = rands p (nrand p) mod ARTY_CACHED_NFRAMES;
         frame_id = cache_slots p ! idx
     in do { (_, d) \<leftarrow> disk_write s (frame_id * int NBLOCKS_PER_PAGE) (int NBLOCKS_PER_PAGE) (pages p idx) (pg_disk p);
             Some (idx, p\<lparr>nrand := nrand p + 1, pg_disk := d\<rparr>) })"

definition paging_init :: "'c pager \<Rightarrow> 'c pager" where
  "paging_init p = p\<lparr>cache_slots := replicate ARTY_CACHED_NFRAMES (- 1)\<rparr>"

definition paging_invalidate_cache :: "nat \<Rightarrow> 'c pager \<Rightarrow> 'c pager" where
  "paging_invalidate_cache frame_id p =
    p\<lparr>cache_slots := map (\<lambda>x. if x = int frame_id then - 1 else x) (cache_slots p)\<rparr>"

text \<open>\<open>src\<close> is the user page that is written, the memory at \<^verbatim>\<open>page_no << 12\<close>.\<close>

definition paging_write :: "'c spi \<Rightarrow> nat \<Rightarrow> byte list \<Rightarrow> 'c pager \<Rightarrow> 'c pager option" where
  "paging_write s frame_id src p =
    (if pg_platform p = QEMU then Some (p\<lparr>pages := (pages p)(frame_id := src)\<rparr>)
     else case find_index (\<lambda>x. x = int frame_id) (cache_slots p) of
       Some i \<Rightarrow> Some (p\<lparr>pages := (pages p)(i := src)\<rparr>)
     | None \<Rightarrow>
         do { (free_idx, p) \<leftarrow> cache_eviction s p;
              Some (p\<lparr>cache_slots := (cache_slots p)[free_idx := int frame_id],
                      pages := (pages p)(free_idx := src)\<rparr>) })"

definition paging_read :: "'c spi \<Rightarrow> nat \<Rightarrow> bool \<Rightarrow> 'c pager \<Rightarrow> (nat \<times> 'c pager) option" where
  "paging_read s frame_id alloc_only p =
    (if pg_platform p = QEMU then Some (frame_id, p)
     else case find_index (\<lambda>x. x = int frame_id) (cache_slots p) of
       Some i \<Rightarrow> Some (i, p)
     | None \<Rightarrow>
         do { (free_idx, p) \<leftarrow> (case find_index (\<lambda>x. x = - 1) (cache_slots p) of
                Some i \<Rightarrow> Some (i, p) | None \<Rightarrow> cache_eviction s p);
              let p = p\<lparr>cache_slots := (cache_slots p)[free_idx := int frame_id]\<rparr>;
              if alloc_only then Some (free_idx, p)
              else do { (_, dst, d) \<leftarrow> disk_read s (int frame_id * int NBLOCKS_PER_PAGE) (int NBLOCKS_PER_PAGE) (pg_disk p);
                        Some (free_idx, p\<lparr>pages := (pages p)(free_idx := dst), pg_disk := d\<rparr>) } })"

text \<open>What a caller does with the address: it overwrites the page there.\<close>

definition page_store :: "nat \<Rightarrow> byte list \<Rightarrow> 'c pager \<Rightarrow> 'c pager" where
  "page_store i b p = p\<lparr>pages := (pages p)(i := b)\<rparr>"

subsection \<open>The contract of a frame store\<close>

text \<open>
  Frames with a content each, of which 256 can be used. Writing a frame changes only its
  content. Reading a frame gives a slot that holds it, and changes nothing (when only space is
  wanted, nothing else); storing to a slot changes the content of the frame it holds. The
  frames from 256 on stand for the rest of the disk, 4096 bytes each.
\<close>

locale frame_source =
  fixes rd :: "nat \<Rightarrow> bool \<Rightarrow> 'p \<Rightarrow> (nat \<times> 'p) option" and store :: "nat \<Rightarrow> byte list \<Rightarrow> 'p \<Rightarrow> 'p" and mem :: "'p \<Rightarrow> nat \<Rightarrow> byte list"
    and content :: "'p \<Rightarrow> nat \<Rightarrow> byte list" and holds :: "'p \<Rightarrow> nat \<Rightarrow> nat \<Rightarrow> bool" and ok :: "'p \<Rightarrow> bool"
  assumes rd_ok: "ok p \<Longrightarrow> f < NFRAMES \<Longrightarrow> \<exists>i p'. rd f alloc p = Some (i, p') \<and> ok p' \<and> holds p' i f
      \<and> (alloc \<or> content p' f = content p f) \<and> (\<forall>g. g \<noteq> f \<longrightarrow> content p' g = content p g)"
    and store_ok: "ok p \<Longrightarrow> f < NFRAMES \<Longrightarrow> holds p i f \<Longrightarrow> length b = PAGE_SIZE \<Longrightarrow> ok (store i b p) \<and> holds (store i b p) i f
      \<and> content (store i b p) = (content p)(f := b)"
    and holds_mem: "ok p \<Longrightarrow> f < NFRAMES \<Longrightarrow> holds p i f \<Longrightarrow> mem p i = content p f"
    and content_length: "ok p \<Longrightarrow> f < NFRAMES \<Longrightarrow> length (content p f) = PAGE_SIZE"

locale frame_store = frame_source +
  fixes wr :: "nat \<Rightarrow> byte list \<Rightarrow> 'a \<Rightarrow> 'a option"
  assumes wr_ok: "ok p \<Longrightarrow> f < NFRAMES \<Longrightarrow> length b = PAGE_SIZE \<Longrightarrow> \<exists>p'. wr f b p = Some p' \<and> ok p' \<and> content p' = (content p)(f := b)"

locale paging_source = frame_source "paging_read s" page_store pages content holds ok
  for s :: "'c spi" and content :: "'c pager \<Rightarrow> nat \<Rightarrow> byte list" and holds :: "'c pager \<Rightarrow> nat \<Rightarrow> nat \<Rightarrow> bool"
    and ok :: "'c pager \<Rightarrow> bool"

locale paging_device = frame_store "paging_read s" page_store pages content holds ok "paging_write s"
  for s :: "'c spi" and content :: "'c pager \<Rightarrow> nat \<Rightarrow> byte list" and holds :: "'c pager \<Rightarrow> nat \<Rightarrow> nat \<Rightarrow> bool"
    and ok :: "'c pager \<Rightarrow> bool"

sublocale paging_device \<subseteq> paging_source ..

text \<open>
  A sequence of operations as the memory management unit makes them, against the paging device
  and against 256 frames in a flat memory.
\<close>

datatype frame_op = Frame_write nat "byte list" | Frame_read nat | Frame_fill nat "byte list"

primrec frame_in :: "frame_op \<Rightarrow> bool" where
  "frame_in (Frame_write f b) \<longleftrightarrow> f < NFRAMES \<and> length b = PAGE_SIZE"
| "frame_in (Frame_read f) \<longleftrightarrow> f < NFRAMES"
| "frame_in (Frame_fill f b) \<longleftrightarrow> f < NFRAMES \<and> length b = PAGE_SIZE"

fun paging_run :: "'c spi \<Rightarrow> frame_op list \<Rightarrow> 'c pager \<Rightarrow> (byte list list \<times> 'c pager) option" where
  "paging_run s [] p = Some ([], p)"
| "paging_run s (Frame_write f b # ops) p = do { p \<leftarrow> paging_write s f b p; paging_run s ops p }"
| "paging_run s (Frame_read f # ops) p =
     do { (i, p) \<leftarrow> paging_read s f False p; (outs, p') \<leftarrow> paging_run s ops p; Some (pages p i # outs, p') }"
| "paging_run s (Frame_fill f b # ops) p = do { (i, p) \<leftarrow> paging_read s f True p; paging_run s ops (page_store i b p) }"

fun flat_run :: "frame_op list \<Rightarrow> (nat \<Rightarrow> byte list) \<Rightarrow> byte list list \<times> (nat \<Rightarrow> byte list)" where
  "flat_run [] m = ([], m)"
| "flat_run (Frame_write f b # ops) m = flat_run ops (m(f := b))"
| "flat_run (Frame_read f # ops) m = (let (outs, m') = flat_run ops m in (m f # outs, m'))"
| "flat_run (Frame_fill f b # ops) m = flat_run ops (m(f := b))"

context paging_device
begin

lemma run_refines:
  assumes "ok p" "\<forall>op\<in>set ops. frame_in op"
  shows "\<exists>p'. paging_run s ops p = Some (fst (flat_run ops (content p)), p') \<and> ok p' \<and> content p' = snd (flat_run ops (content p))"
  using assms
proof (induction ops arbitrary: p)
  case Nil
  then show ?case by simp
next
  case (Cons op ops)
  have step: ?case if "ok q" "flat_run (op # ops) (content p) = (out @ fst (flat_run ops (content q)), snd (flat_run ops (content q)))"
    "\<And>outs p'. paging_run s ops q = Some (outs, p') \<Longrightarrow> paging_run s (op # ops) p = Some (out @ outs, p')" for q out
    using Cons.IH [OF that(1)] Cons.prems(2) that(2,3) by fastforce
  show ?case
  proof (cases op)
    case (Frame_write f b)
    obtain q where q: "paging_write s f b p = Some q" "ok q" "content q = (content p)(f := b)"
      using wr_ok [of p f b] Cons.prems Frame_write by auto
    show ?thesis using q Frame_write by (intro step [where q = q and out = "[]"]) simp_all
  next
    case (Frame_read f)
    obtain i q where q: "paging_read s f False p = Some (i, q)" "ok q" "\<forall>g. content q g = content p g" "pages q i = content p f"
      using rd_ok [of p f False] holds_mem Cons.prems Frame_read by (metis frame_in.simps(2) list.set_intros(1))
    then have "content q = content p" by blast
    with q Frame_read show ?thesis by (intro step [where q = q and out = "[content p f]"]) (simp_all add: split_beta Let_def)
  next
    case (Frame_fill f b)
    then have f: "f < NFRAMES" "length b = PAGE_SIZE" using Cons.prems(2) by simp_all
    obtain i q where q: "paging_read s f True p = Some (i, q)" "\<forall>g. g \<noteq> f \<longrightarrow> content q g = content p g" "ok q" "holds q i f"
      using rd_ok [OF Cons.prems(1) f(1), of True] by blast
    have "ok (page_store i b q)" "content (page_store i b q) = (content p)(f := b)"
      using store_ok [OF q(3) f(1) q(4) f(2)] q(2) by (auto simp: fun_eq_iff)
    with q(1) Frame_fill show ?thesis by (intro step [where q = "page_store i b q" and out = "[]"]) simp_all
  qed
qed

end

subsection \<open>QEMU\<close>

definition qemu_ok :: "'c pager \<Rightarrow> bool" where
  "qemu_ok p \<longleftrightarrow> pg_platform p = QEMU \<and> dd_type (pg_disk p) = FLASH_ROM \<and> (\<forall>f<NFRAMES. length (pages p f) = PAGE_SIZE)"

definition qemu_content :: "'c pager \<Rightarrow> nat \<Rightarrow> byte list" where
  "qemu_content p f = (if f < NFRAMES then pages p f
     else map (\<lambda>i. dd_rom (pg_disk p) (int (PAGE_SIZE * f + i))) [0..<PAGE_SIZE])"

interpretation qemu: paging_device s qemu_content "\<lambda>_ i f. i = f" qemu_ok
  by unfold_locales
    (auto simp: qemu_ok_def paging_read_def paging_write_def page_store_def qemu_content_def fun_eq_iff simp del: upt_Suc)

subsection \<open>Arty\<close>

text \<open>
  The cache of the Arty board: a slot is empty or holds a frame, and no frame is in two slots.
  The content of a frame is its slot, or its eight blocks on the card.
\<close>

definition slot_of :: "'c pager \<Rightarrow> nat \<Rightarrow> nat option" where
  "slot_of p f = find_index (\<lambda>x. x = int f) (cache_slots p)"

definition cache_wf :: "'c pager \<Rightarrow> bool" where
  "cache_wf p \<longleftrightarrow> pg_platform p = ARTY \<and> length (cache_slots p) = ARTY_CACHED_NFRAMES
     \<and> (\<forall>i<ARTY_CACHED_NFRAMES. length (pages p i) = PAGE_SIZE \<and> - 1 \<le> cache_slots p ! i \<and> cache_slots p ! i < int NFRAMES)
     \<and> (\<forall>i<ARTY_CACHED_NFRAMES. \<forall>j<ARTY_CACHED_NFRAMES. cache_slots p ! i = cache_slots p ! j \<longrightarrow> i = j \<or> cache_slots p ! i = - 1)"

definition disk_frame :: "('k \<Rightarrow> nat \<Rightarrow> byte list) \<Rightarrow> 'k \<Rightarrow> nat \<Rightarrow> byte list" where
  "disk_frame cells k f = concat (map (cells k) [8 * f..<8 * f + 8])"

definition arty_content :: "('c \<Rightarrow> 'k) \<Rightarrow> ('k \<Rightarrow> nat \<Rightarrow> byte list) \<Rightarrow> 'c pager \<Rightarrow> nat \<Rightarrow> byte list" where
  "arty_content media cells p f = (case slot_of p f of Some i \<Rightarrow> pages p i | None \<Rightarrow> disk_frame cells (media (dd_dev (pg_disk p))) f)"

definition arty_ok :: "('c \<Rightarrow> 'k) \<Rightarrow> ('c \<Rightarrow> bool) \<Rightarrow> ('k \<Rightarrow> bool) \<Rightarrow> 'c pager \<Rightarrow> bool" where
  "arty_ok media live ready p \<longleftrightarrow> cache_wf p \<and> card_ok media live ready (pg_disk p)"

lemma cache_wfD:
  assumes "cache_wf p"
  shows "pg_platform p = ARTY" "pg_platform p \<noteq> QEMU" "length (cache_slots p) = 28" "i < 28 \<Longrightarrow> length (pages p i) = PAGE_SIZE"
    "i < 28 \<Longrightarrow> cache_slots p ! i \<noteq> - 1 \<Longrightarrow> \<exists>f<NFRAMES. cache_slots p ! i = int f"
    "i < 28 \<Longrightarrow> j < 28 \<Longrightarrow> cache_slots p ! i = cache_slots p ! j \<Longrightarrow> cache_slots p ! i \<noteq> - 1 \<Longrightarrow> i = j"
proof -
  show "\<exists>f<NFRAMES. cache_slots p ! i = int f" if "i < 28" "cache_slots p ! i \<noteq> - 1"
  proof -
    have "- 1 \<le> cache_slots p ! i" "cache_slots p ! i < int NFRAMES" using assms that(1) by (auto simp: cache_wf_def)
    with that(2) show ?thesis by (intro exI [of _ "nat (cache_slots p ! i)"]) auto
  qed
qed (use assms in \<open>auto simp: cache_wf_def\<close>)

lemma slot_of_Some:
  assumes "cache_wf p"
  shows "slot_of p f = Some i \<longleftrightarrow> i < 28 \<and> cache_slots p ! i = int f"
proof
  assume "slot_of p f = Some i"
  then show "i < 28 \<and> cache_slots p ! i = int f"
    using find_index_SomeD [of "\<lambda>x. x = int f" "cache_slots p" i] cache_wfD(3) [OF assms] by (simp add: slot_of_def)
next
  assume i: "i < 28 \<and> cache_slots p ! i = int f"
  then have "\<exists>x\<in>set (cache_slots p). x = int f" using cache_wfD(3) [OF assms] by (metis nth_mem)
  then obtain j where j: "slot_of p f = Some j" using find_index_None_iff [of "\<lambda>x. x = int f"] by (auto simp: slot_of_def)
  then have "j < 28" "cache_slots p ! j = int f"
    using find_index_SomeD [of "\<lambda>x. x = int f" "cache_slots p" j] cache_wfD(3) [OF assms] by (simp_all add: slot_of_def)
  then have "i = j" using cache_wfD(6) [OF assms, of i j] i by simp
  with j show "slot_of p f = Some i" by simp
qed

text \<open>A frame that is not cached moves into slot \<open>i\<close>.\<close>

lemma cache_put_wf:
  assumes "cache_wf p" "i < 28" "f < NFRAMES" "slot_of p f = None" "length b = PAGE_SIZE"
  shows "cache_wf (p\<lparr>cache_slots := (cache_slots p)[i := int f], pages := (pages p)(i := b)\<rparr>)"
proof -
  have n: "cache_slots p ! j \<noteq> int f" "int f \<noteq> cache_slots p ! j" if "j < 28" for j
    using slot_of_Some [OF assms(1), of f j] assms(4) that by auto
  with assms show ?thesis unfolding cache_wf_def by (auto simp: nth_list_update)
qed

lemma cache_put_slot:
  assumes "cache_wf p" "i < 28" "f < NFRAMES" "slot_of p f = None" "length b = PAGE_SIZE"
  shows "slot_of (p\<lparr>cache_slots := (cache_slots p)[i := int f], pages := (pages p)(i := b)\<rparr>) g =
     (if g = f then Some i else if slot_of p g = Some i then None else slot_of p g)"
proof -
  let ?p = "p\<lparr>cache_slots := (cache_slots p)[i := int f], pages := (pages p)(i := b)\<rparr>"
  note S = slot_of_Some [OF cache_put_wf [OF assms(1-5)]] and S0 = slot_of_Some [OF assms(1)]
  have at: "cache_slots ?p ! j = (if j = i then int f else cache_slots p ! j)" if "j < 28" for j
    using that assms(2) cache_wfD(3) [OF assms(1)] by (simp add: nth_list_update)
  show ?thesis
  proof (cases "slot_of ?p g")
    case None
    then have no: "cache_slots ?p ! j \<noteq> int g" if "j < 28" for j using S [of g j] that by simp
    have "g \<noteq> f" using no [OF assms(2)] at [OF assms(2)] by auto
    moreover have "cache_slots p ! j \<noteq> int g" if "j < 28" "j \<noteq> i" for j using no [OF that(1)] at [OF that(1)] that(2) by simp
    ultimately show ?thesis using S0 [of g] None by (cases "slot_of p g") auto
  next
    case (Some j)
    then have j: "j < 28" "cache_slots ?p ! j = int g" using S [of g j] by auto
    show ?thesis
    proof (cases "j = i")
      case True
      then show ?thesis using j at [of j] Some by simp
    next
      case False
      then have "slot_of p g = Some j" using j at [of j] S0 [of g j] by simp
      with False Some assms(4) show ?thesis by auto
    qed
  qed
qed


context sd_disk
begin

lemma page_write_card:
  assumes "card_ok media live ready d" "f < NFRAMES" "length b = PAGE_SIZE"
  shows "\<exists>d'. disk_write s (int f * 8) 8 b d = Some (0, d') \<and> card_ok media live ready d'
     \<and> (\<forall>g. disk_frame cells (media (dd_dev d')) g = (if g = f then b else disk_frame cells (media (dd_dev d)) g))"
proof -
  have k: "dd_type d = SD_CARD" "live (dd_dev d)" "ready (media (dd_dev d))" using assms(1) by (auto simp: card_ok_def)
  have N: "8 * f + 8 \<le> ncells" using assms(2) big by simp
  obtain c' where c': "sdwrite s (int f * 8) 8 b (dd_dev d) = Some c'" "live c'" "ready (media c')"
    "cells (media c') = (\<lambda>i. if 8 * f \<le> i \<and> i < 8 * f + 8 then take 512 (drop (512 * (i - 8 * f)) b) else cells (media (dd_dev d)) i)"
    using sdwrite_ok [OF k(2,3) N, of b] assms(3) by (auto simp: mult.commute)
  have "map (cells (media c')) [8 * f..<8 * f + 8] = map (\<lambda>i. take 512 (drop (512 * (i - 8 * f)) b)) [8 * f..<8 * f + 8]"
    by (intro map_cong refl) (simp add: c'(4))
  then have f: "disk_frame cells (media c') f = b"
    unfolding disk_frame_def using concat_blocks [of b 8 "8 * f"] assms(3) by (simp only:)
  have "map (cells (media c')) [8 * g..<8 * g + 8] = map (cells (media (dd_dev d))) [8 * g..<8 * g + 8]" if "g \<noteq> f" for g
  proof (intro map_cong refl)
    fix i assume "i \<in> set [8 * g..<8 * g + 8]"
    then have "8 * g \<le> i \<and> i < 8 * g + 8" by simp
    with that have "\<not> (8 * f \<le> i \<and> i < 8 * f + 8)" by presburger
    then show "cells (media c') i = cells (media (dd_dev d)) i" unfolding c'(4) by (rule if_not_P)
  qed
  from arg_cong [OF this, of _ concat]
  have "disk_frame cells (media c') g = disk_frame cells (media (dd_dev d)) g" if "g \<noteq> f" for g
    unfolding disk_frame_def using that by blast
  with c'(1-3) k(1) f show ?thesis by (intro exI [of _ "d\<lparr>dd_dev := c'\<rparr>"]) (auto simp: disk_write_def card_ok_def)
qed

lemma page_read_card:
  assumes "card_ok media live ready d" "f < NFRAMES"
  shows "\<exists>d'. disk_read s (int f * 8) 8 d = Some (0, disk_frame cells (media (dd_dev d)) f, d') \<and> card_ok media live ready d'
     \<and> cells (media (dd_dev d')) = cells (media (dd_dev d))"
proof -
  have k: "dd_type d = SD_CARD" "live (dd_dev d)" "ready (media (dd_dev d))" using assms(1) by (auto simp: card_ok_def)
  have N: "8 * f + 8 \<le> ncells" using assms(2) big by simp
  obtain c' where "sdread s (int f * 8) 8 (dd_dev d) = Some (disk_frame cells (media (dd_dev d)) f, c')" "live c'" "ready (media c')"
    "cells (media c') = cells (media (dd_dev d))"
    using sdread_ok [OF k(2,3) N] unfolding disk_frame_def by (auto simp: mult.commute)
  then show ?thesis using k(1) by (intro exI [of _ "d\<lparr>dd_dev := c'\<rparr>"]) (simp add: disk_read_def card_ok_def)
qed

lemma frame_length:
  assumes "card_ok media live ready d" "f < NFRAMES"
  shows "length (disk_frame cells (media (dd_dev d)) f) = PAGE_SIZE"
proof -
  have "length (cells (media (dd_dev d)) i) = 512" if "i \<in> set [8 * f..<8 * f + 8]" for i
    using cell_length [of "media (dd_dev d)" i] assms that big by (simp add: card_ok_def)
  then have "map length (map (cells (media (dd_dev d))) [8 * f..<8 * f + 8]) = map (\<lambda>_. 512) [8 * f..<8 * f + 8]"
    by simp
  then show ?thesis unfolding disk_frame_def length_concat by (simp only: map_replicate_const) (simp add: sum_list_replicate)
qed

text \<open>Eviction of a slot that holds a frame: the frame is saved, the cache as it was.\<close>

lemma evict_ok:
  assumes "arty_ok media live ready p" "idx = rands p (nrand p) mod 28" "cache_slots p ! idx = int v" "v < NFRAMES"
  shows "\<exists>d'. cache_eviction s p = Some (idx, p\<lparr>nrand := nrand p + 1, pg_disk := d'\<rparr>) \<and> card_ok media live ready d'
     \<and> (\<forall>g. disk_frame cells (media (dd_dev d')) g =
          (if g = v then pages p idx else disk_frame cells (media (dd_dev (pg_disk p))) g))"
proof -
  have wf: "cache_wf p" "card_ok media live ready (pg_disk p)" using assms(1) by (auto simp: arty_ok_def)
  have "idx < 28" by (simp add: assms(2))
  then have "length (pages p idx) = PAGE_SIZE" by (rule cache_wfD(4) [OF wf(1)])
  from page_write_card [OF wf(2) assms(4) this] assms(2,3) show ?thesis
    by (auto simp: cache_eviction_def Let_def mult.commute)
qed

text \<open>Frame \<open>f\<close> takes over slot \<open>i\<close>, whose frame, if any, is now on the card.\<close>

lemma take_slot:
  assumes wf: "cache_wf p" and i: "i < 28" and f: "f < NFRAMES" "slot_of p f = None" "length b = PAGE_SIZE"
    and d: "card_ok media live ready d"
      "\<forall>g. g \<noteq> f \<longrightarrow> disk_frame cells (media (dd_dev d)) g = (if slot_of p g = Some i then pages p i
         else disk_frame cells (media (dd_dev (pg_disk p))) g)"
    and p': "p' = p\<lparr>cache_slots := (cache_slots p)[i := int f], pages := (pages p)(i := b), nrand := n, pg_disk := d\<rparr>"
  shows "arty_ok media live ready p'" "arty_content media cells p' f = b"
    "\<forall>g. g \<noteq> f \<longrightarrow> arty_content media cells p' g = arty_content media cells p g"
proof -
  let ?q = "p\<lparr>cache_slots := (cache_slots p)[i := int f], pages := (pages p)(i := b)\<rparr>"
  note P = cache_put_slot [OF wf i f]
  have q: "slot_of p' g = slot_of ?q g" "pages p' = (pages p)(i := b)" "pg_disk p' = d" for g by (simp_all add: p' slot_of_def)
  show "arty_ok media live ready p'"
    using cache_put_wf [OF wf i f] d(1) by (simp add: arty_ok_def p' cache_wf_def)
  show "arty_content media cells p' f = b" using P by (simp add: arty_content_def q)
  show "\<forall>g. g \<noteq> f \<longrightarrow> arty_content media cells p' g = arty_content media cells p g"
  proof (intro allI impI)
    fix g assume g: "g \<noteq> f"
    show "arty_content media cells p' g = arty_content media cells p g"
    proof (cases "slot_of p g = Some i")
      case True
      with P [of g] g d(2) show ?thesis by (simp add: arty_content_def q)
    next
      case False
      with P [of g] g d(2) show ?thesis by (auto simp: arty_content_def q split: option.splits)
    qed
  qed
qed

lemma evict_slot:
  assumes ok: "arty_ok media live ready p" and i: "i = rands p (nrand p) mod 28" "cache_slots p ! i \<noteq> - 1"
  shows "\<exists>n d. cache_eviction s p = Some (i, p\<lparr>nrand := n, pg_disk := d\<rparr>) \<and> card_ok media live ready d
     \<and> (\<forall>g. disk_frame cells (media (dd_dev d)) g =
          (if slot_of p g = Some i then pages p i else disk_frame cells (media (dd_dev (pg_disk p))) g))"
proof -
  have wf: "cache_wf p" using ok by (simp add: arty_ok_def)
  have i28: "i < 28" using i(1) by simp
  from cache_wfD(5) [OF wf i28 i(2)] obtain v where v: "v < NFRAMES" "cache_slots p ! i = int v" by blast
  have "slot_of p g = Some i \<longleftrightarrow> g = v" for g using slot_of_Some [OF wf, of g i] i28 v(2) by auto
  with evict_ok [OF ok i(1) v(2,1)] show ?thesis by (simp only:) blast
qed

lemma free_slot:
  assumes ok: "arty_ok media live ready p"
  shows "\<exists>i n d. (case find_index (\<lambda>x. x = - 1) (cache_slots p) of Some i \<Rightarrow> Some (i, p) | None \<Rightarrow> cache_eviction s p)
       = Some (i, p\<lparr>nrand := n, pg_disk := d\<rparr>) \<and> i < 28 \<and> card_ok media live ready d
     \<and> (\<forall>g. disk_frame cells (media (dd_dev d)) g =
          (if slot_of p g = Some i then pages p i else disk_frame cells (media (dd_dev (pg_disk p))) g))"
proof (cases "find_index (\<lambda>x. x = - 1) (cache_slots p)")
  case None
  let ?i = "rands p (nrand p) mod 28"
  have "?i < length (cache_slots p)" using cache_wfD(3) [of p] ok by (simp add: arty_ok_def)
  then have "cache_slots p ! ?i \<noteq> - 1" using None find_index_None_iff [of "\<lambda>x. x = - 1" "cache_slots p"] nth_mem by fastforce
  from evict_slot [OF ok refl this] None show ?thesis
    by (simp del: split_paired_Ex split del: if_split) (rule exI [of _ ?i], simp split del: if_split)
next
  case (Some i)
  then have i: "i < 28" "cache_slots p ! i = - 1"
    using find_index_SomeD [OF Some] cache_wfD(3) [of p] ok by (auto simp: arty_ok_def)
  have "slot_of p g \<noteq> Some i" for g using slot_of_Some [of p g i] ok i(2) by (simp add: arty_ok_def)
  with Some i(1) ok show ?thesis
    by (intro exI [of _ i] exI [of _ "nrand p"] exI [of _ "pg_disk p"]) (simp add: arty_ok_def)
qed

lemma paging_read_arty:
  assumes ok: "arty_ok media live ready p" and f: "f < NFRAMES"
  shows "\<exists>i p'. paging_read s f alloc p = Some (i, p') \<and> arty_ok media live ready p' \<and> slot_of p' f = Some i
     \<and> (alloc \<or> arty_content media cells p' f = arty_content media cells p f)
     \<and> (\<forall>g. g \<noteq> f \<longrightarrow> arty_content media cells p' g = arty_content media cells p g)
     \<and> (\<forall>x. x \<in> set (cache_slots p') \<and> x = - 1 \<longrightarrow> x \<in> set (cache_slots p))"
proof -
  have wf: "cache_wf p" and c: "card_ok media live ready (pg_disk p)" using ok by (auto simp: arty_ok_def)
  note D = cache_wfD [OF wf]
  show ?thesis
  proof (cases "slot_of p f")
    case (Some i)
    then have "paging_read s f alloc p = Some (i, p)" using D(2) by (simp add: paging_read_def slot_of_def)
    with Some ok show ?thesis by auto
  next
    case None
    obtain i n d where F: "(case find_index (\<lambda>x. x = - 1) (cache_slots p) of Some i \<Rightarrow> Some (i, p) | None \<Rightarrow> cache_eviction s p)
       = Some (i, p\<lparr>nrand := n, pg_disk := d\<rparr>)" "i < 28" "card_ok media live ready d"
      "\<forall>g. disk_frame cells (media (dd_dev d)) g =
          (if slot_of p g = Some i then pages p i else disk_frame cells (media (dd_dev (pg_disk p))) g)"
      using free_slot [OF ok] by blast
    obtain d2 where d2: "disk_read s (int f * 8) 8 d = Some (0, disk_frame cells (media (dd_dev d)) f, d2)"
      "card_ok media live ready d2" "cells (media (dd_dev d2)) = cells (media (dd_dev d))"
      using page_read_card [OF F(3) f] by blast
    have same: "disk_frame cells (media (dd_dev d2)) = disk_frame cells (media (dd_dev d))"
      by (simp add: fun_eq_iff disk_frame_def d2(3))
    have ff: "disk_frame cells (media (dd_dev d)) f = arty_content media cells p f"
      using F(4) f None by (simp add: arty_content_def)
    define b where "b = (if alloc then pages p i else disk_frame cells (media (dd_dev d)) f)"
    define p' where "p' = p\<lparr>cache_slots := (cache_slots p)[i := int f], pages := (pages p)(i := b), nrand := n,
      pg_disk := if alloc then d else d2\<rparr>"
    have lb: "length b = PAGE_SIZE" using D(4) [OF F(2)] frame_length [OF F(3) f] by (simp add: b_def)
    have "paging_read s f alloc p = Some (i, p')"
      using None D(2) F(1) d2(1) by (auto simp: paging_read_def slot_of_def Let_def p'_def b_def)
    moreover have "arty_ok media live ready p'" "arty_content media cells p' f = b"
      "\<forall>g. g \<noteq> f \<longrightarrow> arty_content media cells p' g = arty_content media cells p g"
      using take_slot [OF wf F(2) f None lb, of "if alloc then d else d2" p' n] F(3,4) d2(2) same by (simp_all add: p'_def)
    moreover have "slot_of p' f = Some i"
      using cache_put_slot [OF wf F(2) f None lb] by (simp add: slot_of_def p'_def)
    moreover have "x \<in> set (cache_slots p)" if "x \<in> set (cache_slots p')" "x = - 1" for x
      using that set_update_subset_insert [of "cache_slots p" i "int f"] by (auto simp: p'_def)
    ultimately show ?thesis using ff by (auto simp: b_def)
  qed
qed

lemma store_slot:
  assumes ok: "arty_ok media live ready p" and i: "slot_of p f = Some i" and b: "length b = PAGE_SIZE"
  shows "arty_ok media live ready (page_store i b p)"
    "arty_content media cells (page_store i b p) g = (if g = f then b else arty_content media cells p g)"
proof -
  have wf: "cache_wf p" using ok by (simp add: arty_ok_def)
  show "arty_ok media live ready (page_store i b p)" using ok b by (auto simp: arty_ok_def cache_wf_def page_store_def)
  show "arty_content media cells (page_store i b p) g = (if g = f then b else arty_content media cells p g)"
    using slot_of_Some [OF wf, of g i] slot_of_Some [OF wf, of f i] i
    by (auto simp: arty_content_def slot_of_def page_store_def split: option.splits)
qed

lemma paging_write_arty:
  assumes ok: "arty_ok media live ready p" and f: "f < NFRAMES" and b: "length b = PAGE_SIZE"
    and v: "slot_of p f \<noteq> None \<or> cache_slots p ! (rands p (nrand p) mod 28) \<noteq> - 1"
  shows "\<exists>p'. paging_write s f b p = Some p' \<and> arty_ok media live ready p'
     \<and> (\<forall>g. arty_content media cells p' g = (if g = f then b else arty_content media cells p g))
     \<and> (\<forall>x. x \<in> set (cache_slots p') \<and> x = - 1 \<longrightarrow> x \<in> set (cache_slots p))"
proof -
  have wf: "cache_wf p" and c: "card_ok media live ready (pg_disk p)" using ok by (auto simp: arty_ok_def)
  note D = cache_wfD [OF wf]
  show ?thesis
  proof (cases "slot_of p f")
    case (Some i)
    have "paging_write s f b p = Some (page_store i b p)" using Some D(2) by (simp add: paging_write_def slot_of_def page_store_def)
    moreover note store_slot [OF ok Some b]
    moreover have "cache_slots (page_store i b p) = cache_slots p" by (simp add: page_store_def)
    ultimately show ?thesis by auto
  next
    case None
    let ?i = "rands p (nrand p) mod 28"
    have i: "?i < 28" "cache_slots p ! ?i \<noteq> - 1" using v None by auto
    obtain n d where E: "cache_eviction s p = Some (?i, p\<lparr>nrand := n, pg_disk := d\<rparr>)" "card_ok media live ready d"
      "\<forall>g. disk_frame cells (media (dd_dev d)) g =
          (if slot_of p g = Some ?i then pages p ?i else disk_frame cells (media (dd_dev (pg_disk p))) g)"
      using evict_slot [OF ok refl i(2)] by blast
    let ?p = "p\<lparr>cache_slots := (cache_slots p)[?i := int f], pages := (pages p)(?i := b), nrand := n, pg_disk := d\<rparr>"
    have "paging_write s f b p = Some ?p" using None D(2) E(1) by (simp add: paging_write_def slot_of_def)
    moreover note take_slot [OF wf i(1) f None b E(2) _ refl [of ?p]]
    moreover have "x \<in> set (cache_slots p)" if "x \<in> set (cache_slots ?p)" "x = - 1" for x
      using that set_update_subset_insert [of "cache_slots p" ?i "int f"] by auto
    ultimately show ?thesis using E(3) by auto
  qed
qed

end

text \<open>
  The board, once all its cache slots are in use: then every operation is that of a flat
  memory. The cache must be full because \<^verbatim>\<open>paging_write\<close> evicts a random slot even if it is empty.
\<close>

definition arty_full :: "('c \<Rightarrow> 'k) \<Rightarrow> ('c \<Rightarrow> bool) \<Rightarrow> ('k \<Rightarrow> bool) \<Rightarrow> 'c pager \<Rightarrow> bool" where
  "arty_full media live ready p \<longleftrightarrow> arty_ok media live ready p \<and> - 1 \<notin> set (cache_slots p)"

lemma arty_full_victim: "arty_full media live ready p \<Longrightarrow> cache_slots p ! (n mod 28) \<noteq> - 1"
  using nth_mem [of "n mod 28" "cache_slots p"] cache_wfD(3) [of p] by (fastforce simp: arty_full_def arty_ok_def)

sublocale sd_disk \<subseteq> cache: paging_source s "arty_content media cells" "\<lambda>p i f. slot_of p f = Some i" "arty_ok media live ready"
proof unfold_locales
  fix p f alloc
  assume ok: "arty_ok media live ready p" and f: "f < NFRAMES"
  show "\<exists>i p'. paging_read s f alloc p = Some (i, p') \<and> arty_ok media live ready p' \<and> slot_of p' f = Some i
      \<and> (alloc \<or> arty_content media cells p' f = arty_content media cells p f)
      \<and> (\<forall>g. g \<noteq> f \<longrightarrow> arty_content media cells p' g = arty_content media cells p g)"
    using paging_read_arty [OF ok f, of alloc] by blast
  show "arty_ok media live ready (page_store i b p) \<and> slot_of (page_store i b p) f = Some i
      \<and> arty_content media cells (page_store i b p) = (arty_content media cells p)(f := b)"
    if "slot_of p f = Some i" "length b = PAGE_SIZE" for i b
    using store_slot [OF ok that] that by (simp add: fun_eq_iff) (simp add: slot_of_def page_store_def)
  show "pages p i = arty_content media cells p f" if "slot_of p f = Some i" for i using that by (simp add: arty_content_def)
  have "cache_wf p" "card_ok media live ready (pg_disk p)" using ok by (auto simp: arty_ok_def)
  then show "length (arty_content media cells p f) = PAGE_SIZE"
    using slot_of_Some [of p f] cache_wfD(4) [of p] frame_length f
    by (auto simp: arty_content_def split: option.splits)
qed

sublocale sd_disk \<subseteq> arty: paging_device s "arty_content media cells" "\<lambda>p i f. slot_of p f = Some i" "arty_full media live ready"
proof unfold_locales
  fix p f alloc
  assume p: "arty_full media live ready p" and f: "f < NFRAMES"
  then have ok: "arty_ok media live ready p" by (simp add: arty_full_def)
  show "\<exists>i p'. paging_read s f alloc p = Some (i, p') \<and> arty_full media live ready p' \<and> slot_of p' f = Some i
      \<and> (alloc \<or> arty_content media cells p' f = arty_content media cells p f)
      \<and> (\<forall>g. g \<noteq> f \<longrightarrow> arty_content media cells p' g = arty_content media cells p g)"
    using paging_read_arty [OF ok f, of alloc] p unfolding arty_full_def by blast
  show "arty_full media live ready (page_store i b p) \<and> slot_of (page_store i b p) f = Some i
      \<and> arty_content media cells (page_store i b p) = (arty_content media cells p)(f := b)"
    if "slot_of p f = Some i" "length b = PAGE_SIZE" for i b
    using cache.store_ok [OF ok f that] p by (simp add: arty_full_def) (simp add: page_store_def)
  show "\<exists>p'. paging_write s f b p = Some p' \<and> arty_full media live ready p' \<and> arty_content media cells p' = (arty_content media cells p)(f := b)"
    if "length b = PAGE_SIZE" for b
    using paging_write_arty [OF ok f that disjI2 [OF arty_full_victim [OF p]]] p unfolding arty_full_def fun_eq_iff fun_upd_apply by blast
  show "pages p i = arty_content media cells p f" if "slot_of p f = Some i" for i using cache.holds_mem [OF ok f that] .
  show "length (arty_content media cells p f) = PAGE_SIZE" by (rule cache.content_length [OF ok f])
qed

context sd_disk
begin

lemma arty_device: "paging_device s (arty_content media cells) (\<lambda>p i f. slot_of p f = Some i) (arty_full media live ready)"
  by (rule arty.paging_device_axioms)

lemma arty_source: "paging_source s (arty_content media cells) (\<lambda>p i f. slot_of p f = Some i) (arty_ok media live ready)"
  by (rule cache.paging_source_axioms)

end

text \<open>
  The first write of a frame after \<^verbatim>\<open>paging_init\<close> finds it in no slot and evicts an empty one, whose
  frame number is -1: the disk is written at block -8.
\<close>

lemma paging_write_evicts_empty:
  assumes "pg_platform p \<noteq> QEMU"
  shows "paging_write s f b (paging_init p) =
    do { (_, d) \<leftarrow> disk_write s (- 8) 8 (pages p (rands p (nrand p) mod 28)) (pg_disk p);
         Some (p\<lparr>nrand := nrand p + 1, pg_disk := d, cache_slots := (replicate 28 (- 1))[rands p (nrand p) mod 28 := int f],
                  pages := (pages p)(rands p (nrand p) mod 28 := b)\<rparr>) }"
proof -
  have "find_index (\<lambda>x. x = int f) (replicate 28 (- 1)) = None" by (simp add: find_index_None_iff)
  with assms show ?thesis
    by (simp add: paging_write_def paging_init_def cache_eviction_def Let_def split_def bind_assoc cong: option.case_cong)
qed


subsection \<open>The property\<close>


definition full_pager :: "(sim_card \<times> byte) pager" where
  "full_pager = \<lparr>pg_platform = ARTY, cache_slots = map int [0..<28], pages = (\<lambda>_. replicate 4096 0),
     rands = (\<lambda>n. 5 * n + 3), nrand = 0, pg_disk = blank_disk\<rparr>"

lemma full_pager_ok: "arty_full fst (\<lambda>_. True) sim_ready full_pager"
proof -
  have "cache_wf full_pager" by (auto simp: cache_wf_def full_pager_def)
  then show ?thesis using blank_card_ready by (auto simp: arty_full_def arty_ok_def card_ok_def full_pager_def blank_disk_def)
qed


end
