(* ===== verification/Mmu.thy ===== *)
theory Mmu
  imports Paging
begin

section \<open>The memory management unit\<close>

text \<open>
  \<^verbatim>\<open>earth/cpu_mmu.c\<close>: allocation of frames and the software TLB, which gives every process its own
  address space by copying pages between the user space and the frames. \<open>upages m n\<close> is the user
  page at \<^verbatim>\<open>n << 12\<close>, \<open>grass_mem\<close> the \<^verbatim>\<open>GRASS_SIZE\<close> bytes at \<^verbatim>\<open>GRASS_ENTRY\<close>; the frames are those of the
  paging device. \<^verbatim>\<open>page_table_map\<close> and \<^verbatim>\<open>page_table_switch\<close> fall back on the software TLB.
\<close>

record frame_mapping =
  use :: bool
  fm_pid :: int
  page_no :: nat

datatype translation = PAGE_TABLE | SOFT_TLB

record 'c mmu =
  table :: "frame_mapping list"
  curr_vm_pid :: int
  upages :: "nat \<Rightarrow> byte list"
  grass_mem :: "byte list"
  paging :: "'c pager"
  translation :: translation

definition no_mapping :: frame_mapping where
  "no_mapping = \<lparr>use = False, fm_pid = 0, page_no = 0\<rparr>"

definition mmu_alloc :: "'c spi \<Rightarrow> 'c mmu \<Rightarrow> (nat \<times> nat \<times> 'c mmu) option" where
  "mmu_alloc s m =
    (case find_index (\<lambda>e. \<not> use e) (table m) of
       None \<Rightarrow> None
     | Some i \<Rightarrow>
         do { (cached_addr, p) \<leftarrow> paging_read s i True (paging m);
              Some (i, cached_addr, m\<lparr>paging := p, table := (table m)[i := (table m ! i)\<lparr>use := True\<rparr>]\<rparr>) })"

fun mmu_free_loop :: "int \<Rightarrow> nat list \<Rightarrow> 'c mmu \<Rightarrow> 'c mmu" where
  "mmu_free_loop pid [] m = m"
| "mmu_free_loop pid (i # is) m =
    mmu_free_loop pid is
      (if use (table m ! i) \<and> fm_pid (table m ! i) = pid
       then m\<lparr>paging := paging_invalidate_cache i (paging m), table := (table m)[i := no_mapping]\<rparr>
       else m)"

definition mmu_free :: "int \<Rightarrow> 'c mmu \<Rightarrow> 'c mmu" where
  "mmu_free pid m = mmu_free_loop pid [0..<NFRAMES] m"

definition soft_tlb_map :: "int \<Rightarrow> nat \<Rightarrow> nat \<Rightarrow> 'c mmu \<Rightarrow> 'c mmu" where
  "soft_tlb_map pid pg frame_id m =
    m\<lparr>table := (table m)[frame_id := (table m ! frame_id)\<lparr>fm_pid := pid, page_no := pg\<rparr>]\<rparr>"

fun tlb_unmap_loop :: "'c spi \<Rightarrow> nat list \<Rightarrow> 'c mmu \<Rightarrow> 'c mmu option" where
  "tlb_unmap_loop s [] m = Some m"
| "tlb_unmap_loop s (i # is) m =
    (if use (table m ! i) \<and> fm_pid (table m ! i) = curr_vm_pid m
     then do { p \<leftarrow> paging_write s i (upages m (page_no (table m ! i))) (paging m);
               tlb_unmap_loop s is (m\<lparr>paging := p\<rparr>) }
     else tlb_unmap_loop s is m)"

fun tlb_map_loop :: "'c spi \<Rightarrow> int \<Rightarrow> nat list \<Rightarrow> 'c mmu \<Rightarrow> 'c mmu option" where
  "tlb_map_loop s pid [] m = Some m"
| "tlb_map_loop s pid (i # is) m =
    (if use (table m ! i) \<and> fm_pid (table m ! i) = pid
     then do { (a, p) \<leftarrow> paging_read s i False (paging m);
               tlb_map_loop s pid is (m\<lparr>paging := p, upages := (upages m)(page_no (table m ! i) := pages p a)\<rparr>) }
     else tlb_map_loop s pid is m)"

definition soft_tlb_switch :: "'c spi \<Rightarrow> int \<Rightarrow> 'c mmu \<Rightarrow> 'c mmu option" where
  "soft_tlb_switch s pid m =
    (if pid = curr_vm_pid m then Some m
     else do { m \<leftarrow> tlb_unmap_loop s [0..<NFRAMES] m;
               m \<leftarrow> tlb_map_loop s pid [0..<NFRAMES] m;
               Some (m\<lparr>curr_vm_pid := pid\<rparr>) })"

definition page_table_map :: "int \<Rightarrow> nat \<Rightarrow> nat \<Rightarrow> 'c mmu \<Rightarrow> 'c mmu option" where
  "page_table_map pid pg frame_id m = (if pid \<ge> 32 then None else Some (soft_tlb_map pid pg frame_id m))"

definition page_table_switch :: "'c spi \<Rightarrow> int \<Rightarrow> 'c mmu \<Rightarrow> 'c mmu option" where
  "page_table_switch s pid m = soft_tlb_switch s pid m"

text \<open>\<^verbatim>\<open>earth->mmu_map\<close> and \<^verbatim>\<open>earth->mmu_switch\<close>, as \<^verbatim>\<open>mmu_init\<close> sets them.\<close>

definition earth_mmu_map :: "int \<Rightarrow> nat \<Rightarrow> nat \<Rightarrow> 'c mmu \<Rightarrow> 'c mmu option" where
  "earth_mmu_map pid pg frame_id m =
    (if translation m = PAGE_TABLE then page_table_map pid pg frame_id m else Some (soft_tlb_map pid pg frame_id m))"

definition earth_mmu_switch :: "'c spi \<Rightarrow> int \<Rightarrow> 'c mmu \<Rightarrow> 'c mmu option" where
  "earth_mmu_switch s pid m =
    (if translation m = PAGE_TABLE then page_table_switch s pid m else soft_tlb_switch s pid m)"

text \<open>What a caller does with the address \<^verbatim>\<open>mmu_alloc\<close> returned: it stores to the page there.\<close>

definition frame_fill :: "nat \<Rightarrow> byte list \<Rightarrow> 'c mmu \<Rightarrow> 'c mmu" where
  "frame_fill cached_addr b m = m\<lparr>paging := page_store cached_addr b (paging m)\<rparr>"

text \<open>A page for a process, as the loader asks for it: \<^verbatim>\<open>mmu_alloc\<close>, then \<^verbatim>\<open>mmu_map\<close>.\<close>

definition new_page :: "'c spi \<Rightarrow> int \<Rightarrow> nat \<Rightarrow> 'c mmu \<Rightarrow> (nat \<times> 'c mmu) option" where
  "new_page s pid pg m = 
    do { (frame_no, base, m) \<leftarrow> mmu_alloc s m; m \<leftarrow> earth_mmu_map pid pg frame_no m; Some (base, m) }"

subsection \<open>Address spaces\<close>

text \<open>
  The frame mapped at a page of a process, and the contents of the address space of a process:
  the user space for the process that is switched in, its frames for every other one. Process 0
  owns the frames that are allocated and not mapped.
\<close>

definition frame_of :: "'c mmu \<Rightarrow> int \<Rightarrow> nat \<Rightarrow> nat option" where
  "frame_of m q pg = find_index (\<lambda>e. use e \<and> fm_pid e = q \<and> page_no e = pg) (table m)"

definition aspace :: "('c pager \<Rightarrow> nat \<Rightarrow> byte list) \<Rightarrow> 'c mmu \<Rightarrow> int \<Rightarrow> nat \<Rightarrow> byte list option" where
  "aspace cont m q pg =
    map_option (\<lambda>f. if q = curr_vm_pid m then upages m pg else cont (paging m) f) (frame_of m q pg)"

definition owns :: "'c mmu \<Rightarrow> int \<Rightarrow> nat \<Rightarrow> bool" where
  "owns m q f \<longleftrightarrow> use (table m ! f) \<and> fm_pid (table m ! f) = q"

definition mmu_inv :: "'c mmu \<Rightarrow> bool" where
  "mmu_inv m \<longleftrightarrow> length (table m) = NFRAMES \<and> (\<forall>pg. length (upages m pg) = PAGE_SIZE) \<and> curr_vm_pid m \<noteq> 0
     \<and> (\<forall>f<NFRAMES. \<forall>g<NFRAMES. use (table m ! f) \<and> use (table m ! g) \<and> fm_pid (table m ! f) \<noteq> 0
          \<and> fm_pid (table m ! f) = fm_pid (table m ! g) \<and> page_no (table m ! f) = page_no (table m ! g) \<longrightarrow> f = g)"

lemma mmu_invD:
  assumes "mmu_inv m"
  shows "length (table m) = NFRAMES" "length (upages m pg) = PAGE_SIZE" "curr_vm_pid m \<noteq> 0"
    "f < NFRAMES \<Longrightarrow> g < NFRAMES \<Longrightarrow> owns m q f \<Longrightarrow> owns m q g \<Longrightarrow> q \<noteq> 0 \<Longrightarrow> page_no (table m ! f) = page_no (table m ! g) \<Longrightarrow> f = g"
  using assms by (auto simp: mmu_inv_def owns_def)

lemma frame_of_Some:
  assumes "mmu_inv m" "q \<noteq> 0"
  shows "frame_of m q pg = Some f \<longleftrightarrow> f < NFRAMES \<and> owns m q f \<and> page_no (table m ! f) = pg"
proof
  assume "frame_of m q pg = Some f"
  then show "f < NFRAMES \<and> owns m q f \<and> page_no (table m ! f) = pg"
    using find_index_SomeD [of _ "table m" f] mmu_invD(1) [OF assms(1)] by (fastforce simp: frame_of_def owns_def)
next
  assume f: "f < NFRAMES \<and> owns m q f \<and> page_no (table m ! f) = pg"
  then have "\<exists>e\<in>set (table m). use e \<and> fm_pid e = q \<and> page_no e = pg"
    using mmu_invD(1) [OF assms(1)] by (auto simp: owns_def intro!: bexI [of _ "table m ! f"])
  then obtain g where g: "frame_of m q pg = Some g"
    using find_index_None_iff [of "\<lambda>e. use e \<and> fm_pid e = q \<and> page_no e = pg" "table m"] by (auto simp: frame_of_def)
  then have "g < NFRAMES \<and> owns m q g \<and> page_no (table m ! g) = pg"
    using find_index_SomeD [of _ "table m" g] mmu_invD(1) [OF assms(1)] by (fastforce simp: frame_of_def owns_def)
  with f g mmu_invD(4) [OF assms(1), of f g q] assms(2) show "frame_of m q pg = Some f" by auto
qed

definition nfree :: "'c mmu \<Rightarrow> nat" where
  "nfree m = length (filter (\<lambda>e. \<not> use e) (table m))"

lemma option_eqI: "(\<And>x. a = Some x \<longleftrightarrow> b = Some x) \<Longrightarrow> a = b"
  by (cases a; cases b) auto

lemma length_filter_update:
  assumes "i < length xs" "P (xs ! i)" "\<not> P x"
  shows "Suc (length (filter P (xs[i := x]))) = length (filter P xs)"
proof -
  have xs: "xs = take i xs @ xs ! i # drop (Suc i) xs" using assms(1) by (rule id_take_nth_drop)
  have "length (filter P xs) = Suc (length (filter P (take i xs)) + length (filter P (drop (Suc i) xs)))"
    by (subst xs) (simp add: assms(2))
  then show ?thesis by (simp add: upd_conv_take_nth_drop [OF assms(1)] assms(3))
qed

text \<open>A free frame \<open>f\<close> becomes page \<open>pg\<close> of process \<open>q\<close>.\<close>

definition enter :: "nat \<Rightarrow> int \<Rightarrow> nat \<Rightarrow> frame_mapping list \<Rightarrow> frame_mapping list" where
  "enter f q pg t = t[f := (t ! f)\<lparr>use := True, fm_pid := q, page_no := pg\<rparr>]"

lemma enter_frames:
  assumes inv: "mmu_inv m" and q: "q \<noteq> 0" "frame_of m q pg = None" and f: "f < NFRAMES" "\<not> use (table m ! f)"
    and m': "table m' = enter f q pg (table m)" "upages m' = upages m" "curr_vm_pid m' = curr_vm_pid m"
  shows "mmu_inv m'" "Suc (nfree m') = nfree m"
    "r \<noteq> 0 \<Longrightarrow> frame_of m' r n = (if r = q \<and> n = pg then Some f else frame_of m r n)"
proof -
  have l: "f < length (table m)" using f(1) mmu_invD(1) [OF inv] by simp
  have o: "owns m' r g \<longleftrightarrow> (if g = f then r = q else owns m r g)"
    "page_no (table m' ! g) = (if g = f then pg else page_no (table m ! g))" for r g
    using l by (auto simp: owns_def m'(1) enter_def nth_list_update)
  have new: "\<not> (owns m q g \<and> page_no (table m ! g) = pg)" if "g < NFRAMES" for g
    using frame_of_Some [OF inv q(1), of pg g] q(2) that by simp
  have "g = h" if "g < NFRAMES" "h < NFRAMES" "owns m' r g" "owns m' r h" "r \<noteq> 0" "page_no (table m' ! g) = page_no (table m' ! h)" for r g h
    using that new [of g] new [of h] mmu_invD(4) [OF inv, of g h r] unfolding o by (auto split: if_splits)
  then show i': "mmu_inv m'"
    using mmu_invD(1-3) [OF inv] unfolding mmu_inv_def m'(2,3) by (auto simp: m'(1) enter_def owns_def)
  show "Suc (nfree m') = nfree m"
    using length_filter_update [where P = "\<lambda>e. \<not> use e", OF l] f(2) by (simp add: nfree_def m'(1) enter_def)
  assume r: "r \<noteq> 0"
  have "frame_of m' r n = Some g \<longleftrightarrow> (if r = q \<and> n = pg then Some f else frame_of m r n) = Some g" for g
    using frame_of_Some [OF i' r, of n g] frame_of_Some [OF inv r, of n g] o(1) [of r g] o(2) [of g] new [of g] f
    by (auto simp: owns_def)
  then show "frame_of m' r n = (if r = q \<and> n = pg then Some f else frame_of m r n)"
    by (rule option_eqI)
qed

context paging_source
begin

lemma alloc_ok:
  assumes "ok (paging m)" "mmu_inv m" "nfree m \<noteq> 0"
  shows "\<exists>f a p. mmu_alloc s m = Some (f, a, m\<lparr>paging := p, table := (table m)[f := (table m ! f)\<lparr>use := True\<rparr>]\<rparr>)
     \<and> f < NFRAMES \<and> \<not> use (table m ! f) \<and> ok p \<and> holds p a f \<and> (\<forall>g. g \<noteq> f \<longrightarrow> content p g = content (paging m) g)"
proof -
  obtain f where f: "find_index (\<lambda>e. \<not> use e) (table m) = Some f"
    using assms(3) find_index_None_iff [of "\<lambda>e. \<not> use e" "table m"]
    by (cases "find_index (\<lambda>e. \<not> use e) (table m)") (auto simp: nfree_def filter_empty_conv)
  note F = find_index_SomeD [OF f]
  then have "f < NFRAMES" using mmu_invD(1) [OF assms(2)] by simp
  moreover from rd_ok [OF assms(1) this, of True] obtain a p where "paging_read s f True (paging m) = Some (a, p)" "ok p" "holds p a f"
    "\<forall>g. g \<noteq> f \<longrightarrow> content p g = content (paging m) g" by blast
  ultimately show ?thesis using f F(2) by (auto simp: mmu_alloc_def)
qed

text \<open>A new page, and stores to it through the address: nothing but the page changes.\<close>

lemma new_page_ok:
  assumes "ok (paging m)" "mmu_inv m" "nfree m \<noteq> 0" "q \<noteq> 0" "q \<noteq> curr_vm_pid m" "frame_of m q pg = None"
    and pt: "translation m = SOFT_TLB \<or> q < 32"
  shows "\<exists>a f m'. new_page s q pg m = Some (a, m') \<and> ok (paging m') \<and> mmu_inv m' \<and> holds (paging m') a f
     \<and> frame_of m' q pg = Some f \<and> Suc (nfree m') = nfree m \<and> upages m' = upages m \<and> curr_vm_pid m' = curr_vm_pid m
     \<and> translation m' = translation m \<and> grass_mem m' = grass_mem m \<and> (\<forall>g\<ge>NFRAMES. content (paging m') g = content (paging m) g)
     \<and> (\<forall>r n. r \<noteq> 0 \<and> (r, n) \<noteq> (q, pg) \<longrightarrow> aspace content m' r n = aspace content m r n)"
proof -
  obtain f a p where p: "mmu_alloc s m = Some (f, a, m\<lparr>paging := p, table := (table m)[f := (table m ! f)\<lparr>use := True\<rparr>]\<rparr>)"
    "f < NFRAMES" "\<not> use (table m ! f)" "ok p" "holds p a f" "\<forall>g. g \<noteq> f \<longrightarrow> content p g = content (paging m) g"
    using alloc_ok [OF assms(1-3)] by blast
  let ?m = "m\<lparr>paging := p, table := enter f q pg (table m)\<rparr>"
  have "new_page s q pg m = Some (a, ?m)"
    using p(1,2) mmu_invD(1) [OF assms(2)] pt
    by (auto simp: new_page_def earth_mmu_map_def page_table_map_def soft_tlb_map_def enter_def intro: translation.exhaust)
  moreover note E = enter_frames [OF assms(2,4,6) p(2,3), of ?m, simplified]
  moreover have "aspace content ?m r n = aspace content m r n" if "r \<noteq> 0" "(r, n) \<noteq> (q, pg)" for r n
  proof -
    have "g < NFRAMES \<and> g \<noteq> f" if "frame_of m r n = Some g" for g
      using frame_of_Some [OF assms(2) \<open>r \<noteq> 0\<close>, of n g] that p(3) by (auto simp: owns_def)
    with E(3) [of r n] that p(6) show ?thesis by (auto simp: aspace_def intro!: option.map_cong0)
  qed
  moreover have "content p g = content (paging m) g" if "g \<ge> NFRAMES" for g using p(2,6) that by simp
  ultimately show ?thesis using p(4,5) assms(4) by (intro exI [of _ a] exI [of _ f] exI [of _ ?m]) auto
qed

lemma fill_ok:
  assumes "ok (paging m)" "mmu_inv m" "q \<noteq> 0" "q \<noteq> curr_vm_pid m" "frame_of m q pg = Some f" "holds (paging m) a f" "length b = PAGE_SIZE"
  shows "ok (paging (frame_fill a b m))" "mmu_inv (frame_fill a b m)" "holds (paging (frame_fill a b m)) a f"
    "frame_of (frame_fill a b m) = frame_of m" "nfree (frame_fill a b m) = nfree m"
    "g \<ge> NFRAMES \<Longrightarrow> content (paging (frame_fill a b m)) g = content (paging m) g"
    "r \<noteq> 0 \<Longrightarrow> aspace content (frame_fill a b m) r n = (if (r, n) = (q, pg) then Some b else aspace content m r n)"
proof -
  have f: "f < NFRAMES" "owns m q f" "page_no (table m ! f) = pg" using frame_of_Some [OF assms(2,3)] assms(5) by auto
  note S = store_ok [OF assms(1) f(1) assms(6,7)]
  show "ok (paging (frame_fill a b m))" "holds (paging (frame_fill a b m)) a f" using S by (simp_all add: frame_fill_def)
  show "mmu_inv (frame_fill a b m)" using assms(2) by (simp add: frame_fill_def mmu_inv_def)
  show fr: "frame_of (frame_fill a b m) = frame_of m" by (simp add: fun_eq_iff frame_of_def frame_fill_def)
  show "nfree (frame_fill a b m) = nfree m" by (simp add: nfree_def frame_fill_def)
  show "content (paging (frame_fill a b m)) g = content (paging m) g" if "g \<ge> NFRAMES" using S f(1) that by (simp add: frame_fill_def)
  assume r: "r \<noteq> 0"
  have "content (page_store a b (paging m)) g = (if g = f then b else content (paging m) g) \<and> (g = f \<longleftrightarrow> (r, n) = (q, pg))"
    if g: "frame_of m r n = Some g" for g
  proof -
    have "g < NFRAMES" "owns m r g" "page_no (table m ! g) = n" using frame_of_Some [OF assms(2) r, of n g] g by auto
    moreover have "g = f" if "(r, n) = (q, pg)" using that g assms(5) by simp
    ultimately show ?thesis using S f by (auto simp only: owns_def fun_upd_apply)
  qed
  with assms(4,5) show "aspace content (frame_fill a b m) r n = (if (r, n) = (q, pg) then Some b else aspace content m r n)"
    unfolding aspace_def fr by (cases "frame_of m r n") (auto simp: frame_fill_def)
qed

end

context paging_device
begin

lemma unmap_ok:
  assumes "ok (paging m)" "mmu_inv m" "set is \<subseteq> {..<NFRAMES}"
  shows "\<exists>p. tlb_unmap_loop s is m = Some (m\<lparr>paging := p\<rparr>) \<and> ok p
     \<and> (\<forall>f<NFRAMES. content p f = (if f \<in> set is \<and> owns m (curr_vm_pid m) f then upages m (page_no (table m ! f)) else content (paging m) f))"
  using assms
proof (induction "is" arbitrary: m)
  case Nil
  then show ?case by (intro exI [of _ "paging m"]) simp
next
  case (Cons i "is")
  show ?case
  proof (cases "owns m (curr_vm_pid m) i")
    case False
    obtain p where "tlb_unmap_loop s is m = Some (m\<lparr>paging := p\<rparr>)" "ok p"
      "\<forall>f<NFRAMES. content p f = (if f \<in> set is \<and> owns m (curr_vm_pid m) f then upages m (page_no (table m ! f)) else content (paging m) f)"
      using Cons.IH [OF Cons.prems(1,2)] Cons.prems(3) by auto
    with False show ?thesis by (intro exI [of _ p]) (auto simp: owns_def)
  next
    case True
    obtain p where p: "paging_write s i (upages m (page_no (table m ! i))) (paging m) = Some p" "ok p"
      "\<forall>g<NFRAMES. content p g = (if g = i then upages m (page_no (table m ! i)) else content (paging m) g)"
      using wr_ok [OF Cons.prems(1) _ mmu_invD(2) [OF Cons.prems(2)], of i] Cons.prems(3) unfolding set_simps by fastforce
    let ?m = "m\<lparr>paging := p\<rparr>"
    have "mmu_inv ?m" "owns ?m = owns m" using Cons.prems(2) by (auto simp: mmu_inv_def owns_def fun_eq_iff)
    then obtain p' where "tlb_unmap_loop s is ?m = Some (?m\<lparr>paging := p'\<rparr>)" "ok p'"
      "\<forall>f<NFRAMES. content p' f = (if f \<in> set is \<and> owns m (curr_vm_pid m) f then upages m (page_no (table m ! f)) else content p f)"
      using Cons.IH [of ?m] Cons.prems(3) p(2) by auto
    with p(1,3) True show ?thesis by (intro exI [of _ p']) (auto simp: owns_def)
  qed
qed

lemma map_ok:
  assumes "ok (paging m)" "mmu_inv m" "set is \<subseteq> {..<NFRAMES}" "q \<noteq> 0"
  shows "\<exists>p u. tlb_map_loop s q is m = Some (m\<lparr>paging := p, upages := u\<rparr>) \<and> ok p
     \<and> (\<forall>f<NFRAMES. content p f = content (paging m) f) \<and> (\<forall>pg. length (u pg) = PAGE_SIZE)
     \<and> (\<forall>f\<in>set is. owns m q f \<longrightarrow> u (page_no (table m ! f)) = content (paging m) f)
     \<and> (\<forall>pg. (\<forall>f\<in>set is. owns m q f \<longrightarrow> page_no (table m ! f) \<noteq> pg) \<longrightarrow> u pg = upages m pg)"
  using assms
proof (induction "is" arbitrary: m)
  case Nil
  then show ?case using mmu_invD(2) [OF Nil(2)] by (intro exI [of _ "paging m"] exI [of _ "upages m"]) simp
next
  case (Cons i "is")
  show ?case
  proof (cases "owns m q i")
    case False
    then have e: "tlb_map_loop s q (i # is) m = tlb_map_loop s q is m" by (auto simp: owns_def)
    have "set is \<subseteq> {..<NFRAMES}" using Cons.prems(3) by simp
    with Cons.IH [OF Cons.prems(1,2) _ Cons.prems(4)] False show ?thesis unfolding e set_simps ball_simps by blast
  next
    case True
    have i: "i < NFRAMES" using Cons.prems(3) by simp
    obtain a p where p: "paging_read s i False (paging m) = Some (a, p)" "ok p" "pages p a = content (paging m) i"
      "\<forall>g<NFRAMES. content p g = content (paging m) g"
      using rd_ok [OF Cons.prems(1) i, of False] holds_mem [OF _ i] by metis
    let ?pg = "page_no (table m ! i)"
    let ?m = "m\<lparr>paging := p, upages := (upages m)(?pg := pages p a)\<rparr>"
    have m: "mmu_inv ?m" "owns ?m = owns m"
      using Cons.prems(2) content_length [OF Cons.prems(1) i] p(3) by (auto simp: mmu_inv_def owns_def fun_eq_iff)
    have same: "i = f" if "f \<in> set is" "owns m q f" "page_no (table m ! f) = ?pg" for f
      using mmu_invD(4) [OF Cons.prems(2) i, of f q] that True Cons.prems(3,4) by auto
    obtain p' u where "tlb_map_loop s q is ?m = Some (?m\<lparr>paging := p', upages := u\<rparr>)" "ok p'"
      "\<forall>f<NFRAMES. content p' f = content p f" "\<forall>pg. length (u pg) = PAGE_SIZE"
      "\<forall>f\<in>set is. owns m q f \<longrightarrow> u (page_no (table m ! f)) = content p f"
      "\<forall>pg. (\<forall>f\<in>set is. owns m q f \<longrightarrow> page_no (table m ! f) \<noteq> pg) \<longrightarrow> u pg = ((upages m)(?pg := pages p a)) pg"
      using Cons.IH [of ?m] p(2) m Cons.prems(3,4) by auto
    note R = this
    have "u ?pg = content (paging m) i"
    proof (cases "i \<in> set is")
      case False
      with same have "\<forall>f\<in>set is. owns m q f \<longrightarrow> page_no (table m ! f) \<noteq> ?pg" by blast
      with R(6) p(3) show ?thesis by simp
    qed (use R(5) p(4) i True in simp)
    moreover have "tlb_map_loop s q (i # is) m = Some (m\<lparr>paging := p', upages := u\<rparr>)" using R(1) p(1) True by (simp add: owns_def)
    moreover have "u pg = upages m pg" if "\<forall>f\<in>set (i # is). owns m q f \<longrightarrow> page_no (table m ! f) \<noteq> pg" for pg
      using R(6) that True by simp
    ultimately show ?thesis using R(2-5) p(4) Cons.prems(3) by (intro exI [of _ p'] exI [of _ u]) auto
  qed
qed

text \<open>A switch keeps every address space and brings in the one of the process.\<close>

lemma switch_ok:
  assumes ok: "ok (paging m)" and inv: "mmu_inv m" and q: "q \<noteq> 0"
  shows "\<exists>m'. soft_tlb_switch s q m = Some m' \<and> ok (paging m') \<and> mmu_inv m' \<and> curr_vm_pid m' = q \<and> table m' = table m
     \<and> (\<forall>r. r \<noteq> 0 \<longrightarrow> aspace content m' r = aspace content m r)
     \<and> (\<forall>pg. frame_of m q pg = None \<longrightarrow> upages m' pg = upages m pg)"
proof (cases "q = curr_vm_pid m")
  case True
  with ok inv show ?thesis by (simp add: soft_tlb_switch_def)
next
  case False
  let ?is = "[0..<NFRAMES]" and ?c = "curr_vm_pid m"
  have S: "set ?is = {..<NFRAMES}" by auto
  obtain p where p: "tlb_unmap_loop s ?is m = Some (m\<lparr>paging := p\<rparr>)" "ok p"
    "\<forall>f<NFRAMES. content p f = (if owns m ?c f then upages m (page_no (table m ! f)) else content (paging m) f)"
    using unmap_ok [OF ok inv, of ?is] unfolding S by auto
  let ?m = "m\<lparr>paging := p\<rparr>"
  have m: "mmu_inv ?m" "owns ?m = owns m" using inv by (auto simp: mmu_inv_def owns_def fun_eq_iff)
  obtain p' u where u: "tlb_map_loop s q ?is ?m = Some (?m\<lparr>paging := p', upages := u\<rparr>)" "ok p'"
    "\<forall>f<NFRAMES. content p' f = content p f" "\<forall>pg. length (u pg) = PAGE_SIZE"
    "\<forall>f<NFRAMES. owns m q f \<longrightarrow> u (page_no (table m ! f)) = content p f"
    "\<forall>pg. (\<forall>f<NFRAMES. owns m q f \<longrightarrow> page_no (table m ! f) \<noteq> pg) \<longrightarrow> u pg = upages m pg"
    using map_ok [of ?m ?is q] p(2) m q unfolding S by auto
  let ?m' = "m\<lparr>paging := p', upages := u, curr_vm_pid := q\<rparr>"
  have inv': "mmu_inv ?m'" using inv u(4) q by (simp add: mmu_inv_def)
  have fr: "frame_of ?m' = frame_of m" by (simp add: fun_eq_iff frame_of_def)
  have "aspace content ?m' r pg = aspace content m r pg" if r: "r \<noteq> 0" for r pg
  proof (cases "frame_of m r pg")
    case None
    then show ?thesis by (simp add: aspace_def fr)
  next
    case (Some f)
    then have f: "f < NFRAMES" "owns m r f" "page_no (table m ! f) = pg" using frame_of_Some [OF inv r] by auto
    show ?thesis
    proof (cases "r = q")
      case True
      have "\<not> owns m ?c f" using f(2) True False by (simp add: owns_def)
      then have "content p f = content (paging m) f" using p(3) f(1) by simp
      with True False Some f u(5) show ?thesis by (auto simp: aspace_def fr)
    next
      case rq: False
      have "content p' f = (if r = ?c then upages m pg else content (paging m) f)"
        using u(3) p(3) f by (auto simp: owns_def)
      with rq Some show ?thesis by (simp add: aspace_def fr)
    qed
  qed
  moreover have "u pg = upages m pg" if "frame_of m q pg = None" for pg
    using u(6) frame_of_Some [OF inv q] that by (metis option.distinct(1))
  moreover have "soft_tlb_switch s q m = Some ?m'" using p(1) u(1) False by (simp add: soft_tlb_switch_def)
  ultimately show ?thesis using u(2) inv' by (auto simp: fun_eq_iff)
qed

end

subsection \<open>Freeing a process\<close>

text \<open>Invalidation of a frame, which must leave the other frames alone.\<close>

locale frame_cache =
  fixes content :: "'c pager \<Rightarrow> nat \<Rightarrow> byte list" and ok :: "'c pager \<Rightarrow> bool"
  assumes invalidate_ok: "ok p \<Longrightarrow> f < NFRAMES \<Longrightarrow> ok (paging_invalidate_cache f p)
      \<and> (\<forall>g<NFRAMES. g \<noteq> f \<longrightarrow> content (paging_invalidate_cache f p) g = content p g)"
begin

lemma free_loop_ok:
  assumes "ok (paging m)" "set is \<subseteq> {..<NFRAMES}" "length (table m) = NFRAMES"
  shows "\<exists>p t. mmu_free_loop q is m = m\<lparr>paging := p, table := t\<rparr> \<and> ok p \<and> length t = NFRAMES
     \<and> (\<forall>f<NFRAMES. t ! f = (if f \<in> set is \<and> owns m q f then no_mapping else table m ! f))
     \<and> (\<forall>f<NFRAMES. \<not> owns m q f \<longrightarrow> content p f = content (paging m) f)"
  using assms
proof (induction "is" arbitrary: m)
  case Nil
  then show ?case by (intro exI [of _ "paging m"] exI [of _ "table m"]) simp
next
  case (Cons i "is")
  have i: "i < NFRAMES" and sub: "set is \<subseteq> {..<NFRAMES}" using Cons.prems(2) by auto
  show ?case
  proof (cases "owns m q i")
    case False
    then have e: "mmu_free_loop q (i # is) m = mmu_free_loop q is m" by (auto simp: owns_def)
    have "(f \<in> set (i # is) \<and> owns m q f) = (f \<in> set is \<and> owns m q f)" for f using False by auto
    then show ?thesis using Cons.IH [OF Cons.prems(1) sub Cons.prems(3)] unfolding e by presburger
  next
    case True
    let ?m = "m\<lparr>paging := paging_invalidate_cache i (paging m), table := (table m)[i := no_mapping]\<rparr>"
    note I = invalidate_ok [OF Cons.prems(1) i]
    have o: "owns ?m q f = (f \<noteq> i \<and> owns m q f)" for f
      using i Cons.prems(3) by (auto simp: owns_def nth_list_update no_mapping_def)
    obtain p t where p: "mmu_free_loop q is ?m = ?m\<lparr>paging := p, table := t\<rparr>" "ok p" "length t = NFRAMES"
      "\<forall>f<NFRAMES. t ! f = (if f \<in> set is \<and> owns ?m q f then no_mapping else table ?m ! f)"
      "\<forall>f<NFRAMES. \<not> owns ?m q f \<longrightarrow> content p f = content (paging ?m) f"
      using Cons.IH [of ?m] I sub Cons.prems(3) by auto
    have "t ! f = (if f \<in> set (i # is) \<and> owns m q f then no_mapping else table m ! f)" if "f < NFRAMES" for f
      using p(4) that o [of f] True i Cons.prems(3) by (auto simp: nth_list_update)
    moreover have "content p f = content (paging m) f" if "f < NFRAMES" "\<not> owns m q f" for f
      using p(5) o [of f] that I True by (cases "f = i") auto
    moreover have "mmu_free_loop q (i # is) m = m\<lparr>paging := p, table := t\<rparr>" using p(1) True by (simp add: owns_def)
    ultimately show ?thesis using p(2,3) by blast
  qed
qed

lemma free_ok:
  assumes "ok (paging m)" "mmu_inv m"
  shows "ok (paging (mmu_free q m))" "mmu_inv (mmu_free q m)" "f < NFRAMES \<Longrightarrow> owns m q f \<Longrightarrow> \<not> use (table (mmu_free q m) ! f)"
    "r \<noteq> 0 \<Longrightarrow> aspace content (mmu_free q m) r n = (if r = q then None else aspace content m r n)"
proof -
  have S: "set [0..<NFRAMES] = {..<NFRAMES}" by auto
  obtain p t where p: "mmu_free q m = m\<lparr>paging := p, table := t\<rparr>" "ok p" "length t = NFRAMES"
    "\<forall>f<NFRAMES. t ! f = (if owns m q f then no_mapping else table m ! f)"
    "\<forall>f<NFRAMES. \<not> owns m q f \<longrightarrow> content p f = content (paging m) f"
    using free_loop_ok [OF assms(1), of "[0..<NFRAMES]" q] mmu_invD(1) [OF assms(2)] unfolding mmu_free_def S by auto
  show "ok (paging (mmu_free q m))" using p by simp
  have o: "owns (mmu_free q m) r f = (r \<noteq> q \<and> owns m r f)" if "f < NFRAMES" for r f
    using that p(4) by (auto simp: owns_def p(1) no_mapping_def)
  show "\<not> use (table (mmu_free q m) ! f)" if "f < NFRAMES" "owns m q f" using that p(4) by (simp add: p(1) no_mapping_def)
  have pg: "page_no (table (mmu_free q m) ! f) = page_no (table m ! f)" if "f < NFRAMES" "owns (mmu_free q m) r f" for r f
    using that p(4) o [OF that(1)] by (auto simp: p(1) owns_def no_mapping_def)
  have "g = h" if "g < NFRAMES" "h < NFRAMES" "owns (mmu_free q m) r g" "owns (mmu_free q m) r h" "r \<noteq> 0"
    "page_no (table (mmu_free q m) ! g) = page_no (table (mmu_free q m) ! h)" for r g h
    using that mmu_invD(4) [OF assms(2), of g h r] o pg by auto
  then show i': "mmu_inv (mmu_free q m)"
    using mmu_invD(1-3) [OF assms(2)] p(3) unfolding mmu_inv_def owns_def by (auto simp: p(1))
  assume r: "r \<noteq> 0"
  have fr: "frame_of (mmu_free q m) r n = (if r = q then None else frame_of m r n)"
    using frame_of_Some [OF i' r, of n] frame_of_Some [OF assms(2) r, of n] o [of _ r] pg [of _ r]
    by (intro option_eqI) auto
  have "content p g = content (paging m) g" if "frame_of m r n = Some g" "r \<noteq> q" for g
    using frame_of_Some [OF assms(2) r, of n g] that p(5) by (auto simp: owns_def)
  then show "aspace content (mmu_free q m) r n = (if r = q then None else aspace content m r n)"
    unfolding aspace_def fr by (cases "frame_of m r n") (auto simp: p(1))
qed

end

interpretation qemu_cache: frame_cache qemu_content qemu_ok
  by unfold_locales (auto simp: qemu_ok_def qemu_content_def paging_invalidate_cache_def)

interpretation arty_cache: frame_cache "arty_content media cells" "arty_ok media live ready"
proof unfold_locales
  fix p f assume ok: "arty_ok media live ready p" and f: "f < NFRAMES"
  let ?p = "paging_invalidate_cache f p"
  have wf: "cache_wf p" using ok by (simp add: arty_ok_def)
  have wf': "cache_wf ?p" using wf unfolding cache_wf_def by (auto simp: paging_invalidate_cache_def)
  have "slot_of ?p g = slot_of p g" if "g \<noteq> f" for g
    using slot_of_Some [OF wf'] slot_of_Some [OF wf] that cache_wfD(3) [OF wf]
    by (intro option_eqI) (auto simp: paging_invalidate_cache_def split: if_splits)
  moreover have same: "pg_disk ?p = pg_disk p" "pages ?p = pages p" by (simp_all add: paging_invalidate_cache_def)
  ultimately show "arty_ok media live ready ?p \<and> (\<forall>g<NFRAMES. g \<noteq> f \<longrightarrow> arty_content media cells ?p g = arty_content media cells p g)"
    using wf' ok same by (auto simp: arty_ok_def arty_content_def split: option.split)
qed

subsection \<open>The properties\<close>


definition two_spaces :: "(sim_card \<times> byte) mmu" where
  "two_spaces = \<lparr>table = \<lparr>use = True, fm_pid = 1, page_no = 0x8005\<rparr> # \<lparr>use = True, fm_pid = 2, page_no = 0x8005\<rparr> # replicate 254 no_mapping,
     curr_vm_pid = 1, upages = (\<lambda>_. replicate 4096 7), grass_mem = [], paging = full_pager, translation = SOFT_TLB\<rparr>"

lemma two_spaces_inv: "mmu_inv two_spaces"
  by (auto simp: mmu_inv_def two_spaces_def no_mapping_def nth_Cons split: nat.splits)

lemma two_spaces_frames: "frame_of two_spaces 1 0x8005 = Some 0" "frame_of two_spaces 2 0x8005 = Some 1"
  by (simp_all add: frame_of_def two_spaces_def)

lemma two_spaces_content: "arty_content fst sim_cells (paging two_spaces) 1 = replicate 4096 0"
proof -
  have "find_index (\<lambda>x. x = int 1) (map int [0..<28]) = Some 1" by (simp add: upt_rec)
  then have "slot_of full_pager 1 = Some 1" by (simp add: slot_of_def full_pager_def del: upt_Suc)
  then show ?thesis by (simp add: two_spaces_def arty_content_def) (simp add: full_pager_def)
qed


text \<open>
  Freeing a process: \<^verbatim>\<open>mmu_free\<close> returns every frame of the process, after which it has no
  page left, and keeps the frame table well formed and every page of every other process,
  also those that were only in the frame cache.
\<close>

theorem mmu_free_exact:
  assumes "arty_ok media live ready (paging m)" "mmu_inv m"
  shows "arty_ok media live ready (paging (mmu_free q m)) \<and> mmu_inv (mmu_free q m)
     \<and> (\<forall>f. f < NFRAMES \<and> owns m q f \<longrightarrow> \<not> use (table (mmu_free q m) ! f))
     \<and> (\<forall>r n. r \<noteq> 0 \<longrightarrow> aspace (arty_content media cells) (mmu_free q m) r n =
          (if r = q then None else aspace (arty_content media cells) m r n))"
  using arty_cache.free_ok [OF assms] by blast

theorem mmu_free_exact_witness:
  "aspace (arty_content fst sim_cells) (mmu_free 1 two_spaces) 1 0x8005 = None
     \<and> aspace (arty_content fst sim_cells) (mmu_free 1 two_spaces) 2 0x8005 = Some (replicate 4096 0)"
proof -
  have ok: "arty_ok fst (\<lambda>_. True) sim_ready (paging two_spaces)" using full_pager_ok by (simp add: two_spaces_def arty_full_def)
  have "aspace (arty_content fst sim_cells) two_spaces 2 0x8005 = Some (replicate 4096 0)"
    using two_spaces_content by (simp add: aspace_def two_spaces_frames) (simp add: two_spaces_def)
  then show ?thesis using mmu_free_exact [OF ok two_spaces_inv, of 1 sim_cells] by simp
qed

end
