(* ===== verification/Elf.thy ===== *)
theory Elf
  imports Mmu
begin

section \<open>The loader\<close>

text \<open>
  \<^verbatim>\<open>library/elf/elf.c\<close>. The reader of an executable is an argument, as in the code; it may change the
  state, the disk driver's part of it for instance. Reading a program header outside of the
  block buffer, copying more arguments than there are, or writing outside of a page or of the
  grass region is undefined in C and \<open>None\<close> here.
\<close>

abbreviation (input) APPS_SIZE :: nat where "APPS_SIZE \<equiv> 0x3000"
abbreviation (input) APPS_ENTRY_ADDR :: nat where "APPS_ENTRY_ADDR \<equiv> 0x08005000"
abbreviation (input) APPS_ARG_ADDR :: nat where "APPS_ARG_ADDR \<equiv> 0x80000000"
abbreviation (input) GRASS_ENTRY :: nat where "GRASS_ENTRY \<equiv> 0x08002800"
abbreviation (input) GRASS_SIZE :: nat where "GRASS_SIZE \<equiv> 0x2800"
abbreviation (input) CMD_NARGS :: nat where "CMD_NARGS \<equiv> 16"
abbreviation (input) CMD_ARG_LEN :: nat where "CMD_ARG_LEN \<equiv> 32"

type_synonym 'c elf_reader = "nat \<Rightarrow> 'c mmu \<Rightarrow> (byte list \<times> 'c mmu) option"

record elf32_program_header =
  p_type :: nat
  p_offset :: nat
  p_vaddr :: nat
  p_paddr :: nat
  p_filesz :: nat
  p_memsz :: nat
  p_flags :: nat
  p_align :: nat

definition e_phoff :: "byte list \<Rightarrow> nat" where
  "e_phoff buf = get32 buf 7"

definition e_phnum :: "byte list \<Rightarrow> nat" where
  "e_phnum buf = unat (buf ! 44) + 256 * unat (buf ! 45)"

definition pheader :: "byte list \<Rightarrow> nat \<Rightarrow> elf32_program_header option" where
  "pheader buf i =
    (let off = e_phoff buf + 32 * i; h = drop off buf
     in if off + 32 \<le> length buf
        then Some \<lparr>p_type = get32 h 0, p_offset = get32 h 1, p_vaddr = get32 h 2, p_paddr = get32 h 3,
                   p_filesz = get32 h 4, p_memsz = get32 h 5, p_flags = get32 h 6, p_align = get32 h 7\<rparr>
        else None)"

text \<open>\<open>bs\<close> stored at distance \<open>k\<close> in a region of memory.\<close>

definition patch :: "nat \<Rightarrow> byte list \<Rightarrow> byte list \<Rightarrow> byte list" where
  "patch k bs mem = take k mem @ bs @ drop (k + length bs) mem"

definition fill_at :: "nat \<Rightarrow> nat \<Rightarrow> byte list \<Rightarrow> 'c mmu \<Rightarrow> 'c mmu" where
  "fill_at base k bs m = frame_fill base (patch k bs (pages (paging m) base)) m"

function load_grass_blocks :: "'c elf_reader \<Rightarrow> nat \<Rightarrow> nat \<Rightarrow> nat \<Rightarrow> 'c mmu \<Rightarrow> 'c mmu option" where
  "load_grass_blocks reader filesz off block_offset m =
    (if off < filesz
     then do { (b, m) \<leftarrow> reader block_offset m;
               load_grass_blocks reader filesz (off + BLOCK_SIZE) (block_offset + 1)
                 (m\<lparr>grass_mem := patch off b (grass_mem m)\<rparr>) }
     else Some m)"
  by pat_completeness auto

termination
  by (relation "measure (\<lambda>(_, filesz, off, _, _). filesz - off)") auto

definition load_grass :: "'c elf_reader \<Rightarrow> elf32_program_header \<Rightarrow> 'c mmu \<Rightarrow> 'c mmu option" where
  "load_grass reader h m =
    (if p_filesz h > GRASS_SIZE then None
     else do { m \<leftarrow> load_grass_blocks reader (p_filesz h) 0 (p_offset h div BLOCK_SIZE) m;
               Some (m\<lparr>grass_mem := patch (p_filesz h) (replicate (GRASS_SIZE - p_filesz h) 0) (grass_mem m)\<rparr>) })"

text \<open>The loop over the blocks of the file: \<open>base\<close> is the page being filled.\<close>

function load_app_blocks ::
  "'c spi \<Rightarrow> int \<Rightarrow> 'c elf_reader \<Rightarrow> nat \<Rightarrow> nat \<Rightarrow> nat \<Rightarrow> nat \<Rightarrow> nat \<Rightarrow> 'c mmu \<Rightarrow> (nat \<times> nat \<times> 'c mmu) option" where
  "load_app_blocks s pid reader filesz off block_offset code_start base m =
    (if off < filesz
     then do { (code_start, base, m) \<leftarrow>
                 (if off mod PAGE_SIZE = 0
                  then do { (base, m) \<leftarrow> new_page s pid code_start m; Some (code_start + 1, base, m) }
                  else Some (code_start, base, m));
               (b, m) \<leftarrow> reader block_offset m;
               load_app_blocks s pid reader filesz (off + BLOCK_SIZE) (block_offset + 1) code_start base
                 (fill_at base (off mod PAGE_SIZE) b m) }
     else Some (code_start, base, m))"
  by pat_completeness auto

termination
  by (relation "measure (\<lambda>(_, _, _, filesz, off, _). filesz - off)") auto

text \<open>\<^verbatim>\<open>while (code_start < ((APPS_ENTRY + APPS_SIZE) >> 12))\<close>: zero pages up to the end of the region.\<close>

function load_zero_pages :: "'c spi \<Rightarrow> int \<Rightarrow> nat \<Rightarrow> 'c mmu \<Rightarrow> 'c mmu option" where
  "load_zero_pages s pid code_start m =
    (if code_start < (APPS_ENTRY_ADDR + APPS_SIZE) div PAGE_SIZE
     then do { (base, m) \<leftarrow> new_page s pid code_start m;
               load_zero_pages s pid (code_start + 1) (frame_fill base (replicate PAGE_SIZE 0) m) }
     else Some m)"
  by pat_completeness auto

termination
  by (relation "measure (\<lambda>(_, _, code_start, _). (APPS_ENTRY_ADDR + APPS_SIZE) div PAGE_SIZE - code_start)") auto

declare load_grass_blocks.simps [simp del] load_app_blocks.simps [simp del] load_zero_pages.simps [simp del]

fun argv_loop :: "nat \<Rightarrow> nat \<Rightarrow> byte list \<Rightarrow> byte list" where
  "argv_loop 0 i page = page"
| "argv_loop (Suc n) i page =
    argv_loop n (Suc i) (put32 page (1 + i) (APPS_ARG_ADDR + 4 + 4 * CMD_NARGS + i * CMD_ARG_LEN))"

definition load_args :: "int \<Rightarrow> byte list option \<Rightarrow> byte list \<Rightarrow> byte list option" where
  "load_args argc argv page =
    (let page = put32 page 0 (nat (argc mod 4294967296))
     in do { page \<leftarrow> (case argv of
               None \<Rightarrow> Some page
             | Some a \<Rightarrow>
                 if 0 \<le> argc \<and> nat argc * CMD_ARG_LEN \<le> length a \<and> 4 + 4 * CMD_NARGS + nat argc * CMD_ARG_LEN \<le> PAGE_SIZE
                 then Some (patch (4 + 4 * CMD_NARGS) (take (nat argc * CMD_ARG_LEN) a) page) else None);
             if 4 + 4 * nat argc \<le> PAGE_SIZE then Some (argv_loop (nat argc) 0 page) else None })"

definition load_app ::
  "'c spi \<Rightarrow> int \<Rightarrow> 'c elf_reader \<Rightarrow> int \<Rightarrow> byte list option \<Rightarrow> elf32_program_header \<Rightarrow> 'c mmu \<Rightarrow> 'c mmu option" where
  "load_app s pid reader argc argv h m =
    do { (code_start, base, m) \<leftarrow>
           load_app_blocks s pid reader (p_filesz h) 0 (p_offset h div BLOCK_SIZE) (APPS_ENTRY_ADDR div PAGE_SIZE) 0 m;
         let last_page_filled = p_filesz h mod PAGE_SIZE;
         let m = (if last_page_filled \<noteq> 0
                  then fill_at base last_page_filled (replicate (PAGE_SIZE - last_page_filled) 0) m else m);
         m \<leftarrow> load_zero_pages s pid code_start m;
         (base, m) \<leftarrow> new_page s pid (APPS_ARG_ADDR div PAGE_SIZE) m;
         page \<leftarrow> load_args argc argv (pages (paging m) base);
         let m = frame_fill base page m;
         (base, m) \<leftarrow> new_page s pid (APPS_ARG_ADDR div PAGE_SIZE + 1) m;
         Some m }"

fun elf_load_loop ::
  "'c spi \<Rightarrow> int \<Rightarrow> 'c elf_reader \<Rightarrow> int \<Rightarrow> byte list option \<Rightarrow> byte list \<Rightarrow> nat list \<Rightarrow> 'c mmu \<Rightarrow> 'c mmu option" where
  "elf_load_loop s pid reader argc argv buf [] m = Some m"
| "elf_load_loop s pid reader argc argv buf (i # is) m =
    do { h \<leftarrow> pheader buf i;
         m \<leftarrow> (if p_memsz h = 0 then Some m
              else if p_vaddr h = GRASS_ENTRY then load_grass reader h m
              else if p_vaddr h = APPS_ENTRY_ADDR then load_app s pid reader argc argv h m
              else None);
         elf_load_loop s pid reader argc argv buf is m }"

definition elf_load :: "'c spi \<Rightarrow> int \<Rightarrow> 'c elf_reader \<Rightarrow> int \<Rightarrow> byte list option \<Rightarrow> 'c mmu \<Rightarrow> 'c mmu option" where
  "elf_load s pid reader argc argv m =
    do { (buf, m) \<leftarrow> reader 0 m;
         elf_load_loop s pid reader argc argv buf [0..<e_phnum buf] m }"

text \<open>
  The readers of the boot process, \<^verbatim>\<open>grass_read\<close> of \<^verbatim>\<open>earth.c\<close>, \<^verbatim>\<open>sys_proc_read\<close> of \<^verbatim>\<open>grass.c\<close> and of
  \<^verbatim>\<open>sys_proc.c\<close>: a block of the executable that starts at a fixed block of the disk.
\<close>

abbreviation (input) GRASS_EXEC_START :: nat where "GRASS_EXEC_START \<equiv> 2048"
abbreviation (input) GRASS_EXEC_SEGMENT :: nat where "GRASS_EXEC_SEGMENT \<equiv> 256"

definition sys_proc_read :: "'c spi \<Rightarrow> nat \<Rightarrow> 'c elf_reader" where
  "sys_proc_read s sys_proc_base block_no m =
    do { (_, b, d) \<leftarrow> disk_read s (int (sys_proc_base + block_no)) 1 (pg_disk (paging m));
         Some (b, m\<lparr>paging := (paging m)\<lparr>pg_disk := d\<rparr>\<rparr>) }"

definition grass_read :: "'c spi \<Rightarrow> 'c elf_reader" where
  "grass_read s = sys_proc_read s GRASS_EXEC_START"

subsection \<open>The contract of a reader\<close>

definition user_byte :: "('c pager \<Rightarrow> nat \<Rightarrow> byte list) \<Rightarrow> 'c mmu \<Rightarrow> int \<Rightarrow> nat \<Rightarrow> byte option" where
  "user_byte cont m q a = map_option (\<lambda>pg. pg ! (a mod PAGE_SIZE)) (aspace cont m q (a div PAGE_SIZE))"

text \<open>A process that is being loaded: not process 0, not the one in the user space.\<close>

definition loadable :: "('c pager \<Rightarrow> bool) \<Rightarrow> int \<Rightarrow> 'c mmu \<Rightarrow> bool" where
  "loadable ok q m \<longleftrightarrow> ok (paging m) \<and> mmu_inv m \<and> q \<noteq> 0 \<and> q \<noteq> curr_vm_pid m \<and> (translation m = SOFT_TLB \<or> q < 32)"

definition page_at :: "('c pager \<Rightarrow> nat \<Rightarrow> nat \<Rightarrow> bool) \<Rightarrow> 'c mmu \<Rightarrow> int \<Rightarrow> nat \<Rightarrow> nat \<Rightarrow> bool" where
  "page_at holds m q a pg \<longleftrightarrow> (\<exists>f. frame_of m q pg = Some f \<and> holds (paging m) a f)"

lemma length_patch: "k + length bs \<le> length mem \<Longrightarrow> length (patch k bs mem) = length mem"
  by (simp add: patch_def)

lemma nth_patch:
  "k + length bs \<le> length mem \<Longrightarrow> i < length mem \<Longrightarrow>
    patch k bs mem ! i = (if k \<le> i \<and> i < k + length bs then bs ! (i - k) else mem ! i)"
  by (auto simp: patch_def nth_append min_def)

lemma user_byte_app:
  "user_byte cont m q (APPS_ENTRY_ADDR + i) = map_option (\<lambda>pg. pg ! (i mod PAGE_SIZE)) (aspace cont m q (0x8005 + i div PAGE_SIZE))"
proof -
  have "APPS_ENTRY_ADDR + i = i + 0x8005 * PAGE_SIZE" by simp
  then have "(APPS_ENTRY_ADDR + i) div PAGE_SIZE = 0x8005 + i div PAGE_SIZE" "(APPS_ENTRY_ADDR + i) mod PAGE_SIZE = i mod PAGE_SIZE"
    by (simp_all only: div_mult_self1 mod_mult_self1 numeral_eq_iff)
  then show ?thesis unfolding user_byte_def by (simp only:)
qed

text \<open>Pages that the first \<open>off\<close> bytes take.\<close>

definition npages :: "nat \<Rightarrow> nat" where
  "npages off = (off + 4095) div 4096"

lemma div_4096: "x div 4096 = x div 512 div 8" for x :: nat
  by (simp add: div_mult2_eq [symmetric])

lemma npages_block:
  assumes "off mod 512 = 0"
  shows "npages (off + 512) = off div 4096 + 1" "off mod 4096 = 0 \<Longrightarrow> npages off = off div 4096"
    "off mod 4096 \<noteq> 0 \<Longrightarrow> npages off = off div 4096 + 1" "off mod 4096 + 512 \<le> 4096"
proof -
  define d r where "d = off div 512 div 8" and "r = off div 512 mod 8"
  have "off = 512 * (off div 512)" using assms by auto
  also have "off div 512 = 8 * d + r" by (simp add: d_def r_def)
  finally have e: "off = 4096 * d + 512 * r" by simp
  have r: "r < 8" by (simp add: r_def)
  have D: "off div 4096 = d" "off mod 4096 = 512 * r" using r by (simp_all add: e)
  have "(off + 512 + 4095) div 4096 = d + 1" using r unfolding e by (intro div_nat_eqI) simp_all
  then show "npages (off + 512) = off div 4096 + 1" by (simp add: npages_def D)
  have "(off + 4095) div 4096 = d" if "r = 0" using that unfolding e by (intro div_nat_eqI) simp_all
  then show "npages off = off div 4096" if "off mod 4096 = 0" using that by (simp add: npages_def D)
  have "(off + 4095) div 4096 = d + 1" if "r \<noteq> 0" using r that unfolding e by (intro div_nat_eqI) simp_all
  then show "npages off = off div 4096 + 1" if "off mod 4096 \<noteq> 0" using that by (simp add: npages_def D)
  show "off mod 4096 + 512 \<le> 4096" using r unfolding D by linarith
qed

lemma npages_end:
  assumes "off mod 512 = 0" "filesz \<le> off" "off < filesz + 512"
  shows "npages off = npages filesz"
proof -
  obtain j where j: "off = 512 * j" using assms(1) by (auto simp: mod_eq_0_iff_dvd)
  have "(filesz + 4095) div 512 = j + 7" using assms(2,3) j by (intro div_nat_eqI) simp_all
  moreover have "(off + 4095) div 512 = j + 7" using j by (intro div_nat_eqI) simp_all
  ultimately show ?thesis by (simp add: npages_def div_4096)
qed

lemma npages_partial:
  assumes "filesz mod 4096 \<noteq> 0"
  shows "npages filesz = filesz div 4096 + 1"
proof -
  define d r where "d = filesz div 4096" and "r = filesz mod 4096"
  have e: "filesz = 4096 * d + r" and r: "r \<noteq> 0" "r < 4096" using assms by (simp_all add: d_def r_def)
  have "(4096 * d + r + 4095) div 4096 = d + 1" using r by (intro div_nat_eqI) simp_all
  then show ?thesis unfolding npages_def d_def [symmetric] by (simp add: e)
qed

lemma npages_mono: "a \<le> b \<Longrightarrow> npages a \<le> npages b"
  unfolding npages_def by (rule div_le_mono) simp

lemma npages_less: "off mod 512 = 0 \<Longrightarrow> off < filesz \<Longrightarrow> off div 4096 + 1 \<le> npages filesz"
proof -
  assume "off mod 512 = 0" "off < filesz"
  then have "off + 4096 \<le> filesz + 4095" by simp
  then have "(off + 4096) div 4096 \<le> npages filesz" unfolding npages_def by (rule div_le_mono)
  then show ?thesis by simp
qed

lemma same_page:
  fixes off i :: nat
  assumes "off mod 512 = 0" "off \<le> i" "i < off + 512"
  shows "i div 4096 = off div 4096" "i mod 4096 = off mod 4096 + (i - off)"
proof -
  let ?r = "off mod 4096 + (i - off)"
  have "?r < 4096" using npages_block(4) [OF assms(1)] assms(2,3) by simp
  moreover have "i = ?r + off div 4096 * 4096" using assms(2) div_mult_mod_eq [of off 4096] by simp
  ultimately show "i div 4096 = off div 4096" "i mod 4096 = ?r"
    by (metis div_less div_mult_self1 add_0_right zero_neq_numeral, metis mod_less mod_mult_self1)
qed

lemma before_in_page: "i < off \<Longrightarrow> i div 4096 = off div 4096 \<Longrightarrow> i mod 4096 < off mod 4096" for i off :: nat
  using div_mult_mod_eq [of i 4096] div_mult_mod_eq [of off 4096] by linarith

text \<open>The argument page: the count, the argument vector and the strings.\<close>

definition args_page :: "nat \<Rightarrow> byte list \<Rightarrow> byte list \<Rightarrow> bool" where
  "args_page argc a page \<longleftrightarrow> length page = PAGE_SIZE \<and> get32 page 0 = argc
     \<and> (\<forall>i<argc. get32 page (1 + i) = APPS_ARG_ADDR + 68 + i * CMD_ARG_LEN)
     \<and> (\<forall>j<argc * CMD_ARG_LEN. page ! (68 + j) = a ! j)"

lemma nth_put32: "b < 4 * i \<or> 4 * i + 4 \<le> b \<Longrightarrow> put32 page i v ! b = page ! b"
  by (auto simp: put32_def)

lemma length_argv_loop: "length (argv_loop n i page) = length page"
  by (induction n i page rule: argv_loop.induct) simp_all

lemma nth_argv_loop: "4 * (1 + i + n) \<le> b \<Longrightarrow> argv_loop n i page ! b = page ! b"
  by (induction n i page rule: argv_loop.induct) (simp_all add: nth_put32)

lemma get32_argv_loop:
  assumes "4 * (1 + i + n) \<le> length page"
  shows "get32 (argv_loop n i page) k =
    (if 1 + i \<le> k \<and> k < 1 + i + n then (APPS_ARG_ADDR + 68 + (k - 1) * CMD_ARG_LEN) mod UINT else get32 page k)"
  using assms
proof (induction n i page rule: argv_loop.induct)
  case (2 n i page)
  then show ?case by (cases "k = 1 + i") (auto simp: get32_put32_same get32_put32_other)
qed simp

lemma load_args_page:
  assumes "argc \<le> 16" "length page = PAGE_SIZE" "argc * CMD_ARG_LEN \<le> length a"
  shows "\<exists>p. load_args (int argc) (Some a) page = Some p \<and> args_page argc a p"
    "\<exists>p. load_args 0 None page = Some p \<and> args_page 0 [] p"
proof -
  let ?p1 = "put32 page 0 argc" and ?as = "take (argc * CMD_ARG_LEN) a"
  let ?p2 = "patch 68 ?as ?p1"
  let ?p = "argv_loop argc 0 ?p2"
  have l: "68 + length ?as \<le> length ?p1" "length ?as = argc * 32" using assms by simp_all
  have len: "length ?p2 = PAGE_SIZE" using length_patch [OF l(1)] assms(2) by simp
  have n: "?p2 ! b = (if 68 \<le> b \<and> b < 68 + argc * 32 then a ! (b - 68) else ?p1 ! b)" if "b < 4096" for b
    using nth_patch [OF l(1), of b] that assms(2) nth_take [of "b - 68" "argc * 32" a] unfolding l(2) by auto
  have "get32 ?p2 0 = argc"
    using n [of 0] n [of 1] n [of 2] n [of 3] get32_put32_same [of 0 page argc] assms(1,2)
    by (simp add: get32_def numeral_2_eq_2)
  then have "get32 ?p 0 = argc" using get32_argv_loop [of 0 argc ?p2 0] len assms(1) by simp
  moreover have "get32 ?p (1 + i) = APPS_ARG_ADDR + 68 + i * CMD_ARG_LEN" if "i < argc" for i
    using get32_argv_loop [of 0 argc ?p2 "1 + i"] len assms(1) that by simp
  moreover have "?p ! (68 + j) = a ! j" if "j < argc * CMD_ARG_LEN" for j
    using nth_argv_loop [of 0 argc "68 + j" ?p2] n [of "68 + j"] that assms(1) by simp
  ultimately have "args_page argc a ?p" using len by (simp add: args_page_def length_argv_loop)
  moreover have "load_args (int argc) (Some a) page = Some ?p"
    using assms by (simp add: load_args_def Let_def nat_mult_distrib)
  ultimately show "\<exists>p. load_args (int argc) (Some a) page = Some p \<and> args_page argc a p" by blast
  have "args_page 0 [] (put32 page 0 0)" using get32_put32_same [of 0 page 0] assms(2) by (simp add: args_page_def)
  then show "\<exists>p. load_args 0 None page = Some p \<and> args_page 0 [] p" by (simp add: load_args_def)
qed

locale exec_file = paging_source +
  fixes reader :: "nat \<Rightarrow> 'a mmu \<Rightarrow> (byte list \<times> 'a mmu) option" and img :: "nat \<Rightarrow> byte list" and N :: nat and good :: "'a mmu \<Rightarrow> bool"
  assumes reader_ok: "ok (paging m) \<Longrightarrow> good m \<Longrightarrow> n < N \<Longrightarrow> \<exists>p. reader n m = Some (img n, m\<lparr>paging := p\<rparr>) \<and> ok p
      \<and> good (m\<lparr>paging := p\<rparr>) \<and> content p = content (paging m) \<and> holds p = holds (paging m)"
    and good_cong: "good m \<Longrightarrow> (\<forall>g\<ge>NFRAMES. content (paging m') g = content (paging m) g) \<Longrightarrow> good m'"
    and img_length: "good m \<Longrightarrow> n < N \<Longrightarrow> length (img n) = BLOCK_SIZE"
begin

lemma at_content:
  assumes "loadable ok q m" "page_at holds m q a pg"
  shows "aspace content m q pg = Some (pages (paging m) a)" "length (pages (paging m) a) = PAGE_SIZE"
proof -
  obtain f where f: "frame_of m q pg = Some f" "holds (paging m) a f" using assms(2) by (auto simp: page_at_def)
  then have "f < NFRAMES" using frame_of_Some assms(1) by (auto simp: loadable_def)
  with holds_mem [OF _ this f(2)] content_length f(1) assms(1)
  show "aspace content m q pg = Some (pages (paging m) a)" "length (pages (paging m) a) = PAGE_SIZE"
    by (auto simp: loadable_def aspace_def)
qed

lemma load_new_page:
  assumes L: "loadable ok q m" "good m" and n: "nfree m \<noteq> 0" "aspace content m q pg = None"
  shows "\<exists>a m'. new_page s q pg m = Some (a, m') \<and> loadable ok q m' \<and> good m' \<and> page_at holds m' q a pg \<and> Suc (nfree m') = nfree m
    \<and> grass_mem m' = grass_mem m \<and> (\<forall>r n. r \<noteq> 0 \<and> (r, n) \<noteq> (q, pg) \<longrightarrow> aspace content m' r n = aspace content m r n)"
proof -
  have l: "ok (paging m)" "mmu_inv m" "q \<noteq> 0" "q \<noteq> curr_vm_pid m" "translation m = SOFT_TLB \<or> q < 32" using L(1) by (auto simp: loadable_def)
  have "frame_of m q pg = None" using n(2) by (simp add: aspace_def)
  from new_page_ok [OF l(1,2) n(1) l(3,4) this l(5)] obtain a f m' where m': "new_page s q pg m = Some (a, m')" "ok (paging m')" "mmu_inv m'"
    "holds (paging m') a f" "frame_of m' q pg = Some f" "Suc (nfree m') = nfree m" "curr_vm_pid m' = curr_vm_pid m"
    "translation m' = translation m" "grass_mem m' = grass_mem m" "\<forall>g\<ge>NFRAMES. content (paging m') g = content (paging m) g"
    "\<forall>r n. r \<noteq> 0 \<and> (r, n) \<noteq> (q, pg) \<longrightarrow> aspace content m' r n = aspace content m r n" by blast
  have "good m'" by (rule good_cong [OF L(2) m'(10)])
  with m' l show ?thesis by (auto simp: loadable_def page_at_def)
qed

lemma load_fill:
  assumes L: "loadable ok q m" "good m" and a: "page_at holds m q a pg" "length b = PAGE_SIZE"
  shows "loadable ok q (frame_fill a b m)" "good (frame_fill a b m)" "page_at holds (frame_fill a b m) q a pg"
    "nfree (frame_fill a b m) = nfree m" "grass_mem (frame_fill a b m) = grass_mem m"
    "r \<noteq> 0 \<Longrightarrow> aspace content (frame_fill a b m) r n = (if (r, n) = (q, pg) then Some b else aspace content m r n)"
proof -
  obtain f where f: "frame_of m q pg = Some f" "holds (paging m) a f" using a(1) by (auto simp: page_at_def)
  have l: "ok (paging m)" "mmu_inv m" "q \<noteq> 0" "q \<noteq> curr_vm_pid m" "translation m = SOFT_TLB \<or> q < 32" using L(1) by (auto simp: loadable_def)
  note F = fill_ok [OF l(1-4) f a(2)]
  show "loadable ok q (frame_fill a b m)" using F(1,2) l(3-5) by (simp add: loadable_def) (simp add: frame_fill_def)
  show "good (frame_fill a b m)" using good_cong [OF L(2)] F(6) by blast
  show "page_at holds (frame_fill a b m) q a pg" using F(3,4) f(1) by (auto simp: page_at_def)
  show "nfree (frame_fill a b m) = nfree m" by (rule F(5))
  show "grass_mem (frame_fill a b m) = grass_mem m" by (simp add: frame_fill_def)
  show "aspace content (frame_fill a b m) r n = (if (r, n) = (q, pg) then Some b else aspace content m r n)" if "r \<noteq> 0" by (rule F(7) [OF that])
qed

lemma load_reader:
  assumes L: "loadable ok q m" "good m" and n: "n < N"
  shows "\<exists>m'. reader n m = Some (img n, m') \<and> loadable ok q m' \<and> good m' \<and> nfree m' = nfree m \<and> grass_mem m' = grass_mem m
     \<and> (\<forall>a pg. page_at holds m' q a pg = page_at holds m q a pg) \<and> aspace content m' = aspace content m"
proof -
  obtain p where p: "reader n m = Some (img n, m\<lparr>paging := p\<rparr>)" "ok p" "good (m\<lparr>paging := p\<rparr>)" "content p = content (paging m)" "holds p = holds (paging m)"
    using reader_ok [OF _ L(2) n] L(1) by (auto simp: loadable_def)
  have "aspace content (m\<lparr>paging := p\<rparr>) = aspace content m"
    by (intro ext) (simp add: aspace_def frame_of_def p(4) cong: if_cong)
  with p L(1) show ?thesis
    by (intro exI [of _ "m\<lparr>paging := p\<rparr>"]) (simp add: loadable_def mmu_inv_def nfree_def page_at_def frame_of_def)
qed

lemma load_fill_at:
  assumes L: "loadable ok q m" "good m" and a: "page_at holds m q a pg" "k + length bs \<le> PAGE_SIZE"
  shows "loadable ok q (fill_at a k bs m)" "good (fill_at a k bs m)" "page_at holds (fill_at a k bs m) q a pg"
    "nfree (fill_at a k bs m) = nfree m" "grass_mem (fill_at a k bs m) = grass_mem m"
    "r \<noteq> 0 \<Longrightarrow> aspace content (fill_at a k bs m) r n =
      (if (r, n) = (q, pg) then map_option (patch k bs) (aspace content m q pg) else aspace content m r n)"
proof -
  note C = at_content [OF L(1) a(1)]
  have "length (patch k bs (pages (paging m) a)) = PAGE_SIZE" using C(2) a(2) by (simp add: length_patch)
  note F = load_fill [OF L a(1) this]
  show "loadable ok q (fill_at a k bs m)" "good (fill_at a k bs m)" "page_at holds (fill_at a k bs m) q a pg"
    "nfree (fill_at a k bs m) = nfree m" "grass_mem (fill_at a k bs m) = grass_mem m"
    unfolding fill_at_def by (fact F)+
  show "aspace content (fill_at a k bs m) r n =
      (if (r, n) = (q, pg) then map_option (patch k bs) (aspace content m q pg) else aspace content m r n)" if "r \<noteq> 0"
    unfolding fill_at_def using F(6) [OF that] C(1) by simp
qed

lemma load_block:
  assumes L: "loadable ok q m" "good m" and a: "page_at holds m q a (0x8005 + off div 4096)" and off: "off mod 512 = 0" and n: "n < N"
    and F: "\<forall>i<off. user_byte content m q (APPS_ENTRY_ADDR + i) = Some (F i)" "\<forall>j<512. F (off + j) = img n ! j"
  shows "\<exists>m1 m2. reader n m = Some (img n, m1) \<and> m2 = fill_at a (off mod 4096) (img n) m1 \<and> loadable ok q m2 \<and> good m2
     \<and> page_at holds m2 q a (0x8005 + off div 4096) \<and> nfree m2 = nfree m \<and> grass_mem m2 = grass_mem m
     \<and> (\<forall>i<off + 512. user_byte content m2 q (APPS_ENTRY_ADDR + i) = Some (F i))
     \<and> (\<forall>r n. r \<noteq> 0 \<and> (r, n) \<noteq> (q, 0x8005 + off div 4096) \<longrightarrow> aspace content m2 r n = aspace content m r n)"
proof -
  let ?pg = "0x8005 + off div 4096"
  have q: "q \<noteq> 0" using L(1) by (simp add: loadable_def)
  obtain m1 where m1: "reader n m = Some (img n, m1)" "loadable ok q m1" "good m1" "nfree m1 = nfree m" "grass_mem m1 = grass_mem m"
    "page_at holds m1 q a ?pg" "aspace content m1 = aspace content m" using load_reader [OF L n] a by metis
  have len: "length (img n) = 512" by (rule img_length [OF L(2) n])
  have k: "off mod 4096 + length (img n) \<le> PAGE_SIZE" using npages_block(4) [OF off] len by simp
  let ?m2 = "fill_at a (off mod 4096) (img n) m1"
  note M = load_fill_at [OF m1(2,3,6) k]
  obtain c where c: "aspace content m q ?pg = Some c" "length c = PAGE_SIZE"
    using at_content [OF m1(2,6)] m1(7) by auto
  have "user_byte content ?m2 q (APPS_ENTRY_ADDR + i) = Some (F i)" if i: "i < off + 512" for i
  proof (cases "i div 4096 = off div 4096")
    case False
    then have "i < off" using same_page(1) [OF off _ i] by (meson not_less)
    with False F(1) q M(6) [of q] m1(7) show ?thesis by (simp add: user_byte_app)
  next
    case True
    have e: "user_byte content ?m2 q (APPS_ENTRY_ADDR + i) = Some (patch (off mod 4096) (img n) c ! (i mod 4096))"
      using M(6) [OF q] m1(7) c(1) True by (simp add: user_byte_app)
    show ?thesis
    proof (cases "i < off")
      case True
      with \<open>i div 4096 = off div 4096\<close> have "i mod 4096 < off mod 4096" by (rule before_in_page [rotated])
      moreover have "user_byte content m q (APPS_ENTRY_ADDR + i) = Some (c ! (i mod 4096))"
        using c(1) \<open>i div 4096 = off div 4096\<close> by (simp add: user_byte_app)
      ultimately show ?thesis using e F(1) True k c(2) by (simp add: nth_patch)
    next
      case False
      then obtain j where j: "i = off + j" "j < 512" using i by (metis less_diff_conv2 add.commute le_add_diff_inverse not_less)
      have d: "i mod 4096 = off mod 4096 + j" using same_page(2) [OF off _ i] j(1) by simp
      have "patch (off mod 4096) (img n) c ! (off mod 4096 + j) = img n ! j"
        using nth_patch [of "off mod 4096" "img n" c "off mod 4096 + j"] k len c(2) j(2) npages_block(4) [OF off] by simp
      then show ?thesis using e F(2) j unfolding d by simp
    qed
  qed
  then show ?thesis using m1 M by (intro exI [of _ m1] exI [of _ ?m2]) auto
qed

text \<open>The page for block \<open>off\<close> of the file: a new one at the start of a page, else the one before.\<close>

lemma load_page:
  assumes L: "loadable ok q m" "good m" and off: "off mod 512 = 0" "off < filesz" and filesz: "filesz \<le> APPS_SIZE"
    and cs: "cs = 0x8005 + npages off" "off \<noteq> 0 \<Longrightarrow> page_at holds m q base (cs - 1)"
    and fresh: "\<forall>n. cs \<le> n \<and> n < 0x8008 \<longrightarrow> aspace content m q n = None" and nf: "npages filesz \<le> nfree m + npages off"
  shows "\<exists>base' m'. (if off mod PAGE_SIZE = 0 then do { (base, m) \<leftarrow> new_page s q cs m; Some (cs + 1, base, m) } else Some (cs, base, m))
       = Some (0x8005 + npages (off + 512), base', m') \<and> loadable ok q m' \<and> good m' \<and> page_at holds m' q base' (0x8005 + off div 4096)
     \<and> nfree m' + npages (off + 512) = nfree m + npages off \<and> grass_mem m' = grass_mem m
     \<and> (\<forall>r n. r \<noteq> 0 \<and> (off mod 4096 \<noteq> 0 \<or> (r, n) \<noteq> (q, 0x8005 + off div 4096)) \<longrightarrow> aspace content m' r n = aspace content m r n)"
proof (cases "off mod PAGE_SIZE = 0")
  case True
  note P = npages_block [OF off(1)]
  have c: "cs = 0x8005 + off div 4096" using cs(1) P(2) True by simp
  have "off div 4096 < 3"
    using div_le_mono [of off "APPS_SIZE - 1" 4096] off(2) filesz by simp
  then have "aspace content m q cs = None" using fresh c by simp
  moreover have "nfree m \<noteq> 0" using nf npages_less [OF off] P(2) True by simp
  ultimately obtain a m' where "new_page s q cs m = Some (a, m')" "loadable ok q m'" "good m'" "page_at holds m' q a cs"
    "Suc (nfree m') = nfree m" "grass_mem m' = grass_mem m"
    "\<forall>r n. r \<noteq> 0 \<and> (r, n) \<noteq> (q, cs) \<longrightarrow> aspace content m' r n = aspace content m r n"
    using load_new_page [OF L] by blast
  with True P(1,2) c show ?thesis by (intro exI [of _ a] exI [of _ m']) auto
next
  case False
  note P = npages_block [OF off(1)]
  have "off \<noteq> 0" using False by auto
  with cs P(1,3) False L show ?thesis by (intro exI [of _ base] exI [of _ m]) auto
qed

lemma load_blocks_ok:
  assumes "loadable ok q m" "good m" "off mod 512 = 0" "off < filesz + 512" "filesz \<le> APPS_SIZE"
    and "\<forall>i<filesz. b0 + i div 512 < N" "\<forall>i. F i = img (b0 + i div 512) ! (i mod 512)"
    and "cs = 0x8005 + npages off" "off \<noteq> 0 \<Longrightarrow> page_at holds m q base (cs - 1)"
    and "\<forall>n. cs \<le> n \<and> n < 0x8008 \<longrightarrow> aspace content m q n = None" "npages filesz \<le> nfree m + npages off"
    and "\<forall>i<off. user_byte content m q (APPS_ENTRY_ADDR + i) = Some (F i)"
  shows "\<exists>base' m'. load_app_blocks s q reader filesz off (b0 + off div 512) cs base m = Some (0x8005 + npages filesz, base', m')
     \<and> loadable ok q m' \<and> good m' \<and> (filesz \<noteq> 0 \<longrightarrow> page_at holds m' q base' (0x8005 + npages filesz - 1))
     \<and> nfree m' + npages filesz = nfree m + npages off \<and> grass_mem m' = grass_mem m
     \<and> (\<forall>i<filesz. user_byte content m' q (APPS_ENTRY_ADDR + i) = Some (F i))
     \<and> (\<forall>r n. r \<noteq> 0 \<and> (r \<noteq> q \<or> n < 0x8005 \<or> 0x8005 + npages filesz \<le> n) \<longrightarrow> aspace content m' r n = aspace content m r n)"
  using assms
proof (induction "filesz + 512 - off" arbitrary: off cs base m rule: less_induct)
  case less
  note A = less.prems
  show ?case
  proof (cases "off < filesz")
    case False
    then have "npages off = npages filesz" using npages_end A(3,4) by simp
    with False A show ?thesis by (intro exI [of _ base] exI [of _ m]) (auto simp: load_app_blocks.simps)
  next
    case True
    let ?pg = "0x8005 + off div 4096"
    obtain b1 m1 where m1: "(if off mod PAGE_SIZE = 0 then do { (base, m) \<leftarrow> new_page s q cs m; Some (cs + 1, base, m) } else Some (cs, base, m))
        = Some (0x8005 + npages (off + 512), b1, m1)" "loadable ok q m1" "good m1" "page_at holds m1 q b1 ?pg"
      "nfree m1 + npages (off + 512) = nfree m + npages off" "grass_mem m1 = grass_mem m"
      "\<forall>r n. r \<noteq> 0 \<and> (off mod 4096 \<noteq> 0 \<or> (r, n) \<noteq> (q, ?pg)) \<longrightarrow> aspace content m1 r n = aspace content m r n"
      using load_page [OF A(1-3) True A(5,8,9,10,11)] by blast
    have q: "q \<noteq> 0" using A(1) by (simp add: loadable_def)
    have old: "\<forall>i<off. user_byte content m1 q (APPS_ENTRY_ADDR + i) = Some (F i)"
    proof (intro allI impI)
      fix i assume i: "i < off"
      have "off mod 4096 \<noteq> 0 \<or> i div 4096 \<noteq> off div 4096" using before_in_page [OF i] by auto
      then show "user_byte content m1 q (APPS_ENTRY_ADDR + i) = Some (F i)"
        using m1(7) q A(12) i by (simp add: user_byte_app)
    qed
    have n: "b0 + off div 512 < N" using A(6) True by simp
    have Fj: "\<forall>j<512. F (off + j) = img (b0 + off div 512) ! j"
    proof (intro allI impI)
      fix j :: nat assume "j < 512"
      then have "(off + j) div 512 = off div 512" "(off + j) mod 512 = j" using A(3) by (auto simp: mod_eq_0_iff_dvd)
      then show "F (off + j) = img (b0 + off div 512) ! j" using A(7) by simp
    qed
    obtain m2 m3 where m3: "reader (b0 + off div 512) m1 = Some (img (b0 + off div 512), m2)"
      "m3 = fill_at b1 (off mod 4096) (img (b0 + off div 512)) m2" "loadable ok q m3" "good m3" "page_at holds m3 q b1 ?pg"
      "nfree m3 = nfree m1" "grass_mem m3 = grass_mem m1"
      "\<forall>i<off + 512. user_byte content m3 q (APPS_ENTRY_ADDR + i) = Some (F i)"
      "\<forall>r n. r \<noteq> 0 \<and> (r, n) \<noteq> (q, ?pg) \<longrightarrow> aspace content m3 r n = aspace content m1 r n"
      using load_block [OF m1(2-4) A(3) n old Fj] by blast
    have P: "npages (off + 512) = off div 4096 + 1" by (rule npages_block(1) [OF A(3)])
    have fresh: "\<forall>n. 0x8005 + npages (off + 512) \<le> n \<and> n < 0x8008 \<longrightarrow> aspace content m3 q n = None"
      using m3(9) m1(7) q A(8,10) npages_mono [of off "off + 512"] P by auto
    have eq: "load_app_blocks s q reader filesz off (b0 + off div 512) cs base m =
        load_app_blocks s q reader filesz (off + 512) (b0 + (off + 512) div 512) (0x8005 + npages (off + 512)) b1 m3"
      using m1(1) m3(1,2) True div_add_self2 [of 512 off] by (subst load_app_blocks.simps) simp
    have "\<exists>base' m'. load_app_blocks s q reader filesz (off + 512) (b0 + (off + 512) div 512) (0x8005 + npages (off + 512)) b1 m3
         = Some (0x8005 + npages filesz, base', m')
     \<and> loadable ok q m' \<and> good m' \<and> (filesz \<noteq> 0 \<longrightarrow> page_at holds m' q base' (0x8005 + npages filesz - 1))
     \<and> nfree m' + npages filesz = nfree m3 + npages (off + 512) \<and> grass_mem m' = grass_mem m3
     \<and> (\<forall>i<filesz. user_byte content m' q (APPS_ENTRY_ADDR + i) = Some (F i))
     \<and> (\<forall>r n. r \<noteq> 0 \<and> (r \<noteq> q \<or> n < 0x8005 \<or> 0x8005 + npages filesz \<le> n) \<longrightarrow> aspace content m' r n = aspace content m3 r n)"
      using True A(3,5,6,7,11) m3(3,4,5,6,8) m1(5) fresh P by (intro less.hyps) auto
    moreover have "aspace content m3 r n = aspace content m r n" if "r \<noteq> 0" "r \<noteq> q \<or> n < 0x8005 \<or> 0x8005 + npages filesz \<le> n" for r n
      using m3(9) m1(7) that npages_less [OF A(3) True] by auto
    ultimately show ?thesis unfolding eq using m1(5,6) m3(6,7) by auto
  qed
qed

lemma load_zero_ok:
  assumes "loadable ok q m" "good m" "cs \<le> 0x8008" "\<forall>n. cs \<le> n \<and> n < 0x8008 \<longrightarrow> aspace content m q n = None" "0x8008 - cs \<le> nfree m"
  shows "\<exists>m'. load_zero_pages s q cs m = Some m' \<and> loadable ok q m' \<and> good m' \<and> nfree m' + (0x8008 - cs) = nfree m \<and> grass_mem m' = grass_mem m
     \<and> (\<forall>n. cs \<le> n \<and> n < 0x8008 \<longrightarrow> aspace content m' q n = Some (replicate PAGE_SIZE 0))
     \<and> (\<forall>r n. r \<noteq> 0 \<and> (r \<noteq> q \<or> n < cs \<or> 0x8008 \<le> n) \<longrightarrow> aspace content m' r n = aspace content m r n)"
  using assms
proof (induction "0x8008 - cs" arbitrary: cs m)
  case 0
  then have "load_zero_pages s q cs m = Some m" by (subst load_zero_pages.simps) simp
  with 0 show ?case by auto
next
  case (Suc k)
  note A = Suc.prems
  have q: "q \<noteq> 0" using A(1) by (simp add: loadable_def)
  have c: "cs < 0x8008" using Suc.hyps(2) by simp
  obtain a m1 where m1: "new_page s q cs m = Some (a, m1)" "loadable ok q m1" "good m1" "page_at holds m1 q a cs" "Suc (nfree m1) = nfree m"
    "grass_mem m1 = grass_mem m" "\<forall>r n. r \<noteq> 0 \<and> (r, n) \<noteq> (q, cs) \<longrightarrow> aspace content m1 r n = aspace content m r n"
  proof -
    have "nfree m \<noteq> 0" "aspace content m q cs = None" using A(4,5) c by auto
    from load_new_page [OF A(1,2) this] show ?thesis using that by blast
  qed
  let ?m2 = "frame_fill a (replicate PAGE_SIZE 0) m1"
  have "length (replicate PAGE_SIZE (0 :: byte)) = PAGE_SIZE" by simp
  note M = load_fill [OF m1(2-4) this]
  have "\<exists>m'. load_zero_pages s q (cs + 1) ?m2 = Some m' \<and> loadable ok q m' \<and> good m' \<and> nfree m' + (0x8008 - (cs + 1)) = nfree ?m2 \<and> grass_mem m' = grass_mem ?m2
     \<and> (\<forall>n. cs + 1 \<le> n \<and> n < 0x8008 \<longrightarrow> aspace content m' q n = Some (replicate PAGE_SIZE 0))
     \<and> (\<forall>r n. r \<noteq> 0 \<and> (r \<noteq> q \<or> n < cs + 1 \<or> 0x8008 \<le> n) \<longrightarrow> aspace content m' r n = aspace content ?m2 r n)"
    using Suc.hyps(2) c A(4,5) m1(5,7) M q by (intro Suc.hyps(1)) auto
  then obtain m' where m': "load_zero_pages s q (cs + 1) ?m2 = Some m'" "loadable ok q m'" "good m'" "nfree m' + (0x8008 - (cs + 1)) = nfree ?m2"
    "grass_mem m' = grass_mem ?m2" "\<forall>n. cs + 1 \<le> n \<and> n < 0x8008 \<longrightarrow> aspace content m' q n = Some (replicate PAGE_SIZE 0)"
    "\<forall>r n. r \<noteq> 0 \<and> (r \<noteq> q \<or> n < cs + 1 \<or> 0x8008 \<le> n) \<longrightarrow> aspace content m' r n = aspace content ?m2 r n" by blast
  have "load_zero_pages s q cs m = Some m'" using m'(1) m1(1) c by (subst load_zero_pages.simps) simp
  moreover have "aspace content m' q n = Some (replicate PAGE_SIZE 0)" if "cs \<le> n" "n < 0x8008" for n
    using m'(6,7) M(6) [OF q] that q by (cases "n = cs") auto
  moreover have "aspace content m' r n = aspace content m r n" if "r \<noteq> 0" "r \<noteq> q \<or> n < cs \<or> 0x8008 \<le> n" for r n
    using m'(7) M(6) [OF that(1)] m1(7) that c by auto
  ultimately show ?case using m'(2-5) m1(5,6) M(4,5) c by auto
qed

text \<open>The rest of the last page of the file is cleared.\<close>

lemma load_tail_ok:
  assumes L: "loadable ok q m" "good m" and base: "filesz \<noteq> 0 \<longrightarrow> page_at holds m q base (0x8005 + npages filesz - 1)"
    and F: "\<forall>i<filesz. user_byte content m q (APPS_ENTRY_ADDR + i) = Some (F i)"
    and m': "m' = (if filesz mod PAGE_SIZE \<noteq> 0
       then fill_at base (filesz mod PAGE_SIZE) (replicate (PAGE_SIZE - filesz mod PAGE_SIZE) 0) m else m)"
  shows "loadable ok q m'" "good m'" "nfree m' = nfree m" "grass_mem m' = grass_mem m"
    "\<forall>i<PAGE_SIZE * npages filesz. user_byte content m' q (APPS_ENTRY_ADDR + i) = Some (if i < filesz then F i else 0)"
    "\<forall>r n. r \<noteq> 0 \<and> (r \<noteq> q \<or> n < 0x8005 \<or> 0x8005 + npages filesz \<le> n) \<longrightarrow> aspace content m' r n = aspace content m r n"
proof -
  let ?k = "filesz mod 4096" and ?z = "replicate (PAGE_SIZE - filesz mod PAGE_SIZE) (0 :: byte)"
  have q: "q \<noteq> 0" using L(1) by (simp add: loadable_def)
  have "loadable ok q m' \<and> good m' \<and> nfree m' = nfree m \<and> grass_mem m' = grass_mem m
     \<and> (\<forall>i<PAGE_SIZE * npages filesz. user_byte content m' q (APPS_ENTRY_ADDR + i) = Some (if i < filesz then F i else 0))
     \<and> (\<forall>r n. r \<noteq> 0 \<and> (r \<noteq> q \<or> n < 0x8005 \<or> 0x8005 + npages filesz \<le> n) \<longrightarrow> aspace content m' r n = aspace content m r n)"
  proof (cases "?k = 0")
    case True
    then have "PAGE_SIZE * npages filesz = filesz" by (auto simp: npages_def)
    with True L F m' show ?thesis by auto
  next
    case False
    then have np: "npages filesz = filesz div 4096 + 1" and fz: "filesz \<noteq> 0" using npages_partial [OF False] by auto
    have k: "?k + length ?z \<le> PAGE_SIZE" by simp
    have at: "page_at holds m q base (0x8005 + filesz div 4096)" using base fz np by simp
    note M = load_fill_at [OF L at k]
    have m'': "m' = fill_at base ?k ?z m" using m' False by simp
    obtain c where c: "aspace content m q (0x8005 + filesz div 4096) = Some c" "length c = PAGE_SIZE"
      using at_content [OF L(1) at] by simp
    have "user_byte content m' q (APPS_ENTRY_ADDR + i) = Some (if i < filesz then F i else 0)" if i: "i < PAGE_SIZE * npages filesz" for i
    proof (cases "i div 4096 = filesz div 4096")
      case True
      then have e: "user_byte content m' q (APPS_ENTRY_ADDR + i) = Some (patch ?k ?z c ! (i mod 4096))"
        using M(6) [OF q] c(1) by (simp add: user_byte_app m'')
      have n: "patch ?k ?z c ! (i mod 4096) = (if ?k \<le> i mod 4096 then 0 else c ! (i mod 4096))"
        using nth_patch [of ?k ?z c "i mod 4096"] k c(2) by simp
      have "user_byte content m q (APPS_ENTRY_ADDR + i) = Some (c ! (i mod 4096))" using c(1) True by (simp add: user_byte_app)
      moreover have "i < filesz \<longleftrightarrow> \<not> ?k \<le> i mod 4096"
        using True div_mult_mod_eq [of i 4096] div_mult_mod_eq [of filesz 4096] by linarith
      ultimately show ?thesis using e n F by auto
    next
      case False
      have "i div 4096 \<le> filesz div 4096" using i np less_mult_imp_div_less [of i "npages filesz" 4096] by (simp add: mult.commute)
      with False have lt: "i div 4096 < filesz div 4096" by simp
      then have "i < filesz" by (meson div_le_mono not_less)
      moreover have "user_byte content m' q (APPS_ENTRY_ADDR + i) = user_byte content m q (APPS_ENTRY_ADDR + i)"
        using M(6) [OF q] lt by (simp add: user_byte_app m'')
      ultimately show ?thesis using F by simp
    qed
    then show ?thesis using M np by (auto simp: m'')
  qed
  then show "loadable ok q m'" "good m'" "nfree m' = nfree m" "grass_mem m' = grass_mem m"
    "\<forall>i<PAGE_SIZE * npages filesz. user_byte content m' q (APPS_ENTRY_ADDR + i) = Some (if i < filesz then F i else 0)"
    "\<forall>r n. r \<noteq> 0 \<and> (r \<noteq> q \<or> n < 0x8005 \<or> 0x8005 + npages filesz \<le> n) \<longrightarrow> aspace content m' r n = aspace content m r n"
    by blast+
qed

text \<open>The two pages for arguments and stack.\<close>

lemma load_stack_ok:
  assumes L: "loadable ok q m" "good m" and f: "aspace content m q 0x80000 = None" "aspace content m q 0x80001 = None" "2 \<le> nfree m"
    and args: "\<forall>page. length page = PAGE_SIZE \<longrightarrow> (\<exists>p. load_args argc argv page = Some p \<and> args_page k a p)"
  shows "\<exists>m' page. do { (base, m) \<leftarrow> new_page s q 0x80000 m; page \<leftarrow> load_args argc argv (pages (paging m) base);
         let m = frame_fill base page m; (base, m) \<leftarrow> new_page s q 0x80001 m; Some m } = Some m'
     \<and> loadable ok q m' \<and> good m' \<and> nfree m' + 2 = nfree m \<and> grass_mem m' = grass_mem m
     \<and> aspace content m' q 0x80000 = Some page \<and> args_page k a page \<and> aspace content m' q 0x80001 \<noteq> None
     \<and> (\<forall>r n. r \<noteq> 0 \<and> (r \<noteq> q \<or> n \<noteq> 0x80000 \<and> n \<noteq> 0x80001) \<longrightarrow> aspace content m' r n = aspace content m r n)"
proof -
  have q: "q \<noteq> 0" using L(1) by (simp add: loadable_def)
  have "nfree m \<noteq> 0" using f(3) by simp
  from load_new_page [OF L this f(1)] obtain b m1 where m1: "new_page s q 0x80000 m = Some (b, m1)" "loadable ok q m1" "good m1"
    "page_at holds m1 q b 0x80000" "Suc (nfree m1) = nfree m" "grass_mem m1 = grass_mem m"
    "\<forall>r n. r \<noteq> 0 \<and> (r, n) \<noteq> (q, 0x80000) \<longrightarrow> aspace content m1 r n = aspace content m r n" by blast
  obtain page where page: "load_args argc argv (pages (paging m1) b) = Some page" "args_page k a page"
    using args at_content(2) [OF m1(2,4)] by blast
  have len: "length page = PAGE_SIZE" using page(2) by (simp add: args_page_def)
  let ?m2 = "frame_fill b page m1"
  note M = load_fill [OF m1(2-4) len]
  have "nfree ?m2 \<noteq> 0" "aspace content ?m2 q 0x80001 = None" using f(2,3) m1(5,7) M(4) M(6) [OF q] q by auto
  from load_new_page [OF M(1,2) this] obtain b' m3 where m3: "new_page s q 0x80001 ?m2 = Some (b', m3)" "loadable ok q m3" "good m3"
    "page_at holds m3 q b' 0x80001" "Suc (nfree m3) = nfree ?m2" "grass_mem m3 = grass_mem ?m2"
    "\<forall>r n. r \<noteq> 0 \<and> (r, n) \<noteq> (q, 0x80001) \<longrightarrow> aspace content m3 r n = aspace content ?m2 r n" by blast
  have "aspace content m3 q 0x80000 = Some page" using m3(7) M(6) [OF q, of "0x80000"] q by simp
  moreover have "aspace content m3 q 0x80001 \<noteq> None" using at_content(1) [OF m3(2,4)] by simp
  moreover have "aspace content m3 r n = aspace content m r n" if "r \<noteq> 0" "r \<noteq> q \<or> n \<noteq> 0x80000 \<and> n \<noteq> 0x80001" for r n
    using m3(7) M(6) [OF that(1), of n] m1(7) that by auto
  ultimately show ?thesis
    using m1(1,5,6) page m3(1-3,5,6) M(4,5) by (intro exI [of _ m3] exI [of _ page]) simp
qed

lemma load_app_ok:
  assumes L: "loadable ok q m" "good m" and sz: "p_filesz h \<le> APPS_SIZE" "\<forall>i<p_filesz h. p_offset h div 512 + i div 512 < N"
    and fresh: "\<forall>n. aspace content m q n = None" "5 \<le> nfree m"
    and args: "\<forall>page. length page = PAGE_SIZE \<longrightarrow> (\<exists>p. load_args argc argv page = Some p \<and> args_page k a p)"
    and F: "\<forall>i. F i = img (p_offset h div 512 + i div 512) ! (i mod 512)"
  shows "\<exists>m' page. load_app s q reader argc argv h m = Some m' \<and> loadable ok q m' \<and> good m' \<and> nfree m' + 5 = nfree m
     \<and> grass_mem m' = grass_mem m
     \<and> (\<forall>i<APPS_SIZE. user_byte content m' q (APPS_ENTRY_ADDR + i) = Some (if i < p_filesz h then F i else 0))
     \<and> aspace content m' q 0x80000 = Some page \<and> args_page k a page \<and> aspace content m' q 0x80001 \<noteq> None
     \<and> (\<forall>n. (n < 0x8005 \<or> 0x8008 \<le> n) \<and> n \<noteq> 0x80000 \<and> n \<noteq> 0x80001 \<longrightarrow> aspace content m' q n = None)
     \<and> (\<forall>r n. r \<noteq> 0 \<and> r \<noteq> q \<longrightarrow> aspace content m' r n = aspace content m r n)"
proof -
  let ?sz = "p_filesz h" and ?b0 = "p_offset h div 512"
  let ?np = "npages (p_filesz h)"
  have q: "q \<noteq> 0" using L(1) by (simp add: loadable_def)
  have np: "?np \<le> 3" using npages_mono [OF sz(1)] by (simp add: npages_def)
  have np0: "npages 0 = 0" by (simp add: npages_def)
  have "\<exists>base m1. load_app_blocks s q reader ?sz 0 (?b0 + 0 div 512) 0x8005 0 m = Some (0x8005 + ?np, base, m1)
     \<and> loadable ok q m1 \<and> good m1 \<and> (?sz \<noteq> 0 \<longrightarrow> page_at holds m1 q base (0x8005 + ?np - 1))
     \<and> nfree m1 + ?np = nfree m + npages 0 \<and> grass_mem m1 = grass_mem m
     \<and> (\<forall>i<?sz. user_byte content m1 q (APPS_ENTRY_ADDR + i) = Some (F i))
     \<and> (\<forall>r n. r \<noteq> 0 \<and> (r \<noteq> q \<or> n < 0x8005 \<or> 0x8005 + ?np \<le> n) \<longrightarrow> aspace content m1 r n = aspace content m r n)"
    using L sz F fresh np np0 by (intro load_blocks_ok) simp_all
  then obtain base m1 where m1: "load_app_blocks s q reader ?sz 0 ?b0 0x8005 0 m = Some (0x8005 + ?np, base, m1)"
    "loadable ok q m1" "good m1" "?sz \<noteq> 0 \<longrightarrow> page_at holds m1 q base (0x8005 + ?np - 1)"
    "nfree m1 + ?np = nfree m" "grass_mem m1 = grass_mem m" "\<forall>i<?sz. user_byte content m1 q (APPS_ENTRY_ADDR + i) = Some (F i)"
    "\<forall>r n. r \<noteq> 0 \<and> (r \<noteq> q \<or> n < 0x8005 \<or> 0x8005 + ?np \<le> n) \<longrightarrow> aspace content m1 r n = aspace content m r n"
    using np0 by auto
  define m2 where "m2 = (if ?sz mod PAGE_SIZE \<noteq> 0
       then fill_at base (?sz mod PAGE_SIZE) (replicate (PAGE_SIZE - ?sz mod PAGE_SIZE) 0) m1 else m1)"
  note T = load_tail_ok [OF m1(2-4,7) m2_def]
  have "\<forall>n. 0x8005 + ?np \<le> n \<and> n < 0x8008 \<longrightarrow> aspace content m2 q n = None" "0x8008 - (0x8005 + ?np) \<le> nfree m2" "0x8005 + ?np \<le> 0x8008"
    using T(3,6) m1(5,8) fresh q np by auto
  from load_zero_ok [OF T(1,2) this(3,1,2)] obtain m3 where m3: "load_zero_pages s q (0x8005 + ?np) m2 = Some m3" "loadable ok q m3" "good m3"
    "nfree m3 + (0x8008 - (0x8005 + ?np)) = nfree m2" "grass_mem m3 = grass_mem m2"
    "\<forall>n. 0x8005 + ?np \<le> n \<and> n < 0x8008 \<longrightarrow> aspace content m3 q n = Some (replicate PAGE_SIZE 0)"
    "\<forall>r n. r \<noteq> 0 \<and> (r \<noteq> q \<or> n < 0x8005 + ?np \<or> 0x8008 \<le> n) \<longrightarrow> aspace content m3 r n = aspace content m2 r n" by blast
  have o: "aspace content m3 r n = aspace content m r n" if "r \<noteq> 0" "r \<noteq> q \<or> n < 0x8005 \<or> 0x8008 \<le> n" for r n
    using m3(7) T(6) m1(8) that np by auto
  have n3: "nfree m3 + 3 = nfree m" using m3(4) T(3) m1(5) np by simp
  then have "aspace content m3 q 0x80000 = None" "aspace content m3 q 0x80001 = None" "2 \<le> nfree m3" using o [OF q] fresh by auto
  from load_stack_ok [OF m3(2,3) this args] obtain m4 page where m4: "do { (base, m) \<leftarrow> new_page s q 0x80000 m3; page \<leftarrow> load_args argc argv (pages (paging m) base);
         let m = frame_fill base page m; (base, m) \<leftarrow> new_page s q 0x80001 m; Some m } = Some m4" "loadable ok q m4" "good m4"
    "nfree m4 + 2 = nfree m3" "grass_mem m4 = grass_mem m3" "aspace content m4 q 0x80000 = Some page" "args_page k a page"
    "aspace content m4 q 0x80001 \<noteq> None"
    "\<forall>r n. r \<noteq> 0 \<and> (r \<noteq> q \<or> n \<noteq> 0x80000 \<and> n \<noteq> 0x80001) \<longrightarrow> aspace content m4 r n = aspace content m3 r n"
    by (elim exE conjE)
  have "load_app s q reader argc argv h m = Some m4"
    using m1(1) m3(1) m4(1) m2_def by (simp add: load_app_def Let_def cong: if_cong)
  moreover have "user_byte content m4 q (APPS_ENTRY_ADDR + i) = Some (if i < ?sz then F i else 0)" if i: "i < APPS_SIZE" for i
  proof -
    have d: "i div 4096 < 3" using i by (simp add: less_mult_imp_div_less)
    then have e4: "user_byte content m4 q (APPS_ENTRY_ADDR + i) = user_byte content m3 q (APPS_ENTRY_ADDR + i)"
      using m4(9) q by (simp add: user_byte_app)
    show ?thesis
    proof (cases "i div 4096 < ?np")
      case True
      then have "user_byte content m3 q (APPS_ENTRY_ADDR + i) = user_byte content m2 q (APPS_ENTRY_ADDR + i)"
        using m3(7) q by (simp add: user_byte_app)
      moreover have "i < 4096 * ?np" using True by (simp add: div_less_iff_less_mult mult.commute)
      ultimately show ?thesis using e4 T(5) by simp
    next
      case False
      then have "4096 * ?np \<le> i" by (simp add: div_less_iff_less_mult mult.commute not_less)
      moreover have "?sz \<le> 4096 * ?np"
        using npages_partial [of ?sz] div_mult_mod_eq [of ?sz 4096] by (cases "?sz mod 4096 = 0") (auto simp: npages_def)
      ultimately have "\<not> i < ?sz" by simp
      moreover have "user_byte content m3 q (APPS_ENTRY_ADDR + i) = Some 0"
        using m3(6) False d by (simp add: user_byte_app)
      ultimately show ?thesis using e4 by simp
    qed
  qed
  ultimately show ?thesis using m4 m3(5) T(4) m1(6) n3 o fresh q by (intro exI [of _ m4] exI [of _ page]) auto
qed

lemma load_grass_blocks_ok:
  assumes "loadable ok q m" "good m" "off mod 512 = 0" "off < filesz + 512" "filesz \<le> GRASS_SIZE" "length (grass_mem m) = GRASS_SIZE"
    and "\<forall>i<filesz. b0 + i div 512 < N" "\<forall>i. F i = img (b0 + i div 512) ! (i mod 512)" "\<forall>i<off. grass_mem m ! i = F i"
  shows "\<exists>m'. load_grass_blocks reader filesz off (b0 + off div 512) m = Some m' \<and> loadable ok q m' \<and> good m' \<and> nfree m' = nfree m
     \<and> length (grass_mem m') = GRASS_SIZE \<and> (\<forall>i<filesz. grass_mem m' ! i = F i) \<and> aspace content m' = aspace content m"
  using assms
proof (induction "filesz + 512 - off" arbitrary: off m rule: less_induct)
  case less
  note A = less.prems
  show ?case
  proof (cases "off < filesz")
    case False
    with A show ?thesis by (intro exI [of _ m]) (auto simp: load_grass_blocks.simps)
  next
    case True
    let ?b = "img (b0 + off div 512)"
    have n: "b0 + off div 512 < N" using A(7) True by simp
    obtain m1 where m1: "reader (b0 + off div 512) m = Some (?b, m1)" "loadable ok q m1" "good m1" "nfree m1 = nfree m" "grass_mem m1 = grass_mem m"
      "aspace content m1 = aspace content m" using load_reader [OF A(1,2) n] by blast
    have l: "length ?b = 512" by (rule img_length [OF A(2) n])
    obtain j where j: "off = 512 * j" using A(3) by (auto simp: mod_eq_0_iff_dvd)
    have "j < 20" using j True A(5) by linarith
    then have fit: "off + length ?b \<le> length (grass_mem m1)" using l A(6) j m1(5) by simp
    let ?m2 = "m1\<lparr>grass_mem := patch off ?b (grass_mem m1)\<rparr>"
    have m2: "loadable ok q ?m2" "nfree ?m2 = nfree m" "aspace content ?m2 = aspace content m" "length (grass_mem ?m2) = GRASS_SIZE"
      using m1(2,4,6) length_patch [OF fit] A(6) m1(5)
      by (auto simp: loadable_def mmu_inv_def nfree_def aspace_def frame_of_def fun_eq_iff cong: if_cong)
    have g2: "good ?m2" by (rule good_cong [OF m1(3)]) simp
    have "grass_mem ?m2 ! i = F i" if "i < off + 512" for i
    proof (cases "i < off")
      case True
      then show ?thesis using nth_patch [OF fit, of i] A(9) m1(5) fit by simp
    next
      case False
      have d: "i div 512 = j" using False that j by (intro div_nat_eqI) simp_all
      then have "i div 512 = off div 512" "i mod 512 = i - off" using j by (simp_all add: modulo_nat_def)
      then show ?thesis using nth_patch [OF fit, of i] A(8) False that l fit by simp
    qed
    moreover have "load_grass_blocks reader filesz off (b0 + off div 512) m = load_grass_blocks reader filesz (off + 512) (b0 + (off + 512) div 512) ?m2"
      using m1(1) True div_add_self2 [of 512 off] by (subst load_grass_blocks.simps) simp
    moreover have "off + 512 < filesz + 512" "(off + 512) mod 512 = 0" "filesz + 512 - (off + 512) < filesz + 512 - off" using True A(3) by simp_all
    ultimately show ?thesis
      using less.hyps [of "off + 512" ?m2] m2 g2 A(5,7,8) by (simp only:) simp
  qed
qed

lemma load_grass_ok:
  assumes L: "loadable ok q m" "good m" and sz: "p_filesz h \<le> GRASS_SIZE" "length (grass_mem m) = GRASS_SIZE"
    and N: "\<forall>i<p_filesz h. p_offset h div 512 + i div 512 < N" and F: "\<forall>i. F i = img (p_offset h div 512 + i div 512) ! (i mod 512)"
  shows "\<exists>m'. load_grass reader h m = Some m' \<and> loadable ok q m' \<and> good m' \<and> nfree m' = nfree m \<and> length (grass_mem m') = GRASS_SIZE
     \<and> (\<forall>i<GRASS_SIZE. grass_mem m' ! i = (if i < p_filesz h then F i else 0)) \<and> aspace content m' = aspace content m"
proof -
  let ?sz = "p_filesz h" and ?b0 = "p_offset h div 512"
  have "\<exists>m'. load_grass_blocks reader ?sz 0 (?b0 + 0 div 512) m = Some m' \<and> loadable ok q m' \<and> good m' \<and> nfree m' = nfree m
     \<and> length (grass_mem m') = GRASS_SIZE \<and> (\<forall>i<?sz. grass_mem m' ! i = F i) \<and> aspace content m' = aspace content m"
    using assms by (intro load_grass_blocks_ok) simp_all
  then obtain m1 where m1: "load_grass_blocks reader ?sz 0 ?b0 m = Some m1" "loadable ok q m1" "good m1" "nfree m1 = nfree m"
    "length (grass_mem m1) = GRASS_SIZE" "\<forall>i<?sz. grass_mem m1 ! i = F i" "aspace content m1 = aspace content m" by auto
  let ?g = "patch ?sz (replicate (GRASS_SIZE - ?sz) 0) (grass_mem m1)"
  let ?m = "m1\<lparr>grass_mem := ?g\<rparr>"
  have fit: "?sz + length (replicate (GRASS_SIZE - ?sz) (0 :: byte)) \<le> length (grass_mem m1)" using sz m1(5) by simp
  have "loadable ok q ?m" "nfree ?m = nfree m" "aspace content ?m = aspace content m"
    using m1(2,4,7) by (auto simp: loadable_def mmu_inv_def nfree_def aspace_def frame_of_def fun_eq_iff cong: if_cong)
  moreover have "good ?m" by (rule good_cong [OF m1(3)]) simp
  moreover have "?g ! i = (if i < ?sz then F i else 0)" if "i < GRASS_SIZE" for i
    using nth_patch [OF fit, of i] that m1(5,6) sz by auto
  moreover have "load_grass reader h m = Some ?m" using m1(1) sz by (simp add: load_grass_def)
  ultimately show ?thesis using length_patch [OF fit] m1(5) by (intro exI [of _ ?m]) auto
qed

lemma elf_loop_skip:
  "\<forall>i\<in>set is. \<exists>h. pheader buf i = Some h \<and> p_memsz h = 0 \<Longrightarrow> elf_load_loop s q reader argc argv buf is m = Some m"
  by (induction "is") auto

lemma elf_loop_append:
  "elf_load_loop s q reader argc argv buf (is @ js) m =
    do { m \<leftarrow> elf_load_loop s q reader argc argv buf is m; elf_load_loop s q reader argc argv buf js m }"
  by (induction "is" arbitrary: m) (simp_all add: bind_assoc split: bind_split)

text \<open>An executable with one program header that is not empty.\<close>

lemma elf_load_one:
  assumes m1: "loadable ok q m" "good m" "0 < N"
    and k: "k < e_phnum (img 0)" "pheader (img 0) k = Some h" "p_memsz h \<noteq> 0"
    and rest: "\<forall>i<e_phnum (img 0). i \<noteq> k \<longrightarrow> (\<exists>g. pheader (img 0) i = Some g \<and> p_memsz g = 0)"
  shows "\<exists>m1. loadable ok q m1 \<and> good m1 \<and> nfree m1 = nfree m \<and> grass_mem m1 = grass_mem m \<and> aspace content m1 = aspace content m
     \<and> elf_load s pid reader argc argv m =
       (if p_vaddr h = GRASS_ENTRY then load_grass reader h m1
        else if p_vaddr h = APPS_ENTRY_ADDR then load_app s pid reader argc argv h m1 else None)"
proof -
  obtain m1 where m1: "reader 0 m = Some (img 0, m1)" "loadable ok q m1" "good m1" "nfree m1 = nfree m" "grass_mem m1 = grass_mem m"
    "aspace content m1 = aspace content m" using load_reader [OF assms(1-3)] by blast
  have r: "[0..<e_phnum (img 0)] = [0..<k] @ k # [Suc k..<e_phnum (img 0)]"
    using k(1) upt_add_eq_append [of 0 k "e_phnum (img 0) - k"] by (simp add: upt_conv_Cons)
  have "\<forall>i\<in>set [0..<k]. \<exists>h. pheader (img 0) i = Some h \<and> p_memsz h = 0"
    "\<forall>i\<in>set [Suc k..<e_phnum (img 0)]. \<exists>h. pheader (img 0) i = Some h \<and> p_memsz h = 0" using rest k(1) by auto
  note skip = this [THEN elf_loop_skip]
  have "elf_load s pid reader argc argv m = (if p_vaddr h = GRASS_ENTRY then load_grass reader h m1
        else if p_vaddr h = APPS_ENTRY_ADDR then load_app s pid reader argc argv h m1 else None)"
    unfolding elf_load_def m1(1) by (simp add: r elf_loop_append skip k(2,3) del: upt_Suc split: bind_split)
  with m1 show ?thesis by blast
qed

end

subsection \<open>Executables on the disk\<close>

text \<open>Block \<open>b\<close> of the disk, as part of the frame it is in.\<close>

definition disk_block :: "('c pager \<Rightarrow> nat \<Rightarrow> byte list) \<Rightarrow> 'c pager \<Rightarrow> nat \<Rightarrow> byte list" where
  "disk_block cont p b = take BLOCK_SIZE (drop (BLOCK_SIZE * (b mod 8)) (cont p (b div 8)))"

definition exec_good :: "('c pager \<Rightarrow> nat \<Rightarrow> byte list) \<Rightarrow> nat \<Rightarrow> (nat \<Rightarrow> byte list) \<Rightarrow> nat \<Rightarrow> 'c mmu \<Rightarrow> bool" where
  "exec_good cont start img N m \<longleftrightarrow> GRASS_EXEC_START \<le> start \<and> start + N \<le> 8192
     \<and> (\<forall>n<N. disk_block cont (paging m) (start + n) = img n \<and> length (img n) = BLOCK_SIZE)"

lemma exec_good_cong:
  assumes "exec_good cont start img N m" "\<forall>g\<ge>NFRAMES. cont (paging m') g = cont (paging m) g"
  shows "exec_good cont start img N m'"
proof -
  have "NFRAMES \<le> (start + n) div 8" for n using assms(1) div_le_mono [of 2048 "start + n" 8] by (simp add: exec_good_def)
  then have "disk_block cont (paging m') (start + n) = disk_block cont (paging m) (start + n)" for n
    using assms(2) by (simp add: disk_block_def)
  with assms(1) show ?thesis unfolding exec_good_def by simp
qed

lemma take_drop_concat:
  "\<forall>x\<in>set xs. length x = k \<Longrightarrow> j < length xs \<Longrightarrow> take k (drop (k * j) (concat xs)) = xs ! j"
proof (induction xs arbitrary: j)
  case (Cons x xs)
  then show ?case by (cases j) (simp_all add: add.commute [of k])
qed simp

lemma exec_good_length: "exec_good cont start img N m \<Longrightarrow> n < N \<Longrightarrow> length (img n) = BLOCK_SIZE"
  by (simp add: exec_good_def)

lemma segment_blocks:
  assumes "off + fsz \<le> BLOCK_SIZE * GRASS_EXEC_SEGMENT"
  shows "\<forall>i<fsz. off div 512 + i div 512 < 256"
proof (intro allI impI)
  fix i assume "i < fsz"
  then have "off div 512 * 512 + i div 512 * 512 < 512 * 256"
    using assms div_times_less_eq_dividend [of off 512] div_times_less_eq_dividend [of i 512] by linarith
  then show "off div 512 + i div 512 < 256" by simp
qed

lemma exec_frame: "exec_good cont start img N m \<Longrightarrow> NFRAMES \<le> (start + n) div 8"
  using div_le_mono [of 2048 "start + n" 8] by (simp add: exec_good_def)

lemma qemu_disk_block:
  assumes "NFRAMES \<le> b div 8"
  shows "disk_block qemu_content p b = map (\<lambda>i. dd_rom (pg_disk p) (int b * int BLOCK_SIZE + int i)) [0..<BLOCK_SIZE]"
proof (rule nth_equalityI)
  have b: "512 * (b mod 8) + 512 \<le> 4096" by (simp add: less_Suc_eq_le [symmetric])
  then show "length (disk_block qemu_content p b) = length (map (\<lambda>i. dd_rom (pg_disk p) (int b * int BLOCK_SIZE + int i)) [0..<BLOCK_SIZE])"
    using assms by (simp add: disk_block_def qemu_content_def)
  fix i assume "i < length (disk_block qemu_content p b)"
  then have i: "i < 512" by (simp add: disk_block_def)
  have "4096 * (b div 8) + (512 * (b mod 8) + i) = b * 512 + i" using div_mult_mod_eq [of b 8] by linarith
  then have "4096 * int (b div 8) + (512 * int (b mod 8) + int i) = int b * 512 + int i" by linarith
  from arg_cong [OF this, of "dd_rom (pg_disk p)"] i b assms show "disk_block qemu_content p b ! i = map (\<lambda>i. dd_rom (pg_disk p) (int b * int BLOCK_SIZE + int i)) [0..<BLOCK_SIZE] ! i"
    by (simp add: disk_block_def qemu_content_def)
qed

interpretation qemu_exec: exec_file s qemu_content "\<lambda>_ i f. i = f" qemu_ok "sys_proc_read s start" img N "exec_good qemu_content start img N"
  for s :: "'c spi" and start img N
proof unfold_locales
  fix m :: "'c mmu" and n
  assume ok: "qemu_ok (paging m)" and g: "exec_good qemu_content start img N m" and n: "n < N"
  have "img n = map (\<lambda>i. dd_rom (pg_disk (paging m)) (int (start + n) * int BLOCK_SIZE + int i)) [0..<BLOCK_SIZE]"
    unfolding qemu_disk_block [OF exec_frame [OF g], symmetric] using g n by (simp add: exec_good_def)
  moreover have "dd_type (pg_disk (paging m)) \<noteq> SD_CARD" using ok by (simp add: qemu_ok_def)
  ultimately have "sys_proc_read s start n m = Some (img n, m\<lparr>paging := paging m\<rparr>)"
    by (simp add: sys_proc_read_def disk_read_def del: upt_Suc)
  then show "\<exists>p. sys_proc_read s start n m = Some (img n, m\<lparr>paging := p\<rparr>) \<and> qemu_ok p \<and> exec_good qemu_content start img N (m\<lparr>paging := p\<rparr>)
      \<and> qemu_content p = qemu_content (paging m) \<and> (\<lambda>i f. i = f) = (\<lambda>i f. i = f)"
    using ok g by (intro exI [of _ "paging m"]) simp
qed (erule exec_good_cong exec_good_length; assumption)+

context sd_disk
begin

lemma arty_disk_block:
  assumes ok: "arty_ok media live ready p" and b: "NFRAMES \<le> b div 8" "b < 8192"
  shows "disk_block (arty_content media cells) p b = cells (media (dd_dev (pg_disk p))) b"
proof -
  let ?c = "cells (media (dd_dev (pg_disk p)))" and ?g = "b div 8"
  have wf: "cache_wf p" and k: "card_ok media live ready (pg_disk p)" using ok by (auto simp: arty_ok_def)
  have "slot_of p ?g = None"
  proof (rule ccontr)
    assume "slot_of p ?g \<noteq> None"
    then obtain i where "i < 28" "cache_slots p ! i = int ?g" using slot_of_Some [OF wf, of ?g] by auto
    with cache_wfD(5) [OF wf, of i] b(1) show False by auto
  qed
  then have e: "arty_content media cells p ?g = concat (map ?c [8 * ?g..<8 * ?g + 8])" by (simp add: arty_content_def disk_frame_def)
  have "?g < 1024" using b(2) by (simp add: less_mult_imp_div_less)
  then have "\<forall>x\<in>set (map ?c [8 * ?g..<8 * ?g + 8]). length x = 512"
    using cell_length [of "media (dd_dev (pg_disk p))"] k big by (auto simp: card_ok_def)
  then have "take 512 (drop (512 * (b mod 8)) (concat (map ?c [8 * ?g..<8 * ?g + 8]))) = map ?c [8 * ?g..<8 * ?g + 8] ! (b mod 8)"
    by (rule take_drop_concat) simp
  also have "\<dots> = ?c b" by (subst nth_map) (simp_all del: upt_Suc)
  finally show ?thesis unfolding disk_block_def e .
qed

end

sublocale sd_disk \<subseteq> exec: exec_file s "arty_content media cells" "\<lambda>p i f. slot_of p f = Some i" "arty_ok media live ready"
    "sys_proc_read s start" img N "exec_good (arty_content media cells) start img N" for start img N
proof unfold_locales
  fix m :: "'a mmu" and n
  assume ok: "arty_ok media live ready (paging m)" and g: "exec_good (arty_content media cells) start img N m" and n: "n < N"
  let ?b = "start + n"
  have wf: "cache_wf (paging m)" and k: "dd_type (pg_disk (paging m)) = SD_CARD" "live (dd_dev (pg_disk (paging m)))" "ready (media (dd_dev (pg_disk (paging m))))"
    using ok by (auto simp: arty_ok_def card_ok_def)
  have b: "?b < 8192" using g n by (simp add: exec_good_def)
  then have "?b + 1 \<le> ncells" using big by simp
  from sdread_ok [OF k(2,3) this] obtain c where c: "sdread s (int ?b) 1 (dd_dev (pg_disk (paging m))) = Some (cells (media (dd_dev (pg_disk (paging m)))) ?b, c)"
    "live c" "ready (media c)" "cells (media c) = cells (media (dd_dev (pg_disk (paging m))))"
    by (auto simp: upt_conv_Cons [of ?b "Suc ?b"])
  let ?p = "(paging m)\<lparr>pg_disk := (pg_disk (paging m))\<lparr>dd_dev := c\<rparr>\<rparr>"
  have "img n = cells (media (dd_dev (pg_disk (paging m)))) ?b"
    unfolding arty_disk_block [OF ok exec_frame [OF g] b, symmetric] using g n by (simp add: exec_good_def)
  then have "sys_proc_read s start n m = Some (img n, m\<lparr>paging := ?p\<rparr>)" using c(1) k(1) by (simp add: sys_proc_read_def disk_read_def)
  moreover have "arty_ok media live ready ?p" using ok c(2,3) k(1) by (simp add: arty_ok_def card_ok_def cache_wf_def)
  moreover have h: "slot_of ?p = slot_of (paging m)" by (simp add: slot_of_def fun_eq_iff)
  then have cc: "arty_content media cells ?p = arty_content media cells (paging m)"
    by (simp add: arty_content_def fun_eq_iff disk_frame_def c(4) cong: option.case_cong)
  moreover have "exec_good (arty_content media cells) start img N (m\<lparr>paging := ?p\<rparr>)" using cc by (intro exec_good_cong [OF g]) simp
  ultimately show "\<exists>p. sys_proc_read s start n m = Some (img n, m\<lparr>paging := p\<rparr>) \<and> arty_ok media live ready p
      \<and> exec_good (arty_content media cells) start img N (m\<lparr>paging := p\<rparr>) \<and> arty_content media cells p = arty_content media cells (paging m)
      \<and> (\<lambda>i f. slot_of p f = Some i) = (\<lambda>i f. slot_of (paging m) f = Some i)"
    using h by (intro exI [of _ ?p]) simp
qed (erule exec_good_cong exec_good_length; assumption)+

context sd_disk
begin

lemma exec_image:
  assumes ok: "arty_ok media live ready (paging m)" and r: "GRASS_EXEC_START \<le> start" "start + N \<le> 8192"
    and img: "img = (\<lambda>n. cells (media (dd_dev (pg_disk (paging m)))) (start + n))"
  shows "exec_good (arty_content media cells) start img N m"
proof -
  have "NFRAMES \<le> (start + n) div 8" for n using r(1) div_le_mono [of 2048 "start + n" 8] by simp
  moreover have "length (img n) = 512" if "n < N" for n
    using cell_length [of "media (dd_dev (pg_disk (paging m)))" "start + n"] ok big r(2) that by (simp add: img arty_ok_def card_ok_def)
  ultimately show ?thesis using arty_disk_block [OF ok] r by (simp add: exec_good_def img)
qed

lemma boot_load_app:
  assumes m: "arty_ok media live ready (paging m)" "mmu_inv m" "q \<noteq> 0" "q \<noteq> curr_vm_pid m" "translation m = SOFT_TLB \<or> q < 32"
    and fresh: "\<forall>n. aspace (arty_content media cells) m q n = None" "5 \<le> nfree m"
    and r: "GRASS_EXEC_START \<le> start" "start + GRASS_EXEC_SEGMENT \<le> 8192"
    and img: "img = (\<lambda>n. cells (media (dd_dev (pg_disk (paging m)))) (start + n))"
    and k: "k < e_phnum (img 0)" "pheader (img 0) k = Some h" "p_memsz h \<noteq> 0" "p_vaddr h = APPS_ENTRY_ADDR"
    and rest: "\<forall>i<e_phnum (img 0). i \<noteq> k \<longrightarrow> (\<exists>g. pheader (img 0) i = Some g \<and> p_memsz g = 0)"
    and sz: "p_filesz h \<le> APPS_SIZE" "p_offset h + p_filesz h \<le> BLOCK_SIZE * GRASS_EXEC_SEGMENT"
    and args: "argc \<le> 16" "argc * CMD_ARG_LEN \<le> length a" "argv = (if argc = 0 then None else Some a)"
  shows "\<exists>m' page. elf_load s q (sys_proc_read s start) (int argc) argv m = Some m'
     \<and> arty_ok media live ready (paging m') \<and> mmu_inv m' \<and> nfree m' + 5 = nfree m
     \<and> (\<forall>i<APPS_SIZE. user_byte (arty_content media cells) m' q (APPS_ENTRY_ADDR + i) =
          Some (if i < p_filesz h then img (p_offset h div BLOCK_SIZE + i div BLOCK_SIZE) ! (i mod BLOCK_SIZE) else 0))
     \<and> aspace (arty_content media cells) m' q 0x80000 = Some page \<and> args_page argc a page
     \<and> aspace (arty_content media cells) m' q 0x80001 \<noteq> None
     \<and> (\<forall>n. (n < 0x8005 \<or> 0x8008 \<le> n) \<and> n \<noteq> 0x80000 \<and> n \<noteq> 0x80001 \<longrightarrow> aspace (arty_content media cells) m' q n = None)
     \<and> (\<forall>r n. r \<noteq> 0 \<and> r \<noteq> q \<longrightarrow> aspace (arty_content media cells) m' r n = aspace (arty_content media cells) m r n)"
proof -
  let ?C = "arty_content media cells" and ?ok = "arty_ok media live ready" and ?N = "256 :: nat"
  have L: "loadable ?ok q m" using m by (simp add: loadable_def)
  have g: "exec_good ?C start img ?N m" using exec_image [OF m(1) r img] .
  have "0 < ?N" by simp
  from exec.elf_load_one [OF L g this k(1-3) rest, of q "int argc" argv] obtain m1 where
    m1: "loadable ?ok q m1" "exec_good ?C start img ?N m1" "nfree m1 = nfree m" "aspace ?C m1 = aspace ?C m"
      "elf_load s q (sys_proc_read s start) (int argc) argv m = load_app s q (sys_proc_read s start) (int argc) argv h m1"
    using k(4) by auto
  have "\<forall>i<p_filesz h. p_offset h div 512 + i div 512 < ?N" by (rule segment_blocks [OF sz(2)])
  moreover have "\<forall>page. length page = PAGE_SIZE \<longrightarrow> (\<exists>p. load_args (int argc) argv page = Some p \<and> args_page argc a p)"
  proof (cases "argc = 0")
    case True
    then show ?thesis using load_args_page(2) [of 0 _ "[]"] args(3) by (simp add: args_page_def)
  next
    case False
    then show ?thesis using load_args_page(1) [OF args(1) _ args(2)] args(3) by simp
  qed
  moreover have "\<forall>n. aspace ?C m1 q n = None" "5 \<le> nfree m1" using fresh m1(3,4) by simp_all
  ultimately show ?thesis
    using exec.load_app_ok [OF m1(1,2) sz(1), of "int argc" argv argc a "\<lambda>i. img (p_offset h div 512 + i div 512) ! (i mod 512)"] m1(3-5)
    unfolding loadable_def by (simp only: simp_thms) blast
qed

end

subsection \<open>The properties\<close>

text \<open>
  C12. Loading an application: if the executable on the SD card has one program header that is not
  empty, for the application area and within bounds, and five frames are free, \<^verbatim>\<open>elf_load\<close> with
  the reader of the boot process succeeds and builds the address space of the new process: the
  bytes of the segment at \<^verbatim>\<open>APPS_ENTRY\<close>, zeros up to the end of the area, argument count,
  vector and strings at \<^verbatim>\<open>APPS_ARG\<close>, a stack page, and nothing else; the address space of every
  other process is unchanged.
\<close>

theorem elf_load_app:
  assumes "sd_disk s media xfer live loaded txw rxw ready idle cells ncells"
    and "arty_ok media live ready (paging m)" "mmu_inv m" "q \<noteq> 0" "q \<noteq> curr_vm_pid m" "translation m = SOFT_TLB \<or> q < 32"
    and "\<forall>n. aspace (arty_content media cells) m q n = None" "5 \<le> nfree m"
    and "GRASS_EXEC_START \<le> start" "start + GRASS_EXEC_SEGMENT \<le> 8192"
    and "img = (\<lambda>n. cells (media (dd_dev (pg_disk (paging m)))) (start + n))"
    and "k < e_phnum (img 0)" "pheader (img 0) k = Some h" "p_memsz h \<noteq> 0" "p_vaddr h = APPS_ENTRY_ADDR"
    and "\<forall>i<e_phnum (img 0). i \<noteq> k \<longrightarrow> (\<exists>g. pheader (img 0) i = Some g \<and> p_memsz g = 0)"
    and "p_filesz h \<le> APPS_SIZE" "p_offset h + p_filesz h \<le> BLOCK_SIZE * GRASS_EXEC_SEGMENT"
    and "argc \<le> 16" "argc * CMD_ARG_LEN \<le> length a" "argv = (if argc = 0 then None else Some a)"
  shows "\<exists>m' page. elf_load s q (sys_proc_read s start) (int argc) argv m = Some m'
     \<and> arty_ok media live ready (paging m') \<and> mmu_inv m' \<and> nfree m' + 5 = nfree m
     \<and> (\<forall>i<APPS_SIZE. user_byte (arty_content media cells) m' q (APPS_ENTRY_ADDR + i) =
          Some (if i < p_filesz h then img (p_offset h div BLOCK_SIZE + i div BLOCK_SIZE) ! (i mod BLOCK_SIZE) else 0))
     \<and> aspace (arty_content media cells) m' q 0x80000 = Some page \<and> args_page argc a page
     \<and> aspace (arty_content media cells) m' q 0x80001 \<noteq> None
     \<and> (\<forall>n. (n < 0x8005 \<or> 0x8008 \<le> n) \<and> n \<noteq> 0x80000 \<and> n \<noteq> 0x80001 \<longrightarrow> aspace (arty_content media cells) m' q n = None)
     \<and> (\<forall>r n. r \<noteq> 0 \<and> r \<noteq> q \<longrightarrow> aspace (arty_content media cells) m' r n = aspace (arty_content media cells) m r n)"
  by (rule sd_disk.boot_load_app [OF assms])

text \<open>An executable of 600 bytes on a card that is otherwise empty.\<close>

definition demo_elf :: "nat \<Rightarrow> byte list" where
  "demo_elf v = put32 (put32 (put32 (put32 (put32 (put32 (replicate 512 0) 7 52) 14 512) 15 v) 17 600) 18 600) 11 1"

definition demo_header :: "nat \<Rightarrow> elf32_program_header" where
  "demo_header v = \<lparr>p_type = 0, p_offset = 512, p_vaddr = v, p_paddr = 0, p_filesz = 600, p_memsz = 600, p_flags = 0, p_align = 0\<rparr>"

definition demo_card :: "sim_card \<times> byte" where
  "demo_card = (\<lparr>sim_mode = Sim_Idle, sim_out = [], sim_cells = (\<lambda>_. replicate 512 7)(2304 := demo_elf 0x08005000)\<rparr>, 0)"

definition demo_mmu :: "(sim_card \<times> byte) mmu" where
  "demo_mmu = \<lparr>table = replicate 256 no_mapping, curr_vm_pid = -1, upages = (\<lambda>_. replicate 4096 0), grass_mem = [],
     paging = \<lparr>pg_platform = ARTY, cache_slots = replicate 28 (- 1), pages = (\<lambda>_. replicate 4096 0), rands = (\<lambda>n. n), nrand = 0,
       pg_disk = \<lparr>dd_type = SD_CARD, dd_rom = (\<lambda>_. 0), dd_dev = demo_card\<rparr>\<rparr>, translation = SOFT_TLB\<rparr>"

lemma get32_drop: "4 * a + 4 * i + 3 < length b \<Longrightarrow> get32 (drop (4 * a) b) i = get32 b (a + i)"
  by (simp add: get32_def algebra_simps)

lemma demo_elf_header:
  assumes "v < UINT"
  shows "length (demo_elf v) = 512" "e_phnum (demo_elf v) = 1" "pheader (demo_elf v) 0 = Some (demo_header v)"
proof -
  show "e_phnum (demo_elf v) = 1" by (simp add: e_phnum_def demo_elf_def put32_def nth_list_update)
  show l: "length (demo_elf v) = 512" by (simp add: demo_elf_def)
  have w: "get32 (demo_elf v) 7 = 52" "get32 (demo_elf v) 13 = 0" "get32 (demo_elf v) 14 = 512" "get32 (demo_elf v) 15 = v"
    "get32 (demo_elf v) 16 = 0" "get32 (demo_elf v) 17 = 600" "get32 (demo_elf v) 18 = 600" "get32 (demo_elf v) 19 = 0" "get32 (demo_elf v) 20 = 0"
    using assms by (simp_all add: demo_elf_def get32_put32_same get32_put32_other get32_replicate0)
  have "e_phoff (demo_elf v) = 52" by (simp add: e_phoff_def w)
  moreover have "get32 (drop 52 (demo_elf v)) i = get32 (demo_elf v) (13 + i)" if "i < 8" for i using get32_drop [of 13 i "demo_elf v"] l that by simp
  ultimately show "pheader (demo_elf v) 0 = Some (demo_header v)" using l by (simp add: pheader_def demo_header_def w)
qed

lemma demo_mmu_ok: "arty_ok fst (\<lambda>_. True) sim_ready (paging demo_mmu)" "mmu_inv demo_mmu" "nfree demo_mmu = 256"
    "aspace C demo_mmu q n = None"
proof -
  show "arty_ok fst (\<lambda>_. True) sim_ready (paging demo_mmu)"
    by (simp add: arty_ok_def cache_wf_def card_ok_def demo_mmu_def demo_card_def sim_ready_def sim_wf_def demo_elf_def)
  show "mmu_inv demo_mmu" "nfree demo_mmu = 256" by (simp_all add: mmu_inv_def nfree_def demo_mmu_def no_mapping_def)
  have "frame_of demo_mmu q n = None"
    using find_index_None_iff [of "\<lambda>e. use e \<and> fm_pid e = q \<and> page_no e = n" "replicate 256 no_mapping"]
    by (simp add: frame_of_def demo_mmu_def no_mapping_def)
  then show "aspace C demo_mmu q n = None" by (simp add: aspace_def)
qed

theorem elf_load_app_witness:
  "\<exists>m'. elf_load sim_spi 1 (sys_proc_read sim_spi 2304) 0 None demo_mmu = Some m'
     \<and> user_byte (arty_content fst sim_cells) m' 1 (APPS_ENTRY_ADDR + 599) = Some 7
     \<and> user_byte (arty_content fst sim_cells) m' 1 (APPS_ENTRY_ADDR + 600) = Some 0"
proof -
  let ?img = "\<lambda>n. sim_cells (fst (dd_dev (pg_disk (paging demo_mmu)))) (2304 + n)"
  have i: "?img 0 = demo_elf 0x08005000" "?img 2 = replicate 512 7" by (simp_all add: demo_mmu_def demo_card_def)
  have "\<exists>m' page. elf_load sim_spi 1 (sys_proc_read sim_spi 2304) (int 0) None demo_mmu = Some m'
     \<and> arty_ok fst (\<lambda>_. True) sim_ready (paging m') \<and> mmu_inv m' \<and> nfree m' + 5 = nfree demo_mmu
     \<and> (\<forall>i<APPS_SIZE. user_byte (arty_content fst sim_cells) m' 1 (APPS_ENTRY_ADDR + i) =
          Some (if i < p_filesz (demo_header 0x08005000) then ?img (p_offset (demo_header 0x08005000) div BLOCK_SIZE + i div BLOCK_SIZE) ! (i mod BLOCK_SIZE) else 0))
     \<and> aspace (arty_content fst sim_cells) m' 1 0x80000 = Some page \<and> args_page 0 [] page
     \<and> aspace (arty_content fst sim_cells) m' 1 0x80001 \<noteq> None
     \<and> (\<forall>n. (n < 0x8005 \<or> 0x8008 \<le> n) \<and> n \<noteq> 0x80000 \<and> n \<noteq> 0x80001 \<longrightarrow> aspace (arty_content fst sim_cells) m' 1 n = None)
     \<and> (\<forall>r n. r \<noteq> 0 \<and> r \<noteq> 1 \<longrightarrow> aspace (arty_content fst sim_cells) m' r n = aspace (arty_content fst sim_cells) demo_mmu r n)"
    by (rule elf_load_app [OF sim.sd_disk_axioms demo_mmu_ok(1,2), where k = 0])
      (use demo_elf_header(2,3) [of "0x08005000"] i in \<open>simp_all add: demo_mmu_ok demo_header_def\<close>, simp_all add: demo_mmu_def)
  then obtain m' where m': "elf_load sim_spi 1 (sys_proc_read sim_spi 2304) (int 0) None demo_mmu = Some m'"
    "\<forall>i<APPS_SIZE. user_byte (arty_content fst sim_cells) m' 1 (APPS_ENTRY_ADDR + i) =
          Some (if i < p_filesz (demo_header 0x08005000) then ?img (p_offset (demo_header 0x08005000) div BLOCK_SIZE + i div BLOCK_SIZE) ! (i mod BLOCK_SIZE) else 0)"
    by (elim exE conjE) (rule that)
  show ?thesis using m'(1) m'(2) [rule_format, of 599] m'(2) [rule_format, of 600] i(2) by (simp add: demo_header_def numeral_2_eq_2)
qed

lemma elf_load_grass_ok:
  assumes m: "qemu_ok (paging m)" "mmu_inv m" "length (grass_mem m) = GRASS_SIZE"
    and img: "img = (\<lambda>n. map (\<lambda>i. dd_rom (pg_disk (paging m)) (int (GRASS_EXEC_START + n) * int BLOCK_SIZE + int i)) [0..<BLOCK_SIZE])"
    and k: "k < e_phnum (img 0)" "pheader (img 0) k = Some h" "p_memsz h \<noteq> 0" "p_vaddr h = GRASS_ENTRY"
    and rest: "\<forall>i<e_phnum (img 0). i \<noteq> k \<longrightarrow> (\<exists>g. pheader (img 0) i = Some g \<and> p_memsz g = 0)"
    and sz: "p_filesz h \<le> GRASS_SIZE" "p_offset h + p_filesz h \<le> BLOCK_SIZE * GRASS_EXEC_SEGMENT"
  shows "\<exists>m'. elf_load s 0 (grass_read s) 0 None m = Some m' \<and> qemu_ok (paging m') \<and> mmu_inv m' \<and> nfree m' = nfree m
     \<and> aspace qemu_content m' = aspace qemu_content m
     \<and> (\<forall>i<GRASS_SIZE. grass_mem m' ! i = (if i < p_filesz h then img (p_offset h div BLOCK_SIZE + i div BLOCK_SIZE) ! (i mod BLOCK_SIZE) else 0))"
proof -
  let ?N = "256 :: nat" and ?C = qemu_content
  define q :: int where "q = (if curr_vm_pid m = 1 then 2 else 1)"
  have L: "loadable qemu_ok q m" using m(1,2) by (simp add: loadable_def q_def)
  have "NFRAMES \<le> (2048 + n) div 8" for n using div_le_mono [of 2048 "2048 + n" 8] by simp
  then have "disk_block ?C (paging m) (2048 + n) = img n" for n unfolding img by (rule qemu_disk_block)
  then have g: "exec_good ?C 2048 img ?N m" by (simp add: exec_good_def) (simp add: img)
  have "0 < ?N" by simp
  from qemu_exec.elf_load_one [OF L g this k(1-3) rest, of s 0 0 None] obtain m1 where
    m1: "loadable qemu_ok q m1" "exec_good ?C 2048 img ?N m1" "nfree m1 = nfree m" "grass_mem m1 = grass_mem m" "aspace ?C m1 = aspace ?C m"
      "elf_load s 0 (sys_proc_read s 2048) 0 None m = load_grass (sys_proc_read s 2048) h m1"
    using k(4) by auto
  have "length (grass_mem m1) = GRASS_SIZE" using m(3) m1(4) by simp
  from qemu_exec.load_grass_ok [OF m1(1,2) sz(1) this segment_blocks [OF sz(2)], of "\<lambda>i. img (p_offset h div 512 + i div 512) ! (i mod 512)" s] m1(3,5,6)
  show ?thesis by (auto simp: grass_read_def loadable_def)
qed

text \<open>
  Loading the grass layer: if the executable in the flash memory of QEMU has one program header
  that is not empty, for the grass area and within bounds, \<^verbatim>\<open>elf_load\<close> with \<^verbatim>\<open>grass_read\<close> succeeds,
  puts the bytes of the segment at \<^verbatim>\<open>GRASS_ENTRY\<close> and zeros after them, and changes no process.
\<close>

theorem elf_load_grass:
  assumes m: "qemu_ok (paging m)" "mmu_inv m" "length (grass_mem m) = GRASS_SIZE"
    and img: "img = (\<lambda>n. map (\<lambda>i. dd_rom (pg_disk (paging m)) (int (GRASS_EXEC_START + n) * int BLOCK_SIZE + int i)) [0..<BLOCK_SIZE])"
    and k: "k < e_phnum (img 0)" "pheader (img 0) k = Some h" "p_memsz h \<noteq> 0" "p_vaddr h = GRASS_ENTRY"
    and rest: "\<forall>i<e_phnum (img 0). i \<noteq> k \<longrightarrow> (\<exists>g. pheader (img 0) i = Some g \<and> p_memsz g = 0)"
    and sz: "p_filesz h \<le> GRASS_SIZE" "p_offset h + p_filesz h \<le> BLOCK_SIZE * GRASS_EXEC_SEGMENT"
  shows "\<exists>m'. elf_load s 0 (grass_read s) 0 None m = Some m' \<and> qemu_ok (paging m') \<and> mmu_inv m' \<and> nfree m' = nfree m
     \<and> aspace qemu_content m' = aspace qemu_content m
     \<and> (\<forall>i<GRASS_SIZE. grass_mem m' ! i = (if i < p_filesz h then img (p_offset h div BLOCK_SIZE + i div BLOCK_SIZE) ! (i mod BLOCK_SIZE) else 0))"
  using assms by (rule elf_load_grass_ok)

definition demo_rom :: "(sim_card \<times> byte) mmu" where
  "demo_rom = demo_mmu\<lparr>grass_mem := replicate 0x2800 0, paging := (paging demo_mmu)\<lparr>pg_platform := QEMU,
     pg_disk := (pg_disk (paging demo_mmu))\<lparr>dd_type := FLASH_ROM,
       dd_rom := (\<lambda>x. if 0x100000 \<le> x \<and> x < 0x100200 then demo_elf 0x08002800 ! nat (x - 0x100000) else 7)\<rparr>\<rparr>\<rparr>"

theorem elf_load_grass_witness:
  "\<exists>m'. elf_load sim_spi 0 (grass_read sim_spi) 0 None demo_rom = Some m' \<and> grass_mem m' ! 599 = 7 \<and> grass_mem m' ! 600 = 0"
proof -
  let ?h = "demo_header 0x08002800" and ?e = "demo_elf 0x08002800"
  have h: "length ?e = 512" "e_phnum ?e = 1" "pheader ?e 0 = Some ?h" using demo_elf_header [of "0x08002800"] by simp_all
  define img where "img = (\<lambda>n. map (\<lambda>i. dd_rom (pg_disk (paging demo_rom)) (int (GRASS_EXEC_START + n) * int BLOCK_SIZE + int i)) [0..<BLOCK_SIZE])"
  have "img 0 = map (\<lambda>i. ?e ! i) [0..<512]" unfolding img_def by (intro map_cong refl) (simp add: demo_rom_def)
  then have i0: "img 0 = ?e" using map_nth [of ?e] h(1) by simp
  have i2: "img 2 ! 87 = 7" by (simp add: img_def demo_rom_def)
  have ok: "qemu_ok (paging demo_rom)" by (simp add: qemu_ok_def demo_rom_def demo_mmu_def)
  have inv: "mmu_inv demo_rom" using demo_mmu_ok(2) by (simp add: mmu_inv_def demo_rom_def)
  have "length (grass_mem demo_rom) = GRASS_SIZE" by (simp add: demo_rom_def)
  from elf_load_grass [OF ok inv this img_def, of 0 ?h sim_spi] obtain m' where
    m': "elf_load sim_spi 0 (grass_read sim_spi) 0 None demo_rom = Some m'"
    "\<forall>i<GRASS_SIZE. grass_mem m' ! i = (if i < p_filesz ?h then img (p_offset ?h div BLOCK_SIZE + i div BLOCK_SIZE) ! (i mod BLOCK_SIZE) else 0)"
    using i0 h by (auto simp: demo_header_def)
  have "grass_mem m' ! 599 = img (1 + 1) ! 87" "grass_mem m' ! 600 = 0"
    using m'(2) [rule_format, of 599] m'(2) [rule_format, of 600] by (simp_all add: demo_header_def)
  moreover have "(1 + 1 :: nat) = 2" by simp
  ultimately show ?thesis using i2 m'(1) by (simp only:) blast
qed

end
