(* ===== verification/Pagetable.thy ===== *)
theory Pagetable
  imports Mmu
begin

section \<open>Page tables\<close>

text \<open>
  The page table part of \<^verbatim>\<open>earth/cpu_mmu.c\<close>: an identity mapping in the format RISC-V Sv32, in
  frames of the paging device, and \<^verbatim>\<open>mmu_init\<close>. Page tables exist on QEMU only, where frame
  \<open>i\<close> is the memory at \<^verbatim>\<open>FRAME_CACHE_START + i * PAGE_SIZE\<close>; \<open>root\<close>, \<open>leaf\<close> and the bases are such addresses.
\<close>

unbundle bit_operations_syntax

abbreviation (input) FRAME_CACHE_START :: nat where "FRAME_CACHE_START \<equiv> 0x80004000"
abbreviation (input) OS_RWX :: nat where "OS_RWX \<equiv> 0xF"

record 'c vm =
  vm_mmu :: "'c mmu"
  root :: nat
  leaf :: nat
  pid_to_pagetable_base :: "int \<Rightarrow> nat"
  satp :: nat
  pmpaddr0 :: nat
  pmpcfg0 :: nat

definition frame_addr :: "nat \<Rightarrow> nat" where
  "frame_addr i = FRAME_CACHE_START + i * PAGE_SIZE"

definition addr_frame :: "nat \<Rightarrow> nat" where
  "addr_frame a = (a - FRAME_CACHE_START) div PAGE_SIZE"

definition pt_get :: "'c vm \<Rightarrow> nat \<Rightarrow> nat \<Rightarrow> nat" where
  "pt_get v base i = get32 (pages (paging (vm_mmu v)) (addr_frame base)) i"

definition pt_set :: "nat \<Rightarrow> byte list \<Rightarrow> 'c vm \<Rightarrow> 'c vm" where
  "pt_set base b v = v\<lparr>vm_mmu := frame_fill (addr_frame base) b (vm_mmu v)\<rparr>"

definition pt_put :: "nat \<Rightarrow> nat \<Rightarrow> nat \<Rightarrow> 'c vm \<Rightarrow> 'c vm" where
  "pt_put base i e v = pt_set base (put32 (pages (paging (vm_mmu v)) (addr_frame base)) i e) v"

text \<open>\<^verbatim>\<open>mmu_alloc\<close>, the owner in the frame table, and \<^verbatim>\<open>memset\<close>.\<close>

definition alloc_table :: "'c spi \<Rightarrow> int \<Rightarrow> 'c vm \<Rightarrow> (nat \<times> 'c vm) option" where
  "alloc_table s pid v =
    do { (frame_id, a, m) \<leftarrow> mmu_alloc s (vm_mmu v);
         let m = m\<lparr>table := (table m)[frame_id := (table m ! frame_id)\<lparr>fm_pid := pid\<rparr>]\<rparr>;
         let v = v\<lparr>vm_mmu := m\<rparr>;
         Some (frame_addr a, pt_set (frame_addr a) (replicate PAGE_SIZE 0) v) }"

fun identity_loop :: "nat \<Rightarrow> nat \<Rightarrow> nat \<Rightarrow> nat \<Rightarrow> nat \<Rightarrow> 'c vm \<Rightarrow> 'c vm" where
  "identity_loop 0 i vpn0 addr flag v = v"
| "identity_loop (Suc n) i vpn0 addr flag v =
    identity_loop n (Suc i) vpn0 addr flag (pt_put (leaf v) (vpn0 + i) (drop_bit 2 (addr + i * PAGE_SIZE) OR flag) v)"

definition setup_identity_region :: "'c spi \<Rightarrow> int \<Rightarrow> nat \<Rightarrow> nat \<Rightarrow> nat \<Rightarrow> 'c vm \<Rightarrow> 'c vm option" where
  "setup_identity_region s pid addr npages flag v =
    (let vpn1 = drop_bit 22 addr
     in do { v \<leftarrow> (if pt_get v (root v) vpn1 AND 1 \<noteq> 0
               then Some (v\<lparr>leaf := push_bit 2 (pt_get v (root v) vpn1) mod 4294967296 AND 0xFFFFF000\<rparr>)
               else do { (l, v) \<leftarrow> alloc_table s pid v;
                         Some (pt_put (root v) vpn1 (drop_bit 2 l OR 1) (v\<lparr>leaf := l\<rparr>)) });
             let vpn0 = drop_bit 12 addr AND 0x3FF;
             Some (identity_loop npages 0 vpn0 addr flag v) })"

fun setup_regions :: "'c spi \<Rightarrow> int \<Rightarrow> (nat \<times> nat) list \<Rightarrow> 'c vm \<Rightarrow> 'c vm option" where
  "setup_regions s pid [] v = Some v"
| "setup_regions s pid ((addr, npages) # rs) v =
    do { v \<leftarrow> setup_identity_region s pid addr npages OS_RWX v; setup_regions s pid rs v }"

definition identity_regions :: "(nat \<times> nat) list" where
  "identity_regions =
    [(0x02000000, 16), (0x0C000000, 1024), (0x10013000, 1), (0x10024000, 1),
     (0x20400000, 1024), (0x20800000, 1024), (0x80000000, 1024)]
    @ map (\<lambda>i. (0x08000000 + i * 0x400000, 1024)) [0..<8]"

definition pagetable_identity_mapping :: "'c spi \<Rightarrow> int \<Rightarrow> 'c vm \<Rightarrow> 'c vm option" where
  "pagetable_identity_mapping s pid v =
    do { (r, v) \<leftarrow> alloc_table s pid v;
         let v = v\<lparr>root := r, pid_to_pagetable_base := (pid_to_pagetable_base v)(pid := r)\<rparr>;
         setup_regions s pid identity_regions v }"

definition mmu_init :: "'c spi \<Rightarrow> tty \<Rightarrow> 'c vm \<Rightarrow> ('c vm \<times> tty) option" where
  "mmu_init s t v =
    (let v = v\<lparr>vm_mmu := (vm_mmu v)\<lparr>paging := paging_init (paging (vm_mmu v))\<rparr>\<rparr>;
         v = v\<lparr>pmpaddr0 := 0x40000000\<rparr>;
         v = v\<lparr>pmpcfg0 := 0xF\<rparr>;
         v = v\<lparr>vm_mmu := (vm_mmu v)\<lparr>translation := SOFT_TLB\<rparr>\<rparr>
     in if pg_platform (paging (vm_mmu v)) = ARTY then Some (v, t)
        else do { (b, t) \<leftarrow> read_choice 0 t;
                  let v = v\<lparr>vm_mmu := (vm_mmu v)\<lparr>translation := if b = 0x30 then PAGE_TABLE else SOFT_TLB\<rparr>\<rparr>;
                  if translation (vm_mmu v) = PAGE_TABLE
                  then do { v \<leftarrow> pagetable_identity_mapping s 0 v;
                            Some (v\<lparr>satp := drop_bit 12 (root v) OR 0x80000000\<rparr>, t) }
                  else Some (v, t) })"

subsection \<open>Translation\<close>

text \<open>
  The page table walk of Sv32 (RISC-V privileged architecture, section 4.3): the upper ten bits
  of the address select an entry of the root table, which is a leaf or points to a second
  table, where the next ten bits select the leaf. Bit 0 of an entry is the valid bit, the next
  three bits are zero in a pointer, and the page number is above bit 10. The result is the flags
  and the physical address.
\<close>

definition sv32_walk :: "'c vm \<Rightarrow> nat \<Rightarrow> nat \<Rightarrow> (nat \<times> nat) option" where
  "sv32_walk v base va =
    (let pte = pt_get v base (va div 0x400000)
     in if pte mod 2 = 0 then None
        else if pte div 2 mod 8 \<noteq> 0 then Some (pte mod 1024, pte div 1024 * PAGE_SIZE + va mod 0x400000)
        else let pte = pt_get v (pte div 1024 * PAGE_SIZE) (va div PAGE_SIZE mod 1024)
             in if pte mod 2 = 0 \<or> pte div 2 mod 8 = 0 then None
                else Some (pte mod 1024, pte div 1024 * PAGE_SIZE + va mod PAGE_SIZE))"

definition in_regions :: "(nat \<times> nat) list \<Rightarrow> nat \<Rightarrow> bool" where
  "in_regions rs va \<longleftrightarrow> (\<exists>(addr, n)\<in>set rs. addr \<le> va \<and> va < addr + n * PAGE_SIZE)"

subsection \<open>Words and addresses\<close>

lemma or_low:
  fixes k f :: nat
  assumes "f < 1024"
  shows "1024 * k OR f = 1024 * k + f"
proof -
  have f: "take_bit 10 f = f" using assms by (simp add: take_bit_eq_mod)
  have "push_bit 10 k + f = push_bit 10 k OR f"
    by (rule disjunctive_add) (subst f [symmetric], auto simp: bit_push_bit_iff bit_take_bit_iff)
  then show ?thesis by (simp add: push_bit_eq_mult mult.commute)
qed

lemma and_page: "x < 4294967296 \<Longrightarrow> x AND 0xFFFFF000 = x div 4096 * 4096" for x :: nat
proof -
  assume x: "x < 4294967296"
  have m: "(0xFFFFF000 :: nat) = push_bit 12 (mask 20)" by (simp add: push_bit_eq_mult mask_eq_exp_minus_1)
  have "x AND push_bit 12 (mask 20) = push_bit 12 (take_bit 20 (drop_bit 12 x))"
    by (rule bit_eqI) (auto simp: bit_and_iff bit_push_bit_iff bit_take_bit_iff bit_drop_bit_eq bit_mask_iff)
  moreover have "x div 4096 < 1048576" using x by (simp add: less_mult_imp_div_less)
  ultimately show ?thesis unfolding m by (simp add: push_bit_eq_mult take_bit_eq_mod drop_bit_eq_div mult.commute)
qed

lemma frame_addr:
  assumes "l < NFRAMES"
  shows "addr_frame (frame_addr l) = l" "(frame_addr l div 4 + 1) div 1024 * PAGE_SIZE = frame_addr l"
    "drop_bit 2 (frame_addr l) OR 1 = frame_addr l div 4 + 1" "(frame_addr l div 4 + 1) mod 2 = 1"
    "push_bit 2 (frame_addr l div 4 + 1) mod 4294967296 AND 0xFFFFF000 = frame_addr l" "frame_addr l div 4 + 1 < 4294967296"
    "(frame_addr l div 4 + 1) div 2 mod 8 = 0"
proof -
  have e: "frame_addr l div 4 = 1024 * (0x80004 + l)" by (simp add: frame_addr_def)
  show "addr_frame (frame_addr l) = l" by (simp add: addr_frame_def frame_addr_def)
  have d: "(1024 * (0x80004 + l) + 1) div 1024 = 0x80004 + l" by (rule div_nat_eqI) simp_all
  then show "(frame_addr l div 4 + 1) div 1024 * PAGE_SIZE = frame_addr l" unfolding e by (simp add: frame_addr_def)
  show "drop_bit 2 (frame_addr l) OR 1 = frame_addr l div 4 + 1"
    using or_low [of 1 "0x80004 + l"] e by (simp add: drop_bit_eq_div)
  have "1024 * (0x80004 + l) + 1 = 1 + 512 * (0x80004 + l) * 2" by simp
  then have "(1024 * (0x80004 + l) + 1) mod 2 = 1" "(1024 * (0x80004 + l) + 1) div 2 = 512 * (0x80004 + l)"
    by (simp_all only: mod_mult_self1 div_mult_self1) simp_all
  then show "(frame_addr l div 4 + 1) mod 2 = 1" "(frame_addr l div 4 + 1) div 2 mod 8 = 0" unfolding e by (simp_all add: mod_eq_0_iff_dvd dvd_mult2)
  have b: "4 * (frame_addr l div 4 + 1) = frame_addr l + 4" "frame_addr l + 4 < 4294967296" unfolding e using assms by (simp_all add: frame_addr_def)
  have "(frame_addr l + 4) div 4096 = 0x80004 + l" by (rule div_nat_eqI) (simp_all add: frame_addr_def)
  then have "(frame_addr l + 4) div 4096 * 4096 = frame_addr l" by (simp add: frame_addr_def)
  moreover have "push_bit 2 (frame_addr l div 4 + 1) = frame_addr l + 4"
    unfolding push_bit_eq_mult using b(1) by (simp only: mult.commute power2_eq_square mult_2_right) simp
  ultimately show "push_bit 2 (frame_addr l div 4 + 1) mod 4294967296 AND 0xFFFFF000 = frame_addr l"
    using and_page [OF b(2)] b(2) by (simp only: mod_less)
  show "frame_addr l div 4 + 1 < 4294967296" unfolding e using assms by simp
qed

subsection \<open>One region\<close>

abbreviation (input) vpages :: "'c vm \<Rightarrow> nat \<Rightarrow> byte list" where
  "vpages v \<equiv> pages (paging (vm_mmu v))"

lemma pt_simps:
  "l < NFRAMES \<Longrightarrow> pt_get v (frame_addr l) i = get32 (vpages v l) i"
  "l < NFRAMES \<Longrightarrow> vpages (pt_set (frame_addr l) b v) = (vpages v)(l := b)"
  "table (vm_mmu (pt_set a b v)) = table (vm_mmu v)" "root (pt_set a b v) = root v" "leaf (pt_set a b v) = leaf v"
  "nfree (vm_mmu (pt_set a b v)) = nfree (vm_mmu v)"
  "pt_set a b (pt_set a b' v) = pt_set a b v"
  by (auto simp: pt_get_def pt_set_def frame_fill_def page_store_def frame_addr nfree_def)

lemma pt_set_ok: "qemu_ok (paging (vm_mmu v)) \<Longrightarrow> length b = PAGE_SIZE \<Longrightarrow> qemu_ok (paging (vm_mmu (pt_set a b v)))"
  by (auto simp: pt_set_def frame_fill_def page_store_def qemu_ok_def)

lemma identity_loop_set:
  assumes "leaf v = frame_addr l" "l < NFRAMES" "length (vpages v l) = PAGE_SIZE" "vpn0 + i + n \<le> 1024"
  shows "\<exists>b. identity_loop n i vpn0 addr flag v = pt_set (frame_addr l) b v \<and> length b = PAGE_SIZE
     \<and> (\<forall>k<1024. get32 b k = (if vpn0 + i \<le> k \<and> k < vpn0 + i + n
          then (drop_bit 2 (addr + (k - vpn0) * PAGE_SIZE) OR flag) mod 4294967296 else get32 (vpages v l) k))"
  using assms
proof (induction n arbitrary: i v)
  case 0
  have "pt_set (frame_addr l) (vpages v l) v = v"
    using 0 by (simp add: pt_set_def frame_fill_def page_store_def frame_addr)
  with 0 show ?case by (intro exI [of _ "vpages v l"]) auto
next
  case (Suc n)
  let ?b = "put32 (vpages v l) (vpn0 + i) (drop_bit 2 (addr + i * PAGE_SIZE) OR flag)"
  let ?v = "pt_set (frame_addr l) ?b v"
  have v: "leaf ?v = frame_addr l" "vpages ?v l = ?b" "length ?b = PAGE_SIZE" using Suc.prems by (simp_all add: pt_simps)
  have "\<exists>b. identity_loop n (Suc i) vpn0 addr flag ?v = pt_set (frame_addr l) b ?v \<and> length b = PAGE_SIZE
     \<and> (\<forall>k<1024. get32 b k = (if vpn0 + Suc i \<le> k \<and> k < vpn0 + Suc i + n
          then (drop_bit 2 (addr + (k - vpn0) * PAGE_SIZE) OR flag) mod 4294967296 else get32 (vpages ?v l) k))"
    using Suc.prems v by (intro Suc.IH) simp_all
  then obtain b where b: "identity_loop n (Suc i) vpn0 addr flag ?v = pt_set (frame_addr l) b ?v" "length b = PAGE_SIZE"
    "\<forall>k<1024. get32 b k = (if vpn0 + Suc i \<le> k \<and> k < vpn0 + Suc i + n
          then (drop_bit 2 (addr + (k - vpn0) * PAGE_SIZE) OR flag) mod 4294967296 else get32 ?b k)" unfolding v(2) by blast
  have "identity_loop (Suc n) i vpn0 addr flag v = pt_set (frame_addr l) b v"
    using b(1) Suc.prems by (simp add: pt_put_def frame_addr pt_simps)
  moreover have "get32 b k = (if vpn0 + i \<le> k \<and> k < vpn0 + i + Suc n
          then (drop_bit 2 (addr + (k - vpn0) * PAGE_SIZE) OR flag) mod 4294967296 else get32 (vpages v l) k)" if "k < 1024" for k
  proof (cases "k = vpn0 + i")
    case True
    then show ?thesis using b(3) that Suc.prems(3) by (simp add: get32_put32_same)
  next
    case False
    then show ?thesis using b(3) that by (auto simp: get32_put32_other)
  qed
  ultimately show ?case using b(2) by blast
qed

lemma alloc_table_ok:
  assumes "qemu_ok (paging (vm_mmu v))" "length (table (vm_mmu v)) = NFRAMES" "nfree (vm_mmu v) \<noteq> 0"
  shows "\<exists>f v'. alloc_table s pid v = Some (frame_addr f, v') \<and> f < NFRAMES \<and> \<not> use (table (vm_mmu v) ! f)
     \<and> qemu_ok (paging (vm_mmu v')) \<and> length (table (vm_mmu v')) = NFRAMES \<and> vpages v' = (vpages v)(f := replicate PAGE_SIZE 0)
     \<and> (\<forall>g. use (table (vm_mmu v') ! g) \<longleftrightarrow> g = f \<or> use (table (vm_mmu v) ! g)) \<and> Suc (nfree (vm_mmu v')) = nfree (vm_mmu v)
     \<and> root v' = root v \<and> pid_to_pagetable_base v' = pid_to_pagetable_base v"
proof -
  let ?t = "table (vm_mmu v)"
  obtain f where f: "find_index (\<lambda>e. \<not> use e) ?t = Some f"
    using assms(3) find_index_None_iff [of "\<lambda>e. \<not> use e" ?t]
    by (cases "find_index (\<lambda>e. \<not> use e) ?t") (auto simp: nfree_def filter_empty_conv)
  note F = find_index_SomeD [OF f]
  have l: "f < NFRAMES" using F(1) assms(2) by simp
  have rd: "paging_read s f True (paging (vm_mmu v)) = Some (f, paging (vm_mmu v))" using assms(1) by (simp add: paging_read_def qemu_ok_def)
  let ?e = "(?t ! f)\<lparr>use := True, fm_pid := pid\<rparr>"
  let ?v = "v\<lparr>vm_mmu := (vm_mmu v)\<lparr>table := ?t[f := ?e]\<rparr>\<rparr>"
  let ?v' = "pt_set (frame_addr f) (replicate PAGE_SIZE 0) ?v"
  have "alloc_table s pid v = Some (frame_addr f, ?v')"
    using f rd F(1) by (simp add: alloc_table_def mmu_alloc_def)
  moreover have "qemu_ok (paging (vm_mmu ?v'))" using assms(1) by (intro pt_set_ok) simp_all
  moreover have "vpages ?v' = (vpages v)(f := replicate PAGE_SIZE 0)" using l by (simp add: pt_simps)
  moreover have "use (table (vm_mmu ?v') ! g) \<longleftrightarrow> g = f \<or> use (?t ! g)" for g using F(1) by (simp add: pt_simps nth_list_update)
  moreover have "Suc (nfree (vm_mmu ?v')) = nfree (vm_mmu v)"
    using length_filter_update [where P = "\<lambda>e. \<not> use e", OF F(1,2), of ?e] unfolding pt_simps by (simp add: nfree_def)
  ultimately show ?thesis using F(2) l assms(2) by (intro exI [of _ f] exI [of _ ?v']) (simp add: pt_simps, simp add: pt_set_def)
qed

text \<open>What the invariant says of the root table, by frame numbers.\<close>

definition roots :: "'c vm \<Rightarrow> nat \<Rightarrow> (nat \<Rightarrow> nat option) \<Rightarrow> bool" where
  "roots v r L \<longleftrightarrow> qemu_ok (paging (vm_mmu v)) \<and> length (table (vm_mmu v)) = NFRAMES \<and> r < NFRAMES \<and> root v = frame_addr r
     \<and> use (table (vm_mmu v) ! r)
     \<and> (\<forall>v1<1024. get32 (vpages v r) v1 = (case L v1 of None \<Rightarrow> 0 | Some l \<Rightarrow> frame_addr l div 4 + 1))
     \<and> (\<forall>v1<1024. \<forall>l. L v1 = Some l \<longrightarrow> l < NFRAMES \<and> l \<noteq> r \<and> use (table (vm_mmu v) ! l))
     \<and> (\<forall>v1<1024. \<forall>v2<1024. L v1 \<noteq> None \<and> L v1 = L v2 \<longrightarrow> v1 = v2)"

definition leaf_entry :: "'c vm \<Rightarrow> (nat \<Rightarrow> nat option) \<Rightarrow> nat \<Rightarrow> nat \<Rightarrow> nat" where
  "leaf_entry v L v1 v0 = (case L v1 of None \<Rightarrow> 0 | Some l \<Rightarrow> get32 (vpages v l) v0)"

lemma roots_leaf: "roots (v\<lparr>leaf := a\<rparr>) r L = roots v r L"
  by (simp add: roots_def)

lemma roots_set:
  assumes "roots v r L" "l < NFRAMES" "l \<noteq> r" "length b = PAGE_SIZE"
  shows "roots (pt_set (frame_addr l) b v) r L"
proof -
  have "vpages (pt_set (frame_addr l) b v) r = vpages v r" using assms(2,3) by (simp add: pt_simps)
  moreover have "qemu_ok (paging (vm_mmu (pt_set (frame_addr l) b v)))" using assms by (intro pt_set_ok) (simp_all add: roots_def)
  ultimately show ?thesis using assms(1) unfolding roots_def pt_simps(3,4) by metis
qed

lemma leaf_table:
  assumes R: "roots v r L" and v1: "vpn1 < 1024" and n: "nfree (vm_mmu v) \<noteq> 0"
  shows "\<exists>v' l L'. (if pt_get v (root v) vpn1 AND 1 \<noteq> 0
               then Some (v\<lparr>leaf := push_bit 2 (pt_get v (root v) vpn1) mod 4294967296 AND 0xFFFFF000\<rparr>)
               else do { (l, v) \<leftarrow> alloc_table s pid v; Some (pt_put (root v) vpn1 (drop_bit 2 l OR 1) (v\<lparr>leaf := l\<rparr>)) }) = Some v'
     \<and> roots v' r L' \<and> L' vpn1 = Some l \<and> leaf v' = frame_addr l \<and> nfree (vm_mmu v) \<le> Suc (nfree (vm_mmu v'))
     \<and> pid_to_pagetable_base v' = pid_to_pagetable_base v
     \<and> (\<forall>k<1024. \<forall>v0<1024. leaf_entry v' L' k v0 = leaf_entry v L k v0)"
proof (cases "L vpn1")
  case (Some l)
  then have l: "l < NFRAMES" and e: "pt_get v (root v) vpn1 = frame_addr l div 4 + 1"
    using R v1 by (auto simp: roots_def pt_simps)
  have "pt_get v (root v) vpn1 AND 1 \<noteq> 0" unfolding e and_one_eq frame_addr(4) [OF l] by simp
  moreover have "push_bit 2 (pt_get v (root v) vpn1) mod 4294967296 AND 0xFFFFF000 = frame_addr l" unfolding e by (rule frame_addr(5) [OF l])
  moreover have "roots (v\<lparr>leaf := frame_addr l\<rparr>) r L" using R by (simp only: roots_leaf)
  ultimately show ?thesis using Some
    by (intro exI [of _ "v\<lparr>leaf := frame_addr l\<rparr>"] exI [of _ l] exI [of _ L]) (simp add: leaf_entry_def cong: option.case_cong)
next
  case None
  have r: "r < NFRAMES" "root v = frame_addr r" "use (table (vm_mmu v) ! r)" "qemu_ok (paging (vm_mmu v))" "length (table (vm_mmu v)) = NFRAMES"
    using R by (auto simp: roots_def)
  obtain f v' where f: "alloc_table s pid v = Some (frame_addr f, v')" "f < NFRAMES" "\<not> use (table (vm_mmu v) ! f)"
    "qemu_ok (paging (vm_mmu v'))" "length (table (vm_mmu v')) = NFRAMES" "vpages v' = (vpages v)(f := replicate PAGE_SIZE 0)"
    "\<forall>g. use (table (vm_mmu v') ! g) \<longleftrightarrow> g = f \<or> use (table (vm_mmu v) ! g)" "Suc (nfree (vm_mmu v')) = nfree (vm_mmu v)"
    "root v' = root v" "pid_to_pagetable_base v' = pid_to_pagetable_base v"
    using alloc_table_ok [OF r(4,5) n, of s pid] by blast
  have fr: "f \<noteq> r" using f(3) r(3) by auto
  let ?b = "put32 (vpages v r) vpn1 (frame_addr f div 4 + 1)" and ?L = "L(vpn1 := Some f)"
  let ?v = "pt_set (frame_addr r) ?b (v'\<lparr>leaf := frame_addr f\<rparr>)"
  have len: "length (vpages v r) = PAGE_SIZE" using r(1,4) by (simp add: qemu_ok_def)
  have pg: "vpages ?v = (vpages v)(f := replicate PAGE_SIZE 0, r := ?b)" using r(1) f(6) by (simp add: pt_simps)
  have LL: "l < NFRAMES \<and> l \<noteq> r \<and> use (table (vm_mmu v) ! l) \<and> l \<noteq> f" if "k < 1024" "L k = Some l" for k l
    using R that f(3) by (auto simp: roots_def)
  have "pt_get v (root v) vpn1 = 0" using R None v1 by (simp add: roots_def pt_simps)
  moreover have "pt_put (root v') vpn1 (drop_bit 2 (frame_addr f) OR 1) (v'\<lparr>leaf := frame_addr f\<rparr>) = ?v"
    using r(1,2) f(9) f(6) fr frame_addr(3) [OF f(2)] by (simp add: pt_put_def frame_addr)
  moreover have "roots ?v r ?L"
  proof -
    have "qemu_ok (paging (vm_mmu ?v))" using f(4) len by (intro pt_set_ok) simp_all
    moreover have "length (table (vm_mmu ?v)) = NFRAMES" "root ?v = frame_addr r" "use (table (vm_mmu ?v) ! r)"
      using f(5,7,9) r(2,3) by (simp_all add: pt_simps)
    moreover have "get32 (vpages ?v r) k = (case ?L k of None \<Rightarrow> 0 | Some l \<Rightarrow> frame_addr l div 4 + 1)" if "k < 1024" for k
    proof -
      have "vpages ?v r = ?b" unfolding pg by simp
      moreover have "get32 ?b k = (case ?L k of None \<Rightarrow> 0 | Some l \<Rightarrow> frame_addr l div 4 + 1)"
        using R that len frame_addr(6) [OF f(2)] by (cases "k = vpn1") (simp_all add: get32_put32_same get32_put32_other roots_def)
      ultimately show ?thesis by (simp only:)
    qed
    moreover have "l < NFRAMES \<and> l \<noteq> r \<and> use (table (vm_mmu ?v) ! l)" if "k < 1024" "?L k = Some l" for k l
      using that LL [of k l] f(2,7) fr by (auto simp: pt_simps split: if_splits)
    moreover have "k = k'" if "k < 1024" "k' < 1024" "?L k \<noteq> None" "?L k = ?L k'" for k k'
    proof -
      have "L k = L k' \<longrightarrow> L k \<noteq> None \<longrightarrow> k = k'" using R that(1,2) by (simp add: roots_def)
      with that LL [of k f] LL [of k' f] show ?thesis by (auto split: if_splits)
    qed
    ultimately show ?thesis using r(1) unfolding roots_def by blast
  qed
  moreover have "leaf_entry ?v ?L k v0 = leaf_entry v L k v0" if "k < 1024" "v0 < 1024" for k v0
    using LL [of k] that None fr pg by (cases "L k") (auto simp: leaf_entry_def get32_replicate0)
  ultimately show ?thesis using f(1,8,10)
    by (intro exI [of _ ?v] exI [of _ f] exI [of _ ?L]) (simp add: pt_simps, simp add: pt_set_def)
qed

lemma leaf_value:
  assumes "addr mod 4096 = 0" "addr < 4294967296" "vpn0 = addr div 4096 mod 1024" "vpn0 \<le> k" "k < 1024"
  shows "(drop_bit 2 (addr + (k - vpn0) * PAGE_SIZE) OR OS_RWX) mod 4294967296 = 1024 * (addr div 0x400000 * 1024 + k) + 15"
proof -
  define a where "a = addr div 4096"
  have addr: "addr = 4096 * a" using assms(1) by (auto simp: a_def)
  have v1: "addr div 0x400000 = a div 1024" unfolding a_def by (simp add: div_mult2_eq [symmetric])
  define d where "d = a div 1024"
  have "a = d * 1024 + vpn0" using assms(3) by (simp add: d_def a_def)
  then have "a + (k - vpn0) = d * 1024 + k" using assms(4) by simp
  then have p: "a + (k - vpn0) = a div 1024 * 1024 + k" unfolding d_def .
  have "addr + (k - vpn0) * 4096 = 4 * (1024 * (a div 1024 * 1024 + k))" unfolding p [symmetric] by (simp add: addr algebra_simps)
  then have "drop_bit 2 (addr + (k - vpn0) * PAGE_SIZE) = 1024 * (a div 1024 * 1024 + k)" by (simp only: drop_bit_eq_div) simp
  then have "drop_bit 2 (addr + (k - vpn0) * PAGE_SIZE) OR OS_RWX = 1024 * (a div 1024 * 1024 + k) + 15"
    by (simp only: or_low)
  moreover have "a div 1024 < 1024" using assms(2) by (simp add: addr less_mult_imp_div_less)
  then have "1024 * (a div 1024 * 1024 + k) + 15 < 4294967296" using assms(5) by simp
  ultimately show ?thesis unfolding v1 by simp
qed

lemma page_split:
  fixes v0 v1 a1 vpn0 n :: nat
  assumes "v0 < 1024" "vpn0 + n \<le> 1024"
  shows "a1 * 1024 + vpn0 \<le> v1 * 1024 + v0 \<and> v1 * 1024 + v0 < a1 * 1024 + vpn0 + n \<longleftrightarrow> v1 = a1 \<and> vpn0 \<le> v0 \<and> v0 < vpn0 + n"
proof
  assume h: "a1 * 1024 + vpn0 \<le> v1 * 1024 + v0 \<and> v1 * 1024 + v0 < a1 * 1024 + vpn0 + n"
  then have "v1 < a1 + 1" "a1 < v1 + 1" using assms by auto
  then have "v1 = a1" by simp
  with h show "v1 = a1 \<and> vpn0 \<le> v0 \<and> v0 < vpn0 + n" by simp
qed simp

lemma region_ok:
  assumes R: "roots v r L" and a: "addr mod 4096 = 0" "addr < 4294967296" "addr div 4096 mod 1024 + n \<le> 1024" and nf: "nfree (vm_mmu v) \<noteq> 0"
  shows "\<exists>v' L'. setup_identity_region s pid addr n OS_RWX v = Some v' \<and> roots v' r L' \<and> nfree (vm_mmu v) \<le> Suc (nfree (vm_mmu v'))
     \<and> pid_to_pagetable_base v' = pid_to_pagetable_base v
     \<and> (\<forall>v1<1024. \<forall>v0<1024. leaf_entry v' L' v1 v0 =
          (if addr div 4096 \<le> v1 * 1024 + v0 \<and> v1 * 1024 + v0 < addr div 4096 + n then 1024 * (v1 * 1024 + v0) + 15 else leaf_entry v L v1 v0))"
proof -
  define a1 vpn0 where "a1 = addr div 0x400000" and "vpn0 = addr div 4096 mod 1024"
  have v1: "drop_bit 22 addr = a1" "a1 < 1024" using a(2) by (simp_all add: a1_def drop_bit_eq_div less_mult_imp_div_less)
  have v0: "drop_bit 12 addr AND 0x3FF = vpn0"
    using take_bit_eq_mask [of 10 "drop_bit 12 addr"] by (simp add: vpn0_def take_bit_eq_mod drop_bit_eq_div mask_eq_exp_minus_1)
  have "addr div 4096 = addr div 4096 div 1024 * 1024 + vpn0" by (simp add: vpn0_def)
  moreover have "addr div 4096 div 1024 = a1" by (simp add: a1_def div_mult2_eq [symmetric])
  ultimately have a4: "addr div 4096 = a1 * 1024 + vpn0" by (simp only:)
  have a3: "vpn0 + n \<le> 1024" using a(3) by (simp add: vpn0_def)
  obtain w l L' where w: "(if pt_get v (root v) a1 AND 1 \<noteq> 0
               then Some (v\<lparr>leaf := push_bit 2 (pt_get v (root v) a1) mod 4294967296 AND 0xFFFFF000\<rparr>)
               else do { (l, v) \<leftarrow> alloc_table s pid v; Some (pt_put (root v) a1 (drop_bit 2 l OR 1) (v\<lparr>leaf := l\<rparr>)) }) = Some w"
     "roots w r L'" "L' a1 = Some l" "leaf w = frame_addr l" "nfree (vm_mmu v) \<le> Suc (nfree (vm_mmu w))"
     "pid_to_pagetable_base w = pid_to_pagetable_base v"
     "\<forall>k<1024. \<forall>v0<1024. leaf_entry w L' k v0 = leaf_entry v L k v0"
    using leaf_table [OF R v1(2) nf, of s pid] by blast
  have l: "l < NFRAMES" "l \<noteq> r" and ok: "qemu_ok (paging (vm_mmu w))" using w(2,3) v1(2) by (auto simp: roots_def)
  have "length (vpages w l) = PAGE_SIZE" using ok l(1) by (simp add: qemu_ok_def)
  from identity_loop_set [OF w(4) l(1) this, of vpn0 0 n addr OS_RWX] a3 obtain b where
    b: "identity_loop n 0 vpn0 addr OS_RWX w = pt_set (frame_addr l) b w" "length b = PAGE_SIZE"
      "\<forall>k<1024. get32 b k = (if vpn0 \<le> k \<and> k < vpn0 + n
          then (drop_bit 2 (addr + (k - vpn0) * PAGE_SIZE) OR OS_RWX) mod 4294967296 else get32 (vpages w l) k)" by auto
  let ?v = "pt_set (frame_addr l) b w"
  have pg: "vpages ?v = (vpages w)(l := b)" using l(1) by (simp add: pt_simps)
  have "setup_identity_region s pid addr n OS_RWX v = Some ?v"
    unfolding setup_identity_region_def v1(1) v0 Let_def w(1) by (simp add: b(1))
  moreover have "roots ?v r L'"
    by (rule roots_set [OF w(2) l b(2)])
  moreover have "leaf_entry ?v L' k v0 =
      (if addr div 4096 \<le> k * 1024 + v0 \<and> k * 1024 + v0 < addr div 4096 + n then 1024 * (k * 1024 + v0) + 15 else leaf_entry v L k v0)"
    if k: "k < 1024" "v0 < 1024" for k v0
  proof (cases "k = a1")
    case True
    have "leaf_entry w L' k v0 = get32 (vpages w l) v0" using w(3) True by (simp add: leaf_entry_def)
    then have "leaf_entry v L k v0 = get32 (vpages w l) v0" using w(7) k by simp
    moreover have "leaf_entry ?v L' k v0 = get32 b v0" using w(3) True by (simp add: leaf_entry_def pg)
    ultimately show ?thesis
      unfolding a4 page_split [OF k(2) a3] using b(3) k True leaf_value [OF a(1,2) vpn0_def, of v0] by (simp add: a1_def [symmetric])
  next
    case False
    have "L' k \<noteq> Some l"
    proof
      assume "L' k = Some l"
      with w(2,3) k(1) v1(2) have "k = a1" unfolding roots_def by (metis option.distinct(1))
      with False show False by simp
    qed
    then have "leaf_entry ?v L' k v0 = leaf_entry w L' k v0" by (auto simp: leaf_entry_def pg split: option.splits)
    then show ?thesis unfolding a4 page_split [OF k(2) a3] using w(7) k False by simp
  qed
  ultimately show ?thesis using w(5,6) by (intro exI [of _ ?v] exI [of _ L']) (simp add: pt_simps, simp add: pt_set_def)
qed

subsection \<open>The whole mapping\<close>

definition covered :: "(nat \<times> nat) list \<Rightarrow> nat \<Rightarrow> bool" where
  "covered rs pg \<longleftrightarrow> (\<exists>(addr, n)\<in>set rs. addr div 4096 \<le> pg \<and> pg < addr div 4096 + n)"

lemma regions_ok:
  assumes "roots v r L" "\<forall>(addr, n)\<in>set rs. addr mod 4096 = 0 \<and> addr < 4294967296 \<and> addr div 4096 mod 1024 + n \<le> 1024"
    and "length rs \<le> nfree (vm_mmu v)"
  shows "\<exists>v' L'. setup_regions s pid rs v = Some v' \<and> roots v' r L' \<and> pid_to_pagetable_base v' = pid_to_pagetable_base v
     \<and> (\<forall>v1<1024. \<forall>v0<1024. leaf_entry v' L' v1 v0 =
          (if covered rs (v1 * 1024 + v0) then 1024 * (v1 * 1024 + v0) + 15 else leaf_entry v L v1 v0))"
  using assms
proof (induction rs arbitrary: v L)
  case Nil
  then show ?case by (auto simp: covered_def)
next
  case (Cons x rs)
  obtain addr n where x: "x = (addr, n)" by force
  from Cons.prems have A: "addr mod 4096 = 0" "addr < 4294967296" "addr div 4096 mod 1024 + n \<le> 1024" "nfree (vm_mmu v) \<noteq> 0"
    by (auto simp: x)
  obtain w L1 where w: "setup_identity_region s pid addr n OS_RWX v = Some w" "roots w r L1" "nfree (vm_mmu v) \<le> Suc (nfree (vm_mmu w))"
    "pid_to_pagetable_base w = pid_to_pagetable_base v"
    "\<forall>v1<1024. \<forall>v0<1024. leaf_entry w L1 v1 v0 =
          (if addr div 4096 \<le> v1 * 1024 + v0 \<and> v1 * 1024 + v0 < addr div 4096 + n then 1024 * (v1 * 1024 + v0) + 15 else leaf_entry v L v1 v0)"
    using region_ok [OF Cons.prems(1) A, of s pid] by blast
  have "\<forall>(addr, n)\<in>set rs. addr mod 4096 = 0 \<and> addr < 4294967296 \<and> addr div 4096 mod 1024 + n \<le> 1024" "length rs \<le> nfree (vm_mmu w)"
    using Cons.prems(2,3) w(3) by auto
  from Cons.IH [OF w(2) this] obtain v' L' where "setup_regions s pid rs w = Some v'" "roots v' r L'" "pid_to_pagetable_base v' = pid_to_pagetable_base w"
    "\<forall>v1<1024. \<forall>v0<1024. leaf_entry v' L' v1 v0 = (if covered rs (v1 * 1024 + v0) then 1024 * (v1 * 1024 + v0) + 15 else leaf_entry w L1 v1 v0)" by blast
  with w show ?case by (intro exI [of _ v'] exI [of _ L']) (auto simp: x covered_def)
qed

lemma walk_entry:
  assumes R: "roots v r L" and va: "va < 4294967296"
  shows "sv32_walk v (root v) va =
    (let e = leaf_entry v L (va div 0x400000) (va div 4096 mod 1024)
     in if e mod 2 = 0 \<or> e div 2 mod 8 = 0 then None else Some (e mod 1024, e div 1024 * 4096 + va mod 4096))"
proof -
  let ?v1 = "va div 0x400000"
  have v1: "?v1 < 1024" using va by (simp add: less_mult_imp_div_less)
  have p: "pt_get v (root v) ?v1 = (case L ?v1 of None \<Rightarrow> 0 | Some l \<Rightarrow> frame_addr l div 4 + 1)" using R v1 by (simp add: roots_def pt_simps)
  show ?thesis
  proof (cases "L ?v1")
    case None
    then show ?thesis using p by (simp add: sv32_walk_def leaf_entry_def)
  next
    case (Some l)
    then have l: "l < NFRAMES" using R v1 by (auto simp: roots_def)
    let ?e = "frame_addr l div 4 + 1"
    have "pt_get v (root v) ?v1 = ?e" using p Some by simp
    moreover have "pt_get v (?e div 1024 * PAGE_SIZE) (va div 4096 mod 1024) = leaf_entry v L ?v1 (va div 4096 mod 1024)"
      unfolding frame_addr(2) [OF l] using l Some by (simp add: pt_simps leaf_entry_def)
    ultimately show ?thesis unfolding sv32_walk_def Let_def by (simp only: frame_addr(4,7) [OF l]) simp
  qed
qed

lemma page_range:
  fixes addr va n :: nat
  assumes "addr mod 4096 = 0"
  shows "addr \<le> va \<and> va < addr + n * PAGE_SIZE \<longleftrightarrow> addr div 4096 \<le> va div 4096 \<and> va div 4096 < addr div 4096 + n"
proof -
  define a where "a = addr div 4096"
  have addr: "addr = a * 4096" using assms by (auto simp: a_def)
  have "a * 4096 \<le> va \<longleftrightarrow> a \<le> va div 4096" by (simp add: less_eq_div_iff_mult_less_eq)
  moreover have "va < (a + n) * 4096 \<longleftrightarrow> va div 4096 < a + n" by (simp add: div_less_iff_less_mult)
  ultimately show ?thesis unfolding addr by (simp add: algebra_simps)
qed

lemma identity_regions_ok:
  "\<forall>(addr, n)\<in>set identity_regions. addr mod 4096 = 0 \<and> addr < 4294967296 \<and> addr div 4096 mod 1024 + n \<le> 1024"
  by (simp add: identity_regions_def upt_rec)

lemma covered_regions: "covered identity_regions (va div 4096) = in_regions identity_regions va"
proof -
  have "(a \<le> va \<and> va < a + n * PAGE_SIZE) = (a div 4096 \<le> va div 4096 \<and> va div 4096 < a div 4096 + n)" if "(a, n) \<in> set identity_regions" for a n
    using identity_regions_ok that by (intro page_range) auto
  then show ?thesis unfolding covered_def in_regions_def by (intro bex_cong refl) (auto simp: split_beta)
qed

text \<open>
  C30. The identity mapping: on QEMU, with 16 frames free, \<^verbatim>\<open>pagetable_identity_mapping\<close> succeeds,
  and an Sv32 page table walk from the root it records for the process gives, for every 32-bit
  address in one of the fifteen regions, that same address, readable, writable and executable in
  supervisor mode, and a page fault for every other address.
\<close>

theorem pagetable_identity:
  assumes "qemu_ok (paging (vm_mmu v))" "length (table (vm_mmu v)) = NFRAMES" "16 \<le> nfree (vm_mmu v)"
  shows "\<exists>v'. pagetable_identity_mapping s pid v = Some v' \<and> pid_to_pagetable_base v' pid = root v'
     \<and> (\<forall>va<4294967296. sv32_walk v' (root v') va = (if in_regions identity_regions va then Some (OS_RWX, va) else None))"
proof -
  have "nfree (vm_mmu v) \<noteq> 0" using assms(3) by simp
  from alloc_table_ok [OF assms(1,2) this, of s pid] obtain f w where w: "alloc_table s pid v = Some (frame_addr f, w)" "f < NFRAMES"
    "qemu_ok (paging (vm_mmu w))" "length (table (vm_mmu w)) = NFRAMES" "vpages w = (vpages v)(f := replicate PAGE_SIZE 0)"
    "use (table (vm_mmu w) ! f)" "Suc (nfree (vm_mmu w)) = nfree (vm_mmu v)" by blast
  let ?w = "w\<lparr>root := frame_addr f, pid_to_pagetable_base := (pid_to_pagetable_base w)(pid := frame_addr f)\<rparr>"
  have "roots ?w f (\<lambda>_. None)" using w(2-6) by (simp add: roots_def get32_replicate0)
  moreover have "length identity_regions \<le> nfree (vm_mmu ?w)" using w(7) assms(3) by (simp add: identity_regions_def)
  ultimately obtain v' L where v': "setup_regions s pid identity_regions ?w = Some v'" "roots v' f L"
    "pid_to_pagetable_base v' = pid_to_pagetable_base ?w"
    "\<forall>v1<1024. \<forall>v0<1024. leaf_entry v' L v1 v0 =
       (if covered identity_regions (v1 * 1024 + v0) then 1024 * (v1 * 1024 + v0) + 15 else leaf_entry ?w (\<lambda>_. None) v1 v0)"
    using regions_ok [OF _ identity_regions_ok, of ?w f "\<lambda>_. None" s pid] by blast
  have "sv32_walk v' (root v') va = (if in_regions identity_regions va then Some (OS_RWX, va) else None)" if va: "va < 4294967296" for va
  proof -
    define pg where "pg = va div 4096"
    have "va div 0x400000 = pg div 1024" unfolding pg_def by (simp add: div_mult2_eq [symmetric])
    then have s: "va div 0x400000 * 1024 + va div 4096 mod 1024 = pg" by (simp add: pg_def)
    have "va div 0x400000 < 1024" using va by (simp add: less_mult_imp_div_less)
    with v'(4) s have e: "leaf_entry v' L (va div 0x400000) (va div 4096 mod 1024) = (if covered identity_regions pg then 1024 * pg + 15 else 0)"
      by (simp add: leaf_entry_def)
    have c: "covered identity_regions pg = in_regions identity_regions va" unfolding pg_def by (rule covered_regions)
    have "1024 * pg + 15 = 1 + (512 * pg + 7) * 2" "512 * pg + 7 = 7 + 64 * pg * 8" by simp_all
    then have b: "(1024 * pg + 15) mod 2 = 1" "(1024 * pg + 15) div 2 = 512 * pg + 7" "(512 * pg + 7) mod 8 = 7"
      by (simp_all only: mod_mult_self1 div_mult_self1) simp_all
    have d: "(1024 * pg + 15) div 1024 = pg" "(1024 * pg + 15) mod 1024 = 15" "pg * 4096 + va mod 4096 = va" by (simp_all add: pg_def)
    show ?thesis unfolding walk_entry [OF v'(2) va] e c Let_def by (simp only: b d split: if_split) simp
  qed
  moreover have "root v' = frame_addr f" using v'(2) by (simp add: roots_def)
  moreover have "pagetable_identity_mapping s pid v = Some v'" using w(1) v'(1) by (simp add: pagetable_identity_mapping_def)
  ultimately show ?thesis using v'(3) by (intro exI [of _ v']) simp
qed

definition demo_vm :: "(sim_card \<times> byte) vm" where
  "demo_vm = \<lparr>vm_mmu = \<lparr>table = replicate 256 no_mapping, curr_vm_pid = -1, upages = (\<lambda>_. replicate 4096 0), grass_mem = [],
     paging = full_pager\<lparr>pg_platform := QEMU, pg_disk := blank_disk\<lparr>dd_type := FLASH_ROM\<rparr>\<rparr>, translation = PAGE_TABLE\<rparr>,
     root = 0, leaf = 0, pid_to_pagetable_base = (\<lambda>_. 0), satp = 0, pmpaddr0 = 0, pmpcfg0 = 0\<rparr>"

theorem pagetable_identity_witness:
  "\<exists>v'. pagetable_identity_mapping sim_spi 0 demo_vm = Some v' \<and> sv32_walk v' (root v') 0x10013004 = Some (0xF, 0x10013004)
     \<and> sv32_walk v' (root v') 0x10014000 = None"
proof -
  have "qemu_ok (paging (vm_mmu demo_vm))" "length (table (vm_mmu demo_vm)) = NFRAMES" "16 \<le> nfree (vm_mmu demo_vm)"
    by (simp_all add: demo_vm_def qemu_ok_def full_pager_def nfree_def no_mapping_def)
  moreover have "in_regions identity_regions 0x10013004" "\<not> in_regions identity_regions 0x10014000"
    by (simp_all add: in_regions_def identity_regions_def upt_rec)
  ultimately show ?thesis using pagetable_identity [of demo_vm sim_spi 0] by fastforce
qed

end
