(* ===== verification/Cstring.thy ===== *)
theory Cstring
  imports Prelude
begin

section \<open>Strings of the C library\<close>

text \<open>
  The functions of \<^verbatim>\<open>string.h\<close> and \<^verbatim>\<open>stdlib.h\<close> that the servers, the shell and the applications
  use, on bytes. A string in memory ends at its first zero; the list \<open>s\<close> of a string does not
  hold it. Reading a string that has no zero in its buffer is undefined and \<open>None\<close>.
\<close>

definition cstr :: "byte list \<Rightarrow> byte list option" where
  "cstr b = (if 0 \<in> set b then Some (takeWhile (\<lambda>c. c \<noteq> 0) b) else None)"

definition chars :: "string \<Rightarrow> byte list" where
  "chars s = map of_char s"

text \<open>\<^verbatim>\<open>strncpy(dst, s, n)\<close>: the string, cut at \<open>n\<close> or followed by zeros up to there.\<close>

definition strncpy :: "nat \<Rightarrow> byte list \<Rightarrow> byte list" where
  "strncpy n s = take n s @ replicate (n - length s) 0"

definition isspace :: "byte \<Rightarrow> bool" where
  "isspace c \<longleftrightarrow> c = 32 \<or> 9 \<le> c \<and> c \<le> 13"

definition isdigit :: "byte \<Rightarrow> bool" where
  "isdigit c \<longleftrightarrow> 48 \<le> c \<and> c \<le> 57"

fun atoi_digits :: "int \<Rightarrow> byte list \<Rightarrow> int" where
  "atoi_digits n [] = n"
| "atoi_digits n (c # cs) = (if isdigit c then atoi_digits (10 * n + (uint c - 48)) cs else n)"

definition atoi :: "byte list \<Rightarrow> int" where
  "atoi s = (case dropWhile isspace s of
       [] \<Rightarrow> 0
     | c # cs \<Rightarrow> if c = 45 then - atoi_digits 0 cs else if c = 43 then atoi_digits 0 cs else atoi_digits 0 (c # cs))"

lemma of_char_less: "(of_char c :: nat) < 256"
  using of_char_mod_256 [of c, where ?'a = nat] by (metis mod_less_divisor zero_less_numeral)

lemma byte_char_eq: "(of_char c :: byte) = of_char d \<longleftrightarrow> c = d"
proof
  assume "(of_char c :: byte) = of_char d"
  then have "unat (of_nat (of_char c) :: byte) = unat (of_nat (of_char d) :: byte)" by (simp only: of_nat_of_char)
  then have "(of_char c :: nat) = of_char d" using of_char_less [of c] of_char_less [of d] by (simp add: unat_of_nat)
  then show "c = d" by simp
qed simp

lemma chars_eq [simp]: "chars s = chars t \<longleftrightarrow> s = t"
  by (auto simp: chars_def inj_map_eq_map inj_def byte_char_eq)

lemma length_chars [simp]: "length (chars s) = length s"
  by (simp add: chars_def)

lemma tl_chars: "tl (chars s) = chars (tl s)"
  by (simp add: chars_def map_tl)

lemma chars_append: "chars s @ chars t = chars (s @ t)"
  by (simp add: chars_def)

lemma length_strncpy [simp]: "length (strncpy n s) = n"
  by (simp add: strncpy_def)

lemma strncpy_short: "length s < n \<Longrightarrow> strncpy n s = s @ 0 # replicate (n - length s - 1) 0"
  by (cases "n - length s") (simp_all add: strncpy_def)

lemma cstr_append: "0 \<notin> set s \<Longrightarrow> cstr (s @ 0 # r) = Some s"
proof -
  assume "0 \<notin> set s"
  then have "takeWhile (\<lambda>c. c \<noteq> 0) (s @ 0 # r) = s" by (induction s) auto
  then show ?thesis by (simp add: cstr_def)
qed

lemma cstr_strncpy: "0 \<notin> set s \<Longrightarrow> length s < n \<Longrightarrow> cstr (strncpy n s) = Some s"
proof -
  assume s: "0 \<notin> set s" "length s < n"
  then obtain k where "n - length s = Suc k" by (metis Suc_diff_Suc)
  with s show ?thesis using cstr_append [of s "replicate k 0"] by (simp add: strncpy_def)
qed

lemma cstr_simps [simp]: "cstr [] = None" "cstr (c # b) = (if c = 0 then Some [] else map_option ((#) c) (cstr b))"
  by (auto simp: cstr_def)

lemma cstrD: "cstr b = Some s \<Longrightarrow> 0 \<notin> set s \<and> length s < length b"
proof (induction b arbitrary: s)
  case (Cons c b)
  then show ?case by (auto split: if_splits)
qed simp

text \<open>A decimal number, and what \<^verbatim>\<open>atoi\<close> reads of it.\<close>

lemma isdigit_simps: "isdigit c \<Longrightarrow> \<not> isspace c \<and> c \<noteq> 45 \<and> c \<noteq> 43 \<and> c \<noteq> 32"
  by (auto simp: isdigit_def isspace_def word_le_nat_alt)

lemma atoi_digits_append:
  assumes "\<forall>c\<in>set ds. isdigit c"
  shows "atoi_digits n (ds @ 32 # r) = atoi_digits n ds"
  using assms by (induction n ds rule: atoi_digits.induct) (auto simp: isdigit_def word_le_nat_alt)

lemma atoi_number:
  assumes "ds \<noteq> []" "\<forall>c\<in>set ds. isdigit c"
  shows "atoi (replicate k 32 @ ds @ 32 # r) = atoi_digits 0 ds"
proof -
  have "dropWhile isspace (replicate k 32 @ ds @ 32 # r) = dropWhile isspace (ds @ 32 # r)"
    by (induction k) (simp_all add: isspace_def)
  also obtain c cs where c: "ds = c # cs" using assms(1) by (cases ds) auto
  then have "dropWhile isspace (ds @ 32 # r) = ds @ 32 # r" using assms(2) isdigit_simps by simp
  finally have "dropWhile isspace (replicate k 32 @ ds @ 32 # r) = ds @ 32 # r" .
  moreover have "c \<noteq> 45" "c \<noteq> 43" using c assms(2) isdigit_simps by auto
  ultimately have "atoi (replicate k 32 @ ds @ 32 # r) = atoi_digits 0 (ds @ 32 # r)" by (simp add: atoi_def c)
  then show ?thesis using atoi_digits_append [OF assms(2)] by simp
qed

end
