(* ===== verification/Servers.thy ===== *)
theory Servers
  imports Cstring Sd_Sim Ipc
begin

section \<open>The file and the directory server\<close>

text \<open>
  \<^verbatim>\<open>apps/system/sys_file.c\<close>, \<^verbatim>\<open>apps/system/sys_dir.c\<close> and their client side, \<^verbatim>\<open>library/servers/servers.c\<close>.
  Messages are the bytes of the structures of \<^verbatim>\<open>servers.h\<close>. A send puts the message at the start
  of the sender's 1024 bytes for system calls, and the receiver gets all of them (\<open>delivered\<close>); what they held
  before, and what the fields of a structure hold that nobody sets, is an argument.
\<close>

abbreviation (input) FILE_READ :: nat where "FILE_READ \<equiv> 1"
abbreviation (input) FILE_OK :: nat where "FILE_OK \<equiv> 0"
abbreviation (input) FILE_ERROR :: nat where "FILE_ERROR \<equiv> 1"
abbreviation (input) DIR_LOOKUP :: nat where "DIR_LOOKUP \<equiv> 1"
abbreviation (input) DIR_OK :: nat where "DIR_OK \<equiv> 0"
abbreviation (input) DIR_ERROR :: nat where "DIR_ERROR \<equiv> 1"
abbreviation (input) DIR_NAME_SIZE :: nat where "DIR_NAME_SIZE \<equiv> 32"

definition delivered :: "byte list \<Rightarrow> byte list \<Rightarrow> byte list" where
  "delivered msg old = msg @ drop (length msg) old"

definition le32 :: "nat \<Rightarrow> byte list" where
  "le32 v = [of_nat v, of_nat (v div 256), of_nat (v div 65536), of_nat (v div 16777216)]"

subsection \<open>The file server\<close>

text \<open>
  One turn of the loop of \<^verbatim>\<open>sys_file.c\<close>: the request in \<open>buf\<close> is answered, the reply built in the same
  buffer. The result is the message that is sent back and the buffer; \<open>None\<close> is \<^verbatim>\<open>FATAL\<close>.
\<close>

definition file_serve :: "'d inode_store \<Rightarrow> byte list \<Rightarrow> 'd \<Rightarrow> (byte list \<times> 'd) option" where
  "file_serve fs buf d =
    (if get32 buf 0 = FILE_READ
     then do { (r, block, d) \<leftarrow> st_read fs (get32 buf 1) (get32 buf 2) (take BLOCK_SIZE (drop 4 buf)) d;
               let buf = take 4 buf @ block @ drop (4 + BLOCK_SIZE) buf;
               let buf = put32 buf 0 (if r = 0 then FILE_OK else FILE_ERROR);
               Some (take (4 + BLOCK_SIZE) buf, d) }
     else None)"

text \<open>\<^verbatim>\<open>file_read\<close> of \<^verbatim>\<open>servers.c\<close>: the request it sends and what it makes of the reply.\<close>

definition file_read_req :: "int \<Rightarrow> int \<Rightarrow> byte list \<Rightarrow> byte list" where
  "file_read_req file_ino offset unset = le32 FILE_READ @ le32 (u32_of_int file_ino) @ le32 (u32_of_int offset) @ unset"

definition file_read_result :: "int \<Rightarrow> byte list \<Rightarrow> (int \<times> byte list) option" where
  "file_read_result sender buf =
    (if sender \<noteq> GPID_FILE then None
     else Some (if get32 buf 0 = FILE_OK then 0 else - 1, take BLOCK_SIZE (drop 4 buf)))"

text \<open>The whole call, with the server in between.\<close>

definition file_read :: "'d inode_store \<Rightarrow> (nat \<Rightarrow> byte list) \<Rightarrow> int \<Rightarrow> int \<Rightarrow> 'd \<Rightarrow> (int \<times> byte list \<times> 'd) option" where
  "file_read fs old file_ino offset d =
    do { (reply, d) \<leftarrow> file_serve fs (delivered (file_read_req file_ino offset (take BLOCK_SIZE (old 0))) (old 1)) d;
         (r, block) \<leftarrow> file_read_result GPID_FILE (delivered reply (old 2));
         Some (r, block, d) }"

subsection \<open>The directory server\<close>

text \<open>
  The loop of \<^verbatim>\<open>dir_do_lookup\<close> on the string \<open>str\<close>, for \<^verbatim>\<open>i < strlen(buf) - namelen\<close>. That difference is
  unsigned; with a name longer than the directory the loop leaves the buffer, which is \<open>None\<close>.
\<close>

function dir_scan :: "byte list \<Rightarrow> byte list \<Rightarrow> nat \<Rightarrow> int" where
  "dir_scan name str i =
    (if i < length str - length name
     then if take (length name) (drop i str) = name \<and> str ! (i + length name) = 32 \<and> (i = 0 \<or> str ! (i - 1) = 32)
          then atoi (drop (i + length name) str)
          else dir_scan name str (i + 1)
     else - 1)"
  by pat_completeness auto

termination
  by (relation "measure (\<lambda>(name, str, i). length str - length name - i)") auto

declare dir_scan.simps [simp del]

definition dir_find :: "byte list \<Rightarrow> byte list \<Rightarrow> int option" where
  "dir_find name buf =
    do { str \<leftarrow> cstr buf; if length name > length str then None else Some (dir_scan name str 0) }"

definition dir_do_lookup :: "'d inode_store \<Rightarrow> (nat \<Rightarrow> byte list) \<Rightarrow> int \<Rightarrow> byte list \<Rightarrow> 'd \<Rightarrow> (int \<times> 'd) option" where
  "dir_do_lookup fs old dir_ino name d =
    do { (_, buf, d) \<leftarrow> file_read fs old dir_ino 0 d; ino \<leftarrow> dir_find name buf; Some (ino, d) }"

definition dir_serve :: "'d inode_store \<Rightarrow> (nat \<Rightarrow> byte list) \<Rightarrow> byte list \<Rightarrow> 'd \<Rightarrow> (byte list \<times> 'd) option" where
  "dir_serve fs old buf d =
    (if get32 buf 0 = DIR_LOOKUP
     then do { name \<leftarrow> cstr (drop 8 buf);
               (ino, d) \<leftarrow> dir_do_lookup fs old (int_of_u32 (get32 buf 1)) name d;
               let buf = put32 buf 1 (u32_of_int ino);
               let buf = put32 buf 0 (if ino = - 1 then DIR_ERROR else DIR_OK);
               Some (take 8 buf, d) }
     else None)"

text \<open>\<^verbatim>\<open>dir_lookup\<close> of \<^verbatim>\<open>servers.c\<close>; \<^verbatim>\<open>strcpy\<close> of a name that does not fit is \<open>None\<close>.\<close>

definition dir_lookup_req :: "int \<Rightarrow> byte list \<Rightarrow> byte list \<Rightarrow> byte list option" where
  "dir_lookup_req dir_ino name unset =
    (if DIR_NAME_SIZE \<le> length name then None
     else Some (le32 DIR_LOOKUP @ le32 (u32_of_int dir_ino) @ name @ 0 # drop (length name + 1) unset))"

definition dir_lookup_result :: "int \<Rightarrow> byte list \<Rightarrow> int option" where
  "dir_lookup_result sender buf =
    (if sender \<noteq> GPID_DIR then None else Some (if get32 buf 0 = DIR_OK then int_of_u32 (get32 buf 1) else - 1))"

definition dir_lookup :: "'d inode_store \<Rightarrow> (nat \<Rightarrow> byte list) \<Rightarrow> int \<Rightarrow> byte list \<Rightarrow> 'd \<Rightarrow> (int \<times> 'd) option" where
  "dir_lookup fs old dir_ino name d =
    do { req \<leftarrow> dir_lookup_req dir_ino name (take DIR_NAME_SIZE (old 3));
         (reply, d) \<leftarrow> dir_serve fs old (delivered req (old 4)) d;
         r \<leftarrow> dir_lookup_result GPID_DIR (delivered reply (old 5));
         Some (r, d) }"

subsection \<open>Messages\<close>

lemma length_le32 [simp]: "length (le32 v) = 4"
  by (simp add: le32_def)

lemma get32_le32 [simp]: "get32 (le32 v @ r) 0 = v mod 4294967296" "get32 (le32 v @ r) (Suc i) = get32 r i"
proof -
  show "get32 (le32 v @ r) 0 = v mod 4294967296" by (simp add: get32_def le32_def unat_byte_of_nat le32_split)
  show "get32 (le32 v @ r) (Suc i) = get32 r i" by (simp add: get32_def le32_def add.commute)
qed

lemma length_four: "length h = 4 \<Longrightarrow> h = [h ! 0, h ! 1, h ! 2, h ! 3]"
  by (rule nth_equalityI) (auto simp: less_Suc_eq numeral_eq_Suc)

lemma put32_head: "length h = 4 \<Longrightarrow> put32 (h @ r) 0 v = le32 v @ r"
  by (subst length_four) (simp_all add: put32_def le32_def)

lemma put32_second: "length h = 4 \<Longrightarrow> length h' = 4 \<Longrightarrow> put32 (h @ h' @ r) 1 v = h @ le32 v @ r"
  by (subst (1 2) length_four [of h], simp, subst length_four [of h']) (simp_all add: put32_def le32_def)

lemma u32_nat: "i < 2147483648 \<Longrightarrow> u32_of_int (int i) = i"
  by (simp add: u32_of_int_def)

lemma u32_of_int_mod [simp]: "u32_of_int v mod 4294967296 = u32_of_int v"
  by (simp add: u32_of_int_def nat_less_iff)

lemma file_read_eq:
  assumes "length (old 0) = 1024" "length (old 1) = 1024" "length (old 2) = 1024" "ino < 2147483648" "off < 2147483648"
    and r: "\<forall>buf. length buf = BLOCK_SIZE \<longrightarrow> (\<exists>b d'. st_read fs ino off buf d = Some (r, b, d') \<and> length b = BLOCK_SIZE \<and> P b d')"
  shows "\<exists>b d'. file_read fs old (int ino) (int off) d = Some (if r = 0 then 0 else - 1, b, d') \<and> length b = BLOCK_SIZE \<and> P b d'"
proof -
  let ?m = "delivered (file_read_req (int ino) (int off) (take 512 (old 0))) (old 1)"
  have g: "get32 ?m 0 = 1" "get32 ?m 1 = ino" "get32 ?m 2 = off"
    using assms(4,5) by (simp_all add: delivered_def file_read_req_def u32_nat numeral_2_eq_2)
  have l: "length ?m = 1024" using assms(1,2) by (simp add: delivered_def file_read_req_def)
  then obtain b d' where b: "st_read fs ino off (take 512 (drop 4 ?m)) d = Some (r, b, d')" "length b = 512" "P b d'" using r by force
  let ?s = "if r = 0 then 0 else 1 :: nat"
  have "put32 (take 4 ?m @ b @ drop 516 ?m) 0 ?s = le32 ?s @ b @ drop 516 ?m" using l by (intro put32_head) simp
  then have "file_serve fs ?m d = Some (le32 ?s @ b, d')" using b g by (simp add: file_serve_def)
  moreover have "file_read_result GPID_FILE (delivered (le32 ?s @ b) (old 2)) = Some (if r = 0 then 0 else - 1, b)"
    using b(2) by (simp add: file_read_result_def delivered_def)
  ultimately show ?thesis using b(2,3) by (intro exI [of _ b] exI [of _ d']) (simp add: file_read_def)
qed

subsection \<open>Searching a directory\<close>

text \<open>The text of a directory: per entry the name, spaces, the inode number in decimal and a space.\<close>

type_synonym dir_entry = "byte list \<times> nat \<times> byte list"

definition dir_text :: "dir_entry list \<Rightarrow> byte list" where
  "dir_text es = concat (map (\<lambda>(n, k, ds). n @ 32 # replicate k 32 @ ds @ [32]) es)"

definition dir_word :: "byte list \<Rightarrow> bool" where
  "dir_word w \<longleftrightarrow> w \<noteq> [] \<and> 32 \<notin> set w \<and> 0 \<notin> set w"

definition dir_ok :: "dir_entry list \<Rightarrow> bool" where
  "dir_ok es \<longleftrightarrow> list_all (\<lambda>(n, k, ds). dir_word n \<and> ds \<noteq> [] \<and> list_all isdigit ds \<and> atoi_digits 0 ds < 2147483648) es"

definition dir_entries :: "dir_entry list \<Rightarrow> byte list \<Rightarrow> int option" where
  "dir_entries es = map_of (map (\<lambda>(n, k, ds). (n, atoi_digits 0 ds)) es)"

text \<open>The search as a recursion over the rest of the text; \<open>p\<close>: the character before is a space.\<close>

fun scan :: "byte list \<Rightarrow> bool \<Rightarrow> byte list \<Rightarrow> int" where
  "scan name p [] = - 1"
| "scan name p (c # cs) =
    (if length name < length (c # cs)
     then if p \<and> take (length name) (c # cs) = name \<and> (c # cs) ! length name = 32 then atoi (drop (length name) (c # cs))
          else scan name (c = 32) cs
     else - 1)"

lemma scan_unfold:
  "scan name p s = (if length name < length s
     then if p \<and> take (length name) s = name \<and> s ! length name = 32 then atoi (drop (length name) s)
          else scan name (hd s = 32) (tl s)
     else - 1)"
  by (cases s) simp_all

declare scan.simps [simp del]

lemma dir_scan_eq: "dir_scan name str i = scan name (i = 0 \<or> str ! (i - 1) = 32) (drop i str)"
proof (induction name str i rule: dir_scan.induct)
  case (1 name str i)
  have l: "(i < length str - length name) = (length name < length (drop i str))" by auto
  show ?case
  proof (cases "i < length str - length name")
    case False
    then show ?thesis unfolding dir_scan.simps [of name str i] scan_unfold [of name _ "drop i str"] l by simp
  next
    case True
    have n: "str ! (i + length name) = drop i str ! length name" using True by simp
    have t: "tl (drop i str) = drop (i + 1) str" "hd (drop i str) = str ! i" "drop (i + length name) str = drop (length name) (drop i str)"
      using True by (simp_all add: tl_drop drop_Suc hd_drop_conv_nth add.commute)
    have IH: "\<not> (take (length name) (drop i str) = name \<and> str ! (i + length name) = 32 \<and> (i = 0 \<or> str ! (i - 1) = 32)) \<Longrightarrow>
      dir_scan name str (i + 1) = scan name (str ! i = 32) (drop (i + 1) str)" using 1 True by simp
    show ?thesis unfolding dir_scan.simps [of name str i] scan_unfold [of name _ "drop i str"] t n [symmetric]
      using True IH l by (simp only: if_True simp_thms) argo
  qed
qed

text \<open>What the search does at the front of the rest: it passes other words and spaces, and stops at the name.\<close>

lemma scan_short: "length s \<le> length name \<Longrightarrow> scan name p s = - 1"
  by (subst scan_unfold) simp

lemma scan_hit: "scan name True (name @ 32 # r) = atoi (32 # r)"
  by (subst scan_unfold) simp

lemma scan_space: "dir_word name \<Longrightarrow> scan name p (32 # r) = scan name True r"
proof -
  assume n: "dir_word name"
  then obtain c cs where c: "name = c # cs" "c \<noteq> 32" by (cases name) (auto simp: dir_word_def)
  have "scan name p (32 # r) = (if length name < length (32 # r) then scan name True r else - 1)"
    by (subst scan_unfold) (simp add: c)
  then show ?thesis using scan_short [of r name True] by (cases "length name < length (32 # r)") simp_all
qed

lemma scan_inside: "dir_word name \<Longrightarrow> 32 \<notin> set w \<Longrightarrow> scan name False (w @ 32 # r) = scan name True r"
proof (induction w)
  case Nil
  then show ?case by (simp add: scan_space)
next
  case (Cons c w)
  have "scan name False (c # w @ 32 # r) = (if length name < length (c # w @ 32 # r) then scan name False (w @ 32 # r) else - 1)"
    using Cons.prems by (subst scan_unfold) auto
  moreover have "scan name False (w @ 32 # r) = scan name True r" using Cons by simp
  moreover have "scan name True r = - 1" if "length (c # w @ 32 # r) \<le> length name"
    using that by (intro scan_short) simp
  ultimately show ?case by simp
qed

lemma word_prefix: "32 \<notin> set w \<Longrightarrow> 32 \<notin> set v \<Longrightarrow> w @ 32 # r = v @ 32 # q \<Longrightarrow> w = v" for w v :: "byte list"
proof (induction w arbitrary: v)
  case Nil
  then show ?case by (cases v) auto
next
  case (Cons c w)
  then show ?case by (cases v) auto
qed

lemma scan_other:
  assumes "dir_word name" "dir_word w" "w \<noteq> name"
  shows "scan name True (w @ 32 # r) = scan name True r"
proof -
  obtain c v where w: "w = c # v" "c \<noteq> 32" "32 \<notin> set v" using assms(2) by (cases w) (auto simp: dir_word_def)
  let ?s = "w @ 32 # r"
  have no: "\<not> (take (length name) ?s = name \<and> ?s ! length name = 32)" if "length name < length ?s"
  proof
    assume h: "take (length name) ?s = name \<and> ?s ! length name = 32"
    then have "?s = name @ 32 # drop (Suc (length name)) ?s" using id_take_nth_drop [OF that] by metis
    with assms show False using word_prefix [of w name r] by (auto simp: dir_word_def)
  qed
  have "scan name True ?s = (if length name < length ?s then scan name False (v @ 32 # r) else - 1)"
    using no w by (subst scan_unfold) auto
  moreover have "scan name False (v @ 32 # r) = scan name True r" by (rule scan_inside [OF assms(1) w(3)])
  moreover have "scan name True r = - 1" if "length ?s \<le> length name" using that by (intro scan_short) simp
  ultimately show ?thesis by simp
qed

lemma scan_spaces: "dir_word name \<Longrightarrow> scan name True (replicate k 32 @ r) = scan name True r"
  by (induction k) (simp_all add: scan_space)

lemma dir_text_simps [simp]:
  "dir_text [] = []" "dir_text ((n, k, ds) # es) = n @ 32 # replicate k 32 @ ds @ 32 # dir_text es"
  by (simp_all add: dir_text_def)

lemma digits_word: "ds \<noteq> [] \<Longrightarrow> list_all isdigit ds \<Longrightarrow> dir_word ds"
  by (auto simp: dir_word_def list_all_iff isdigit_def word_le_nat_alt)

lemma scan_text:
  assumes "dir_ok es" "dir_word name" "\<not> list_all isdigit name"
  shows "scan name True (dir_text es) = (case dir_entries es name of Some v \<Rightarrow> v | None \<Rightarrow> - 1)"
  using assms(1)
proof (induction es)
  case Nil
  then show ?case by (simp add: dir_entries_def scan.simps)
next
  case (Cons e es)
  obtain n k ds where e: "e = (n, k, ds)" by (cases e) auto
  have E: "dir_word n" "ds \<noteq> []" "list_all isdigit ds" "dir_ok es" using Cons.prems by (simp_all add: e dir_ok_def)
  show ?case
  proof (cases "n = name")
    case True
    have "scan name True (dir_text (e # es)) = atoi (replicate (Suc k) 32 @ ds @ 32 # dir_text es)"
      using scan_hit [of name] by (simp add: e True)
    also have "\<dots> = atoi_digits 0 ds" using E(2,3) by (intro atoi_number) (simp_all add: list_all_iff)
    finally show ?thesis by (simp add: e True dir_entries_def)
  next
    case False
    have "ds \<noteq> name" using assms(3) E(3) by auto
    then have "scan name True (dir_text (e # es)) = scan name True (dir_text es)"
      using scan_other [OF assms(2) E(1) False] scan_other [OF assms(2) digits_word [OF E(2,3)]] scan_spaces [OF assms(2)]
      by (simp add: e)
    then show ?thesis using Cons.IH [OF E(4)] False by (simp add: e dir_entries_def)
  qed
qed

lemma dir_text_nonzero: "dir_ok es \<Longrightarrow> 0 \<notin> set (dir_text es)"
proof (induction es)
  case (Cons e es)
  obtain n k ds where "e = (n, k, ds)" by (cases e) auto
  with Cons show ?case using digits_word [of ds] by (auto simp: dir_ok_def dir_word_def)
qed simp

lemma dir_find_text:
  assumes "dir_ok es" "dir_word name" "\<not> list_all isdigit name" "length name \<le> length (dir_text es)"
  shows "dir_find name (dir_text es @ 0 # r) = Some (case dir_entries es name of Some v \<Rightarrow> v | None \<Rightarrow> - 1)"
  using assms(4) scan_text [OF assms(1-3)] dir_scan_eq [of name "dir_text es" 0]
  by (simp add: dir_find_def cstr_append [OF dir_text_nonzero [OF assms(1)]])

lemma atoi_digits_nonneg: "0 \<le> n \<Longrightarrow> 0 \<le> atoi_digits n ds"
  by (induction n ds rule: atoi_digits.induct) (simp_all add: isdigit_def word_le_def)

lemma dir_entries_range: "dir_ok es \<Longrightarrow> dir_entries es name = Some v \<Longrightarrow> 0 \<le> v \<and> v < 2147483648"
  using atoi_digits_nonneg [of 0]
  by (induction es) (auto simp: dir_entries_def dir_ok_def split: if_splits)

subsection \<open>The servers on a file system\<close>

lemma dir_serve_ok:
  assumes "dir_do_lookup fs old (int i) name d = Some (v, d')" "- 1 \<le> v" "v < 2147483648" "i < 2147483648"
    and "dir_word name" "length name < 32" "\<forall>n. length (old n) = 1024"
  shows "dir_lookup fs old (int i) name d = Some (v, d')"
proof -
  define m where "m = delivered (le32 1 @ le32 i @ name @ 0 # drop (length name + 1) (take 32 (old 3))) (old 4)"
  then obtain r where m: "m = le32 1 @ le32 i @ name @ 0 # r" by (simp add: delivered_def)
  have g: "get32 m 0 = 1" "get32 m 1 = i" "drop 8 m = name @ 0 # r" using assms(4) by (simp_all add: m)
  have c: "cstr (name @ 0 # r) = Some name" using assms(5) by (intro cstr_append) (simp add: dir_word_def)
  define s :: nat where "s = (if v = - 1 then 1 else 0)"
  have p: "take 8 (put32 (put32 m 1 (u32_of_int v)) 0 s) = le32 s @ le32 (u32_of_int v)"
    using put32_second [of "le32 1" "le32 i" "name @ 0 # r"] put32_head [of "le32 1"] by (simp add: m)
  have "dir_serve fs old m d = Some (le32 s @ le32 (u32_of_int v), d')"
    unfolding dir_serve_def g using assms(1,4) c p by (simp add: int_of_u32_def Let_def s_def)
  moreover have "dir_lookup_result GPID_DIR (delivered (le32 s @ le32 (u32_of_int v)) (old 5)) = Some v"
    using assms(2,3) int_of_u32_of_int [of v] by (simp add: dir_lookup_result_def delivered_def s_def)
  ultimately show ?thesis using assms(4,6) unfolding dir_lookup_def dir_lookup_req_def by (simp add: u32_nat m_def)
qed

context block_store
begin

lemma file_block_length: "ok d \<Longrightarrow> fs_inv (blocks d) ni N free \<Longrightarrow> i < 64 * ni \<Longrightarrow> p < length (file_of (blocks d) i)
    \<Longrightarrow> length (file_of (blocks d) i ! p) = BLOCK_SIZE"
  using tree_invD(10) [of "blocks d" ni N "heights (blocks d)" free i "heights (blocks d) i" p] block_length
  by (auto simp: file_of_def fblock_def content_def fs_inv_def Let_def null_block_def)

lemma file_read_file:
  assumes "ok d" "fs_inv (blocks d) ni N free" "\<forall>n. length (old n) = 1024" "i < 2147483648" "off < 2147483648"
  shows "\<exists>b d'. file_read (treedisk_init S ino0) old (int i) (int off) d =
       Some (if i < 64 * ni \<and> off < length (file_of (blocks d) i) then 0 else - 1, b, d') \<and> length b = BLOCK_SIZE
     \<and> (i < 64 * ni \<and> off < length (file_of (blocks d) i) \<longrightarrow> b = file_of (blocks d) i ! off) \<and> ok d' \<and> blocks d' = blocks d"
proof -
  let ?in = "i < 64 * ni \<and> off < length (file_of (blocks d) i)"
  let ?P = "\<lambda>b d'. (?in \<longrightarrow> b = file_of (blocks d) i ! off) \<and> ok d' \<and> blocks d' = blocks d"
  have "\<exists>b d'. st_read (treedisk_init S ino0) i off buf d = Some (if ?in then 0 else - 1, b, d') \<and> length b = BLOCK_SIZE \<and> ?P b d'"
    if "length buf = BLOCK_SIZE" for buf
    using read_file [OF assms(1,2), of i off buf] file_block_length [OF assms(1,2), of i off] that
    by (cases ?in) (auto simp: treedisk_init_def Let_def)
  then have "\<exists>b d'. file_read (treedisk_init S ino0) old (int i) (int off) d =
      Some (if (if ?in then 0 else - 1) = (0::int) then 0 else - 1, b, d') \<and> length b = BLOCK_SIZE \<and> ?P b d'"
    using assms(3-5) by (intro file_read_eq) simp_all
  moreover have "(if (if ?in then 0 else - 1) = (0::int) then 0 else - 1) = (if ?in then 0 else - 1 :: int)" by simp
  ultimately show ?thesis by (simp only: conj_assoc)
qed

lemma dir_lookup_entry:
  assumes "ok d" "fs_inv (blocks d) ni N free" "\<forall>n. length (old n) = 1024" "i < 2147483648" "i < 64 * ni"
    and f: "file_of (blocks d) i = (dir_text es @ 0 # r) # rest" and "dir_ok es"
    and n: "dir_word name" "\<not> list_all isdigit name" "length name < 32" "length name \<le> length (dir_text es)"
  shows "\<exists>d'. dir_lookup (treedisk_init S ino0) old (int i) name d =
     Some (case dir_entries es name of Some v \<Rightarrow> v | None \<Rightarrow> - 1, d') \<and> ok d' \<and> blocks d' = blocks d"
proof -
  let ?v = "case dir_entries es name of Some v \<Rightarrow> v | None \<Rightarrow> - 1"
  obtain d' where R: "file_read (treedisk_init S ino0) old (int i) 0 d = Some (0, dir_text es @ 0 # r, d')" "ok d'" "blocks d' = blocks d"
    using file_read_file [OF assms(1-4), of 0] assms(5) f by auto
  have "dir_do_lookup (treedisk_init S ino0) old (int i) name d = Some (?v, d')"
    using dir_find_text [OF assms(7) n(1,2,4)] R(1) by (simp add: dir_do_lookup_def)
  moreover have "- 1 \<le> ?v" "?v < 2147483648"
    using dir_entries_range [OF assms(7), of name] by (auto split: option.split)
  ultimately have "dir_lookup (treedisk_init S ino0) old (int i) name d = Some (?v, d')"
    using assms(3,4) n(1,3) by (intro dir_serve_ok)
  with R(2,3) show ?thesis by blast
qed

end

text \<open>A card with a file system that has one file.\<close>

lemma sim_file:
  assumes "length blk = BLOCK_SIZE"
  shows "\<exists>(d :: (sim_card \<times> byte) disk) free. card_ok fst (\<lambda>_. True) sim_ready d \<and> fs_inv (card_blocks fst sim_cells d) 2 4096 free
     \<and> file_of (card_blocks fst sim_cells d) 3 = [blk]"
proof -
  have ok: "card_ok fst (\<lambda>_. True) sim_ready blank_disk"
    using blank_card_ready by (simp add: card_ok_def blank_disk_def)
  have "n_inodeblocks (card_blocks fst sim_cells blank_disk 0) = 0"
    by (simp add: card_blocks_def blank_disk_def blank_card_def n_inodeblocks_def null_block_def get32_replicate0)
  then obtain d0 :: "(sim_card \<times> byte) disk" and free where d0: "card_ok fst (\<lambda>_. True) sim_ready d0" "fs_inv (card_blocks fst sim_cells d0) 2 4096 free"
    "distinct free" "set free = {3..<4096}" "\<forall>i<128. file_of (card_blocks fst sim_cells d0) i = []"
    using sim.fs.create_spec [OF ok, of NINODES 2] by auto
  have l: "11 \<le> length free" using distinct_card [OF d0(3)] d0(4) by simp
  have "(3::nat) < 64 * 2" "0 + 1 < UINT" by simp_all
  from sim.fs.write_files [OF d0(1,2) this assms l] obtain d1 :: "(sim_card \<times> byte) disk" and free' where
    d1: "card_ok fst (\<lambda>_. True) sim_ready d1" "fs_inv (card_blocks fst sim_cells d1) 2 4096 free'"
      "\<forall>j<64 * 2. file_of (card_blocks fst sim_cells d1) j =
        (if j = 3 then file_write (file_of (card_blocks fst sim_cells d0) 3) 0 blk else file_of (card_blocks fst sim_cells d0) j)" by blast
  then have "file_of (card_blocks fst sim_cells d1) 3 = [blk]" using d0(5) by (simp add: file_write_def)
  with d1(1,2) show ?thesis by blast
qed

definition demo_old :: "nat \<Rightarrow> byte list" where
  "demo_old n = replicate 1024 7"

lemma demo_old_length: "\<forall>n. length (demo_old n) = 1024"
  by (simp add: demo_old_def)

text \<open>
  The file server, asked by \<^verbatim>\<open>file_read\<close>: with a file system on the SD card the call returns,
  through the message, the server, the file system, the disk and the SD driver, exactly the
  block of the file, with 0; an offset behind the end or an inode that does not exist gives
  -1. The files stay as they are.
\<close>

theorem file_server_reads:
  assumes "sd_disk s media xfer live loaded txw rxw ready idle cells ncells"
    and "card_ok media live ready d" "fs_inv (card_blocks media cells d) ni 4096 free"
    and "\<forall>n. length (old n) = 1024" "i < 2147483648" "off < 2147483648"
  shows "\<exists>b d'. file_read (treedisk_init (fs_disk_init s) 0) old (int i) (int off) d =
       Some (if i < 64 * ni \<and> off < length (file_of (card_blocks media cells d) i) then 0 else - 1, b, d') \<and> length b = BLOCK_SIZE
     \<and> (i < 64 * ni \<and> off < length (file_of (card_blocks media cells d) i) \<longrightarrow> b = file_of (card_blocks media cells d) i ! off)
     \<and> card_ok media live ready d' \<and> card_blocks media cells d' = card_blocks media cells d"
  by (rule block_store.file_read_file [OF sd_disk.fs_store [OF assms(1)], OF assms(2-6)])

theorem file_server_reads_witness:
  "\<exists>d d1 d2 b. file_read (treedisk_init (fs_disk_init sim_spi) 0) demo_old 3 0 d = Some (0, replicate 512 9, d1)
     \<and> file_read (treedisk_init (fs_disk_init sim_spi) 0) demo_old 3 1 d = Some (- 1, b, d2)"
proof -
  obtain d :: "(sim_card \<times> byte) disk" and free where d: "card_ok fst (\<lambda>_. True) sim_ready d" "fs_inv (card_blocks fst sim_cells d) 2 4096 free"
    "file_of (card_blocks fst sim_cells d) 3 = [replicate 512 9]" using sim_file [of "replicate 512 9"] by auto
  show ?thesis using file_server_reads [OF sim.sd_disk_axioms d(1,2) demo_old_length, of 3 0] file_server_reads [OF sim.sd_disk_axioms d(1,2) demo_old_length, of 3 1]
    d(3) by auto
qed

text \<open>
  C26. \<^verbatim>\<open>dir_lookup\<close>: in a directory whose first block is the text of its entries, the call returns
  the inode number of the first entry with that name and -1 if there is none. It goes through
  both servers, the file system and the SD driver. The name is a word that is not a number and
  is not longer than the text of the directory.
\<close>

theorem dir_server_finds:
  assumes "sd_disk s media xfer live loaded txw rxw ready idle cells ncells"
    and "card_ok media live ready d" "fs_inv (card_blocks media cells d) ni 4096 free"
    and "\<forall>n. length (old n) = 1024" "i < 64 * ni" "file_of (card_blocks media cells d) i = (dir_text es @ 0 # r) # rest" "dir_ok es"
    and "dir_word name" "\<not> list_all isdigit name" "length name < DIR_NAME_SIZE" "length name \<le> length (dir_text es)"
  shows "\<exists>d'. dir_lookup (treedisk_init (fs_disk_init s) 0) old (int i) name d =
       Some (case dir_entries es name of Some v \<Rightarrow> v | None \<Rightarrow> - 1, d')
     \<and> card_ok media live ready d' \<and> card_blocks media cells d' = card_blocks media cells d"
proof -
  have "ni < 4096" using assms(3) tree_invD(3) by (auto simp: fs_inv_def)
  then have "i < 2147483648" using assms(5) by simp
  from block_store.dir_lookup_entry [OF sd_disk.fs_store [OF assms(1)], OF assms(2-4) this assms(5-11)] show ?thesis .
qed

theorem dir_server_finds_witness:
  "\<exists>d d1 d2. dir_lookup (treedisk_init (fs_disk_init sim_spi) 0) demo_old 3 (chars ''README'') d = Some (5, d1)
     \<and> dir_lookup (treedisk_init (fs_disk_init sim_spi) 0) demo_old 3 (chars ''LICENSE'') d = Some (- 1, d2)"
proof -
  let ?es = "[(chars ''./'', 2, chars ''2''), (chars ''../'', 2, chars ''1''), (chars ''README'', 2, chars ''5'')]"
  have "length (dir_text ?es @ 0 # replicate 485 0) = 512" by code_simp
  then obtain d :: "(sim_card \<times> byte) disk" and free where d: "card_ok fst (\<lambda>_. True) sim_ready d" "fs_inv (card_blocks fst sim_cells d) 2 4096 free"
    "file_of (card_blocks fst sim_cells d) 3 = (dir_text ?es @ 0 # replicate 485 0) # []" using sim_file by blast
  have i: "3 < 64 * (2::nat)" by simp
  have es: "dir_ok ?es" by code_simp
  note L = dir_server_finds [OF sim.sd_disk_axioms d(1,2) demo_old_length i d(3) es]
  have r: "dir_word (chars ''README'')" "\<not> list_all isdigit (chars ''README'')" "length (chars ''README'') < 32"
    "length (chars ''README'') \<le> length (dir_text ?es)" "dir_entries ?es (chars ''README'') = Some 5" by code_simp+
  have l: "dir_word (chars ''LICENSE'')" "\<not> list_all isdigit (chars ''LICENSE'')" "length (chars ''LICENSE'') < 32"
    "length (chars ''LICENSE'') \<le> length (dir_text ?es)" "dir_entries ?es (chars ''LICENSE'') = None" by code_simp+
  from L [OF r(1-4)] L [OF l(1-4)] r(5) l(5) show ?thesis by auto
qed

text \<open>
  The words that are numbers and the empty name find entries that do not exist: asked for a
  command named 6, the directory \<^verbatim>\<open>/bin\<close> gives inode 0, and asked for the empty name its own.
  A name longer than the text sends the loop out of the buffer, since the difference of the
  lengths is unsigned.
\<close>

lemma dir_find_number: "dir_find (chars ''6'') (strncpy BLOCK_SIZE (chars ''./   6 ../   0 echo   7 '')) = Some 0"
  by code_simp

lemma dir_find_empty: "dir_find [] (strncpy BLOCK_SIZE (chars ''./   6 ../   0 echo   7 '')) = Some 6"
  by code_simp

lemma dir_find_long: "cstr buf = Some str \<Longrightarrow> length str < length name \<Longrightarrow> dir_find name buf = None"
  by (simp add: dir_find_def)

end
