(* ===== verification/Mkfs.thy ===== *)
theory Mkfs
  imports Servers Ramdisk
begin

section \<open>Making the disk image\<close>

text \<open>
  \<^verbatim>\<open>tools/mkfs.c\<close>: the files of the file system, and the layout of \<^verbatim>\<open>disk.img\<close>. The host's files and
  what its \<^verbatim>\<open>read\<close> returns are parameters (\<open>host\<close>); \<open>host_ok\<close> says what POSIX promises of \<^verbatim>\<open>read\<close> on
  a regular file: before the end it returns at least one byte, and never more than were asked
  for or are left. \<^verbatim>\<open>write\<close> appends to the output. An \<^verbatim>\<open>assert\<close> that fails and a file that
  overruns the buffer are \<open>None\<close>. The buffer of \<^verbatim>\<open>mkfs\<close> lies on the stack; what it holds at first
  is an argument.
\<close>

abbreviation (input) NINODE :: nat where "NINODE \<equiv> 16"
abbreviation (input) NKERNEL_PROC :: nat where "NKERNEL_PROC \<equiv> 5"
abbreviation (input) GRASS_NEXEC :: nat where "GRASS_NEXEC \<equiv> 8"
abbreviation (input) GRASS_EXEC_SIZE :: nat where "GRASS_EXEC_SIZE \<equiv> 1048576"
abbreviation (input) PAGING_DEV_SIZE :: nat where "PAGING_DEV_SIZE \<equiv> 1048576"

record host =
  h_file :: "byte list \<Rightarrow> byte list"
  h_read :: "byte list \<Rightarrow> nat \<Rightarrow> nat \<Rightarrow> nat"

definition host_ok :: "host \<Rightarrow> bool" where
  "host_ok h \<longleftrightarrow> (\<forall>name pos n. pos < length (h_file h name) \<and> 0 < n \<longrightarrow>
     0 < h_read h name pos n \<and> h_read h name pos n \<le> n \<and> h_read h name pos n \<le> length (h_file h name) - pos)"

definition kernel_processes :: "byte list list" where
  "kernel_processes = map chars
    [''../build/release/grass.elf'', ''../build/release/sys_proc.elf'', ''../build/release/sys_file.elf'',
     ''../build/release/sys_dir.elf'', ''../build/release/sys_shell.elf'']"

definition contents :: "byte list list" where
  "contents = map chars
    [''./   0 ../   0 home/   1 bin/   6 '',
     ''./   1 ../   0 yunhao/   2 rvr/   3 lorenzo/   4 '',
     ''./   2 ../   1 README   5 '',
     ''./   3 ../   1 '',
     ''./   4 ../   1 '',
     ''With only 2000 lines of code, egos-2000 implements boot loader, microSD driver, tty driver, memory paging, address translation, interrupt handling, process scheduling and messaging, system call, file system, shell, 7 user commands and the `mkfs/mkrom` tools.'',
     ''./   6 ../   0 echo   7 cat   8 ls   9 cd  10 pwd  11 clock  12 crash1  13 crash2  14 ult  15 '',
     ''#../build/release/echo.elf'',
     ''#../build/release/cat.elf'',
     ''#../build/release/ls.elf'',
     ''#../build/release/cd.elf'',
     ''#../build/release/pwd.elf'',
     ''#../build/release/clock.elf'',
     ''#../build/release/crash1.elf'',
     ''#../build/release/crash2.elf'',
     ''#../build/release/ult.elf'']"

text \<open>\<^verbatim>\<open>for (int nread = 0; nread < st.st_size; ) nread += read(0, buf + nread, lim - nread);\<close>\<close>

partial_function (option) read_loop :: "host \<Rightarrow> byte list \<Rightarrow> nat \<Rightarrow> nat \<Rightarrow> byte list \<Rightarrow> byte list option" where
  "read_loop h name lim nread buf =
    (if nread < length (h_file h name)
     then (let r = h_read h name nread (lim - nread) in
           read_loop h name lim (nread + r) (take nread buf @ take r (drop nread (h_file h name)) @ drop (nread + r) buf))
     else Some buf)"

function mkfs_blocks :: "'d inode_store \<Rightarrow> nat \<Rightarrow> nat \<Rightarrow> byte list \<Rightarrow> nat \<Rightarrow> 'd \<Rightarrow> 'd option" where
  "mkfs_blocks treedisk ino st_size buf b d =
    (if b * BLOCK_SIZE < st_size
     then do { (_, d) \<leftarrow> st_write treedisk ino b (take BLOCK_SIZE (drop (b * BLOCK_SIZE) buf)) d;
               mkfs_blocks treedisk ino st_size buf (b + 1) d }
     else Some d)"
  by pat_completeness auto

termination
  by (relation "measure (\<lambda>(_, _, st_size, _, b, _). st_size - b * BLOCK_SIZE)") auto

declare mkfs_blocks.simps [simp del]

fun mkfs_loop :: "host \<Rightarrow> 'd inode_store \<Rightarrow> nat \<Rightarrow> byte list list \<Rightarrow> byte list \<Rightarrow> 'd \<Rightarrow> 'd option" where
  "mkfs_loop h treedisk ino [] buf d = Some d"
| "mkfs_loop h treedisk ino (c # cs) buf d =
    (if \<not> (c \<noteq> [] \<and> hd c = 35)
     then let buf = strncpy BLOCK_SIZE c @ drop BLOCK_SIZE buf in
          do { (_, d) \<leftarrow> st_write treedisk ino 0 (take BLOCK_SIZE buf) d; mkfs_loop h treedisk (ino + 1) cs buf d }
     else let st_size = length (h_file h (tl c)) in
          if st_size > GRASS_EXEC_SIZE div GRASS_NEXEC then None
          else do { buf \<leftarrow> read_loop h (tl c) st_size 0 buf;
                    d \<leftarrow> mkfs_blocks treedisk ino st_size buf 0 d;
                    mkfs_loop h treedisk (ino + 1) cs buf d })"

definition mkfs :: "host \<Rightarrow> byte list \<Rightarrow> byte list \<Rightarrow> byte list option" where
  "mkfs h buf fs =
    do { (r, fs) \<leftarrow> treedisk_create ramdisk_init 0 NINODES fs;
         if r < 0 then None else mkfs_loop h (treedisk_init ramdisk_init 0) 0 (take NINODE contents) buf fs }"

text \<open>One kernel process in the image: its file, and zeros up to the size of a segment.\<close>

definition exec_segment :: "host \<Rightarrow> byte list \<Rightarrow> byte list option" where
  "exec_segment h name =
    (let exec_size = GRASS_EXEC_SIZE div GRASS_NEXEC; st_size = length (h_file h name) in
     if 0 < st_size \<and> st_size \<le> exec_size
     then do { exec \<leftarrow> read_loop h name exec_size 0 (replicate GRASS_EXEC_SIZE 0);
               Some (take st_size exec @ replicate (exec_size - st_size) 0) }
     else None)"

fun exec_segments :: "host \<Rightarrow> byte list list \<Rightarrow> byte list option" where
  "exec_segments h [] = Some []"
| "exec_segments h (name # names) = do { seg \<leftarrow> exec_segment h name; segs \<leftarrow> exec_segments h names; Some (seg @ segs) }"

definition disk_img :: "host \<Rightarrow> byte list \<Rightarrow> byte list option" where
  "disk_img h buf =
    do { fs \<leftarrow> mkfs h buf blank_image;
         segs \<leftarrow> exec_segments h (take NKERNEL_PROC kernel_processes);
         Some (replicate PAGING_DEV_SIZE 0 @ segs
           @ replicate ((GRASS_NEXEC - NKERNEL_PROC) * (GRASS_EXEC_SIZE div GRASS_NEXEC)) 0 @ fs) }"

subsection \<open>Reading the host's files\<close>

text \<open>The loop ends, and the buffer holds the file followed by what it held before.\<close>

lemma read_loop_ok:
  assumes "host_ok h" "length (h_file h name) \<le> lim" "length (h_file h name) \<le> length buf"
    and "nread \<le> length (h_file h name)" "take nread buf = take nread (h_file h name)"
  shows "read_loop h name lim nread buf = Some (h_file h name @ drop (length (h_file h name)) buf)"
  using assms(3-5)
proof (induction "length (h_file h name) - nread" arbitrary: nread buf rule: less_induct)
  case less
  let ?f = "h_file h name"
  show ?case
  proof (cases "nread < length ?f")
    case False
    then show ?thesis using less.prems by (subst read_loop.simps) (metis append_take_drop_id le_antisym not_less order_refl take_all)
  next
    case True
    define r where "r = h_read h name nread (lim - nread)"
    have "0 < lim - nread" using True assms(2) by simp
    with assms(1) True have r: "0 < r" "r \<le> length ?f - nread" by (auto simp: host_ok_def r_def)
    let ?b = "take nread buf @ take r (drop nread ?f) @ drop (nread + r) buf"
    have b: "length ?b = length buf" "take (nread + r) ?b = take (nread + r) ?f" "drop (length ?f) ?b = drop (length ?f) buf"
      using less.prems r True by (simp_all add: take_add)
    have "read_loop h name lim nread buf = read_loop h name lim (nread + r) ?b"
      using True by (subst read_loop.simps) (simp add: r_def Let_def)
    also have "\<dots> = Some (?f @ drop (length ?f) ?b)"
      using r True less.prems(1) b(1,2) by (intro less.hyps) simp_all
    finally show ?thesis by (simp only: b(3))
  qed
qed

lemma read_loop_file:
  "host_ok h \<Longrightarrow> length (h_file h name) \<le> lim \<Longrightarrow> length (h_file h name) \<le> length buf \<Longrightarrow>
    read_loop h name lim 0 buf = Some (h_file h name @ drop (length (h_file h name)) buf)"
  by (rule read_loop_ok) simp_all

subsection \<open>Writing the files\<close>

definition ram_files :: "byte list \<Rightarrow> nat list \<Rightarrow> (nat \<Rightarrow> block list) \<Rightarrow> bool" where
  "ram_files fs free F \<longleftrightarrow> ram_ok fs \<and> fs_inv (ram_blocks fs) 2 4096 free \<and> (\<forall>j<NINODES. file_of (ram_blocks fs) j = F j)"

lemma tree_levels_small: "sz \<le> 128 \<Longrightarrow> tree_levels sz \<le> 1"
proof (rule ccontr)
  assume "sz \<le> 128" and n: "\<not> tree_levels sz \<le> 1"
  then have "1 < nlevels_loop (sz - 1) 0" "0 < sz" by (auto simp: tree_levels_def split: if_splits)
  moreover have "sz - 1 < UINT" using \<open>sz \<le> 128\<close> by simp
  ultimately have "128 \<le> sz - 1" using levels_spec(3) [of "sz - 1" 1] by simp
  then show False using \<open>sz \<le> 128\<close> \<open>0 < sz\<close> by simp
qed

lemma ram_file_write:
  assumes "ram_files fs free F" "i < NINODES" "off < 128" "length (F i) \<le> 128" "length blk = BLOCK_SIZE" "3 \<le> length free"
  shows "\<exists>fs' free'. st_write (treedisk_init ramdisk_init 0) i off blk fs = Some (0, fs')
     \<and> ram_files fs' free' (F(i := file_write (F i) off blk)) \<and> length free \<le> length free' + 3"
proof -
  have R: "ram_ok fs" "fs_inv (ram_blocks fs) 2 4096 free" "\<forall>j<NINODES. file_of (ram_blocks fs) j = F j"
    using assms(1) by (auto simp: ram_files_def)
  have "size_of (ram_blocks fs) i \<le> 128" using R(3) assms(2,4) by (metis file_of_def length_map length_upt minus_nat.diff_0)
  then have c: "write_cost (ram_blocks fs) i off \<le> 3"
    using assms(3) tree_levels_small [of "max (size_of (ram_blocks fs) i) (off + 1)"] by (simp add: write_cost_def Let_def)
  have "i < 64 * 2" "off + 1 < UINT" "write_cost (ram_blocks fs) i off \<le> length free" using assms c by simp_all
  from ram.write_files_cost [of fs 2 free i off blk] R(1,2) this assms(5) obtain fs' free' where
    "treedisk_write (treedisk_new ramdisk_init 0) i off blk fs = Some (0, fs')" "ram_ok fs'" "fs_inv (ram_blocks fs') 2 4096 free'"
    "length free \<le> length free' + write_cost (ram_blocks fs) i off"
    "\<forall>j<64 * 2. file_of (ram_blocks fs') j = (if j = i then file_write (file_of (ram_blocks fs) i) off blk else file_of (ram_blocks fs) j)"
    by auto
  with c R(3) assms(2) show ?thesis by (intro exI [of _ fs'] exI [of _ free']) (simp add: treedisk_init_def ram_files_def Let_def)
qed

text \<open>The blocks of the first \<open>st_size\<close> bytes of a buffer; the last one goes on in what lies behind them.\<close>

definition blocks_of :: "nat \<Rightarrow> byte list \<Rightarrow> block list" where
  "blocks_of st_size buf = map (\<lambda>b. take BLOCK_SIZE (drop (b * BLOCK_SIZE) buf)) [0..<(st_size + 511) div BLOCK_SIZE]"

lemma more_blocks: "b * 512 < st_size \<longleftrightarrow> b < (st_size + 511) div 512" for b st_size :: nat
proof -
  have "b < (st_size + 511) div 512 \<longleftrightarrow> Suc b * 512 \<le> st_size + 511"
    by (simp only: Suc_le_eq [symmetric] less_eq_div_iff_mult_less_eq zero_less_numeral)
  then show ?thesis by auto
qed

lemma file_write_append: "length f = n \<Longrightarrow> file_write f n blk = f @ [blk]"
  by (simp add: file_write_def list_update_append)

lemma mkfs_blocks_ok:
  assumes "ram_files fs free F" "i < NINODES" "st_size \<le> 65536" "st_size \<le> length buf" "length buf mod BLOCK_SIZE = 0"
    and "F i = take b (blocks_of st_size buf)" "b \<le> (st_size + 511) div 512" "3 * ((st_size + 511) div 512 - b) \<le> length free"
  shows "\<exists>fs' free'. mkfs_blocks (treedisk_init ramdisk_init 0) i st_size buf b fs = Some fs'
     \<and> ram_files fs' free' (F(i := blocks_of st_size buf)) \<and> length free \<le> length free' + 3 * ((st_size + 511) div 512 - b)"
  using assms(1,6-8)
proof (induction "(st_size + 511) div 512 - b" arbitrary: b fs free F)
  case 0
  then have "F i = blocks_of st_size buf" by (simp add: blocks_of_def)
  then have "F(i := blocks_of st_size buf) = F" by auto
  with 0 show ?case by (subst mkfs_blocks.simps) (auto simp: more_blocks)
next
  case (Suc n)
  let ?n = "(st_size + 511) div 512" and ?blk = "take 512 (drop (b * 512) buf)"
  have b: "b < ?n" using Suc.hyps(2) by simp
  have b': "b < 128" using b assms(3) by linarith
  have l: "length (F i) = b" using b Suc.prems(2) by (simp add: blocks_of_def)
  obtain m where m: "length buf = m * 512" using assms(5) by (metis add_0_right div_mult_mod_eq)
  have "b * 512 < m * 512" using b assms(4) more_blocks [of b st_size] m by linarith
  then have "b * 512 + 512 \<le> length buf" unfolding m by simp
  then have blk: "length ?blk = 512" by simp
  have "3 \<le> length free" using Suc.prems(4) Suc.hyps(2) by simp
  from ram_file_write [OF Suc.prems(1) assms(2) b' _ blk this] l b' obtain fs1 free1 where
    w: "st_write (treedisk_init ramdisk_init 0) i b ?blk fs = Some (0, fs1)"
      "ram_files fs1 free1 (F(i := F i @ [?blk]))" "length free \<le> length free1 + 3" by (auto simp: file_write_append)
  have F1: "(F(i := F i @ [?blk])) i = take (b + 1) (blocks_of st_size buf)"
    using b Suc.prems(2) by (simp add: blocks_of_def take_map take_Suc_conv_app_nth)
  have "n = ?n - (b + 1)" "b + 1 \<le> ?n" "3 * (?n - (b + 1)) \<le> length free1" using Suc.hyps(2) Suc.prems(4) w(3) by simp_all
  from Suc.hyps(1) [OF this(1) w(2) F1 this(2,3), unfolded fun_upd_upd] obtain fs2 free2 where
    "mkfs_blocks (treedisk_init ramdisk_init 0) i st_size buf (b + 1) fs1 = Some fs2"
    "ram_files fs2 free2 (F(i := blocks_of st_size buf))" "length free1 \<le> length free2 + 3 * (?n - (b + 1))" by blast
  then show ?case using w b Suc.hyps(2)
    by (intro exI [of _ fs2] exI [of _ free2]) (subst mkfs_blocks.simps, simp add: more_blocks)
qed

text \<open>The files that the loop over the inodes makes of a list of contents.\<close>

definition of_host :: "byte list \<Rightarrow> bool" where
  "of_host c \<longleftrightarrow> c \<noteq> [] \<and> hd c = 35"

fun image_files :: "host \<Rightarrow> byte list \<Rightarrow> byte list list \<Rightarrow> block list list" where
  "image_files h buf [] = []"
| "image_files h buf (c # cs) =
    (let f = h_file h (tl c); hbuf = f @ drop (length f) buf; tbuf = strncpy BLOCK_SIZE c @ drop BLOCK_SIZE buf in
     if of_host c then blocks_of (length f) hbuf # image_files h hbuf cs else [strncpy BLOCK_SIZE c] # image_files h tbuf cs)"

definition fits :: "host \<Rightarrow> byte list \<Rightarrow> bool" where
  "fits h c \<longleftrightarrow> (of_host c \<longrightarrow> length (h_file h (tl c)) \<le> 65536)"

definition file_cost :: "byte list \<Rightarrow> nat" where
  "file_cost c = (if of_host c then 384 else 3)"

definition add_files :: "nat \<Rightarrow> block list list \<Rightarrow> (nat \<Rightarrow> block list) \<Rightarrow> nat \<Rightarrow> block list" where
  "add_files ino fs F j = (if ino \<le> j \<and> j < ino + length fs then fs ! (j - ino) else F j)"

lemma length_image_files [simp]: "length (image_files h buf cs) = length cs"
  by (induction h buf cs rule: image_files.induct) (simp_all add: Let_def)

lemma add_files_Cons: "add_files (ino + 1) fs (F(ino := f)) = add_files ino (f # fs) F"
proof
  fix j
  show "add_files (ino + 1) fs (F(ino := f)) j = add_files ino (f # fs) F j"
  proof (cases "j \<le> ino")
    case False
    then obtain k where "j = Suc (ino + k)" by (metis less_imp_Suc_add not_le)
    then show ?thesis by (simp add: add_files_def)
  qed (auto simp: add_files_def)
qed

lemma mkfs_loop_ok:
  assumes "host_ok h" "\<forall>c\<in>set cs. fits h c" "ino + length cs \<le> NINODES" "length buf = 131072"
    and "ram_files fs free F" "\<forall>j. ino \<le> j \<longrightarrow> F j = []" "sum_list (map file_cost cs) \<le> length free"
  shows "\<exists>fs' free'. mkfs_loop h (treedisk_init ramdisk_init 0) ino cs buf fs = Some fs'
     \<and> ram_files fs' free' (add_files ino (image_files h buf cs) F)"
  using assms(2-7)
proof (induction cs arbitrary: ino buf fs free F)
  case Nil
  have "add_files ino [] F = F" by (auto simp: add_files_def fun_eq_iff)
  with Nil show ?case by auto
next
  case (Cons c cs)
  let ?T = "treedisk_init ramdisk_init 0"
  have ino: "ino < NINODES" "F ino = []" using Cons.prems(2,5) by simp_all
  have step: "\<exists>fs' free'. mkfs_loop h ?T (ino + 1) cs buf1 fs1 = Some fs'
     \<and> ram_files fs' free' (add_files ino (f # image_files h buf1 cs) F)"
    if "length buf1 = 131072" "ram_files fs1 free1 (F(ino := f))" "sum_list (map file_cost cs) \<le> length free1" for buf1 fs1 free1 f
  proof -
    have "\<forall>c\<in>set cs. fits h c" "ino + 1 + length cs \<le> NINODES" "\<forall>j. ino + 1 \<le> j \<longrightarrow> (F(ino := f)) j = []"
      using Cons.prems(1,2,5) by auto
    from Cons.IH [OF this(1,2) that(1,2) this(3) that(3)] show ?thesis unfolding add_files_Cons .
  qed
  show ?case
  proof (cases "of_host c")
    case False
    let ?b = "strncpy 512 c @ drop 512 buf"
    have cost: "3 + sum_list (map file_cost cs) \<le> length free" using Cons.prems(6) False file_cost_def [of c] by simp
    then have "3 \<le> length free" by simp
    from ram_file_write [OF Cons.prems(4) ino(1), of 0 "strncpy 512 c"] this ino(2) obtain fs1 free1 where
      w: "st_write ?T ino 0 (strncpy 512 c) fs = Some (0, fs1)" "ram_files fs1 free1 (F(ino := [strncpy 512 c]))"
        "length free \<le> length free1 + 3" by (auto simp: file_write_def)
    have "mkfs_loop h ?T ino (c # cs) buf fs = mkfs_loop h ?T (ino + 1) cs ?b fs1"
      using False w(1) by (simp add: of_host_def)
    with step [OF _ w(2), of ?b] w(3) Cons.prems(3) cost False show ?thesis by (simp add: Let_def)
  next
    case True
    let ?f = "h_file h (tl c)"
    let ?b = "?f @ drop (length ?f) buf"
    have f: "length ?f \<le> 65536" using Cons.prems(1) True by (simp add: fits_def)
    then have b: "length ?b = 131072" "length ?f \<le> length ?b" using Cons.prems(3) by simp_all
    have r: "read_loop h (tl c) (length ?f) 0 buf = Some ?b" using f Cons.prems(3) by (intro read_loop_file [OF assms(1)]) simp_all
    have n: "(length ?f + 511) div 512 \<le> 128" using f by linarith
    have cost: "384 + sum_list (map file_cost cs) \<le> length free" using Cons.prems(6) True file_cost_def [of c] by simp
    from mkfs_blocks_ok [OF Cons.prems(4) ino(1) f b(2), of 0] b(1) n cost ino(2) obtain fs1 free1 where
      w: "mkfs_blocks ?T ino (length ?f) ?b 0 fs = Some fs1" "ram_files fs1 free1 (F(ino := blocks_of (length ?f) ?b))"
        "length free \<le> length free1 + 3 * ((length ?f + 511) div 512)" by auto
    have "mkfs_loop h ?T ino (c # cs) buf fs = mkfs_loop h ?T (ino + 1) cs ?b fs1"
      using True f r w(1) by (simp add: of_host_def)
    with step [OF b(1) w(2)] w(3) n cost True show ?thesis by (simp add: Let_def)
  qed
qed

lemma concat_pieces: "concat (map (\<lambda>b. take 512 (drop (b * 512) buf)) [0..<n]) = take (n * 512) buf"
  by (induction n) (simp_all add: take_add [symmetric] add.commute)

lemma concat_blocks_of: "concat (blocks_of n buf) = take ((n + 511) div 512 * 512) buf"
  unfolding blocks_of_def by (rule concat_pieces)

lemma length_blocks_of [simp]: "length (blocks_of n buf) = (n + 511) div 512"
  by (simp add: blocks_of_def)

lemma image_files_nth:
  assumes "j < length cs"
  shows "(\<not> of_host (cs ! j) \<longrightarrow> image_files h buf cs ! j = [strncpy BLOCK_SIZE (cs ! j)])
     \<and> (of_host (cs ! j) \<longrightarrow> take (length (h_file h (tl (cs ! j)))) (concat (image_files h buf cs ! j)) = h_file h (tl (cs ! j))
        \<and> length (image_files h buf cs ! j) = (length (h_file h (tl (cs ! j))) + 511) div 512)"
  using assms
proof (induction cs arbitrary: j buf)
  case (Cons c cs)
  show ?case
  proof (cases j)
    case 0
    let ?f = "h_file h (tl c)"
    have "length ?f \<le> (length ?f + 511) div 512 * 512" by linarith
    then have "take (length ?f) (concat (blocks_of (length ?f) (?f @ drop (length ?f) buf))) = ?f"
      unfolding concat_blocks_of take_take by (simp add: min_absorb1)
    with 0 show ?thesis by (simp add: Let_def)
  next
    case (Suc k)
    with Cons show ?thesis by (simp add: Let_def)
  qed
qed simp

lemma of_host_chars [simp]: "of_host (chars s) \<longleftrightarrow> s \<noteq> [] \<and> hd s = CHR ''#''"
  using byte_char_eq [of _ "CHR ''#''"] by (cases s) (simp_all add: of_host_def chars_def)

lemma table_lengths: "length contents = 16" "length kernel_processes = 5"
  by (simp_all only: contents_def kernel_processes_def length_map list.size)

lemma contents_text: "\<not> of_host (contents ! 0)" "\<not> of_host (contents ! 6)"
  by (simp_all add: contents_def)

lemma contents_cost: "sum_list (map file_cost contents) = 3477"
  by (simp add: contents_def file_cost_def)

lemma mkfs_ok:
  assumes "host_ok h" "length buf = 131072" "\<forall>c\<in>set contents. fits h c"
  shows "\<exists>fs free. mkfs h buf blank_image = Some fs \<and> ram_ok fs \<and> fs_inv (ram_blocks fs) 2 4096 free
     \<and> (\<forall>j<NINODES. file_of (ram_blocks fs) j = (if j < NINODE then image_files h buf contents ! j else []))"
proof -
  obtain fs free where c: "treedisk_create ramdisk_init 0 NINODES blank_image = Some (0, fs)" "ram_ok fs"
     "fs_inv (ram_blocks fs) 2 4096 free" "distinct free" "set free = {3..<4096}" "\<forall>i<NINODES. file_of (ram_blocks fs) i = []"
    using ram_create [OF blank_image_facts] by blast
  have free: "length free = 4093" using distinct_card [OF c(4)] c(5) by simp
  have len: "length contents = 16" by (rule table_lengths)
  have cost: "sum_list (map file_cost contents) \<le> length free" using free contents_cost by simp
  have F: "ram_files fs free (\<lambda>_. [])" using c by (simp add: ram_files_def)
  have "0 + length contents \<le> NINODES" "\<forall>j. 0 \<le> j \<longrightarrow> (\<lambda>_. []) j = ([] :: block list)" using len by simp_all
  from mkfs_loop_ok [OF assms(1,3) this(1) assms(2) F this(2) cost] obtain fs' free' where
    w: "mkfs_loop h (treedisk_init ramdisk_init 0) 0 contents buf fs = Some fs'"
      "ram_files fs' free' (add_files 0 (image_files h buf contents) (\<lambda>_. []))" by blast
  have "take NINODE contents = contents" using len by simp
  then have "mkfs h buf blank_image = Some fs'" using c(1) w(1) by (simp add: mkfs_def)
  with w(2) len show ?thesis by (intro exI [of _ fs'] exI [of _ free']) (simp add: ram_files_def add_files_def)
qed

subsection \<open>The image\<close>

lemma exec_segment_ok:
  assumes "host_ok h" "0 < length (h_file h name)" "length (h_file h name) \<le> 131072"
  shows "exec_segment h name = Some (h_file h name @ replicate (131072 - length (h_file h name)) 0)"
  using assms by (simp add: exec_segment_def Let_def read_loop_file)

lemma exec_segments_ok:
  assumes "host_ok h" "\<forall>n\<in>set names. 0 < length (h_file h n) \<and> length (h_file h n) \<le> 131072"
  shows "exec_segments h names = Some (concat (map (\<lambda>n. h_file h n @ replicate (131072 - length (h_file h n)) 0) names))"
  using assms(2) by (induction names) (simp_all add: exec_segment_ok [OF assms(1)])

lemma concat_const_length: "\<forall>x\<in>set xs. length x = k \<Longrightarrow> length (concat xs) = k * length xs"
  by (induction xs) simp_all

lemma piece_of_concat:
  "\<forall>x\<in>set xs. length x = k \<Longrightarrow> j < length xs \<Longrightarrow> take k (drop (k * j) (concat xs @ ys)) = xs ! j"
proof (induction xs arbitrary: j)
  case (Cons x xs)
  then show ?case by (cases j) (simp_all add: add.commute [of k])
qed simp

lemma image_parts:
  assumes "length z = 1048576" "length c = 655360" "length y = 393216" "length fs = 2097152"
  shows "length (z @ c @ y @ fs) = 4194304" "drop 2097152 (z @ c @ y @ fs) = fs"
    "drop (1048576 + n) (z @ c @ y @ fs) = drop n (c @ y @ fs)"
  using assms by simp_all

lemma mkfs_image_ok:
  assumes "host_ok h" "length buf = GRASS_EXEC_SIZE div GRASS_NEXEC" "\<forall>c\<in>set contents. fits h c"
    and "\<forall>n\<in>set kernel_processes. 0 < length (h_file h n) \<and> length (h_file h n) \<le> GRASS_EXEC_SIZE div GRASS_NEXEC"
  shows "\<exists>img fs free. disk_img h buf = Some img \<and> length img = 4194304
     \<and> (\<forall>k<NKERNEL_PROC. take (length (h_file h (kernel_processes ! k))) (drop (1048576 + 131072 * k) img) = h_file h (kernel_processes ! k))
     \<and> drop 2097152 img = fs \<and> ram_ok fs \<and> fs_inv (ram_blocks fs) 2 4096 free
     \<and> (\<forall>i<NINODE. \<not> of_host (contents ! i) \<longrightarrow> file_of (ram_blocks fs) i = [strncpy BLOCK_SIZE (contents ! i)])
     \<and> (\<forall>i<NINODE. of_host (contents ! i) \<longrightarrow>
          take (length (h_file h (tl (contents ! i)))) (concat (file_of (ram_blocks fs) i)) = h_file h (tl (contents ! i))
          \<and> length (file_of (ram_blocks fs) i) = (length (h_file h (tl (contents ! i))) + 511) div 512)
     \<and> (\<forall>i. NINODE \<le> i \<and> i < NINODES \<longrightarrow> file_of (ram_blocks fs) i = [])"
proof -
  have len: "length contents = 16" "length kernel_processes = 5" by (rule table_lengths)+
  have "length buf = 131072" using assms(2) by simp
  from mkfs_ok [OF assms(1) this assms(3)] obtain fs free where
    F: "mkfs h buf blank_image = Some fs" "ram_ok fs" "fs_inv (ram_blocks fs) 2 4096 free"
      "\<forall>j<NINODES. file_of (ram_blocks fs) j = (if j < NINODE then image_files h buf contents ! j else [])" by blast
  define seg where "seg n = h_file h n @ replicate (131072 - length (h_file h n)) 0" for n
  let ?segs = "map seg kernel_processes"
  have k: "\<forall>n\<in>set kernel_processes. 0 < length (h_file h n) \<and> length (h_file h n) \<le> 131072" using assms(4) by simp
  have s: "\<forall>x\<in>set ?segs. length x = 131072" using k by (auto simp: seg_def)
  have sl: "length (concat ?segs) = 655360" using concat_const_length [OF s] len(2) by simp
  have e: "exec_segments h kernel_processes = Some (concat ?segs)"
    using exec_segments_ok [OF assms(1) k] unfolding seg_def .
  define z y :: "byte list" where z: "z = replicate 1048576 0" and y: "y = replicate 393216 0"
  define img where "img = z @ concat ?segs @ y @ fs"
  have "length z = 1048576" "length y = 393216" "length fs = 2097152" using F(2) by (simp_all only: z y length_replicate ram_ok_def)
  note P = image_parts [OF this(1) sl this(2,3), folded img_def]
  have i: "disk_img h buf = Some img" using F(1) e len(2) by (simp add: disk_img_def img_def z y)
  have "take (length (h_file h (kernel_processes ! j))) (drop (1048576 + 131072 * j) img) = h_file h (kernel_processes ! j)" if "j < 5" for j
  proof -
    let ?n = "length (h_file h (kernel_processes ! j))" and ?X = "drop (131072 * j) (concat ?segs @ y @ fs)"
    have n: "min ?n 131072 = ?n" using k that len(2) by simp
    have "take ?n ?X = take ?n (take 131072 ?X)" unfolding take_take n ..
    also have "take 131072 ?X = seg (kernel_processes ! j)"
      using piece_of_concat [OF s, of j "y @ fs"] that len(2) by simp
    finally have "take ?n (drop (1048576 + 131072 * j) img) = take ?n (seg (kernel_processes ! j))" unfolding P(3) .
    then show ?thesis by (simp add: seg_def)
  qed
  then show ?thesis using i P(1,2) F(2-4) image_files_nth [of _ contents h buf] len(1)
    by (intro exI [of _ img] exI [of _ fs] exI [of _ free]) simp
qed

text \<open>
  C8. Making the disk image: with host files that fit, the tool ends and writes exactly 4 MB.
  The image holds the five kernel processes at the start of their segments, and behind them the
  file system: the directories and the README hold their text, followed by zeros, the inodes of the
  commands the bytes of the host's executables, and every other inode is empty.
\<close>

theorem mkfs_image:
  assumes "host_ok h" "length buf = GRASS_EXEC_SIZE div GRASS_NEXEC" "\<forall>c\<in>set contents. fits h c"
    and "\<forall>n\<in>set kernel_processes. 0 < length (h_file h n) \<and> length (h_file h n) \<le> GRASS_EXEC_SIZE div GRASS_NEXEC"
  shows "\<exists>img fs free. disk_img h buf = Some img \<and> length img = 4194304
     \<and> (\<forall>k<NKERNEL_PROC. take (length (h_file h (kernel_processes ! k))) (drop (1048576 + 131072 * k) img) = h_file h (kernel_processes ! k))
     \<and> drop 2097152 img = fs \<and> ram_ok fs \<and> fs_inv (ram_blocks fs) 2 4096 free
     \<and> (\<forall>i<NINODE. \<not> of_host (contents ! i) \<longrightarrow> file_of (ram_blocks fs) i = [strncpy BLOCK_SIZE (contents ! i)])
     \<and> (\<forall>i<NINODE. of_host (contents ! i) \<longrightarrow>
          take (length (h_file h (tl (contents ! i)))) (concat (file_of (ram_blocks fs) i)) = h_file h (tl (contents ! i))
          \<and> length (file_of (ram_blocks fs) i) = (length (h_file h (tl (contents ! i))) + 511) div 512)
     \<and> (\<forall>i. NINODE \<le> i \<and> i < NINODES \<longrightarrow> file_of (ram_blocks fs) i = [])"
  by (rule mkfs_image_ok [OF assms])

text \<open>A host on which every file holds one byte, and \<^verbatim>\<open>read\<close> returns a byte at a time.\<close>

definition demo_host :: host where
  "demo_host = \<lparr>h_file = (\<lambda>_. [127]), h_read = (\<lambda>_ _ _. 1)\<rparr>"

lemma demo_host_facts:
  "host_ok demo_host" "length (replicate 131072 (9::byte)) = GRASS_EXEC_SIZE div GRASS_NEXEC" "\<forall>c\<in>set contents. fits demo_host c"
  "\<forall>n\<in>set kernel_processes. 0 < length (h_file demo_host n) \<and> length (h_file demo_host n) \<le> GRASS_EXEC_SIZE div GRASS_NEXEC"
  by (simp_all add: host_ok_def demo_host_def fits_def)

theorem mkfs_image_witness:
  "\<exists>img. disk_img demo_host (replicate 131072 9) = Some img \<and> length img = 4194304
     \<and> take 1 (drop (1048576 + 131072 * 4) img) = [127] \<and> file_of (ram_blocks (drop 2097152 img)) 3 = [strncpy 512 (chars ''./   3 ../   1 '')]"
proof -
  have c: "contents ! 3 = chars ''./   3 ../   1 ''" by (simp add: contents_def)
  from mkfs_image [OF demo_host_facts] obtain img where "disk_img demo_host (replicate 131072 9) = Some img" "length img = 4194304"
    "\<forall>k<5. take (length (h_file demo_host (kernel_processes ! k))) (drop (1048576 + 131072 * k) img) = h_file demo_host (kernel_processes ! k)"
    "\<forall>i<16. \<not> of_host (contents ! i) \<longrightarrow> file_of (ram_blocks (drop 2097152 img)) i = [strncpy 512 (contents ! i)]" by blast
  moreover from spec [OF this(3), of 4] have "take 1 (drop (1048576 + 131072 * 4) img) = [127]" by (simp add: demo_host_def)
  ultimately show ?thesis using c by (intro exI [of _ img]) simp
qed

subsection \<open>The image on the card\<close>

definition card_holds :: "('c \<Rightarrow> 'k) \<Rightarrow> ('k \<Rightarrow> nat \<Rightarrow> byte list) \<Rightarrow> byte list \<Rightarrow> 'c disk \<Rightarrow> bool" where
  "card_holds media cells img d \<longleftrightarrow> (\<forall>b<8192. cells (media (dd_dev d)) b = take BLOCK_SIZE (drop (BLOCK_SIZE * b) img))"

lemma card_holds_files:
  assumes "card_holds media cells img d" "drop 2097152 img = fs" "fs_inv (ram_blocks fs) ni 4096 free"
  shows "fs_inv (card_blocks media cells d) ni 4096 free"
    "i < 64 * ni \<Longrightarrow> file_of (card_blocks media cells d) i = file_of (ram_blocks fs) i"
proof -
  have "card_blocks media cells d b = ram_blocks fs b" if "b < 4096" for b
    using assms(1) that by (simp add: card_holds_def card_blocks_def ram_blocks_def assms(2) [symmetric] add.commute)
  then show "fs_inv (card_blocks media cells d) ni 4096 free"
    "i < 64 * ni \<Longrightarrow> file_of (card_blocks media cells d) i = file_of (ram_blocks fs) i"
    using fs_inv_same [OF assms(3)] by blast+
qed

definition commands :: "byte list list" where
  "commands = map chars [''echo'', ''cat'', ''ls'', ''cd'', ''pwd'', ''clock'', ''crash1'', ''crash2'', ''ult'']"

definition command_file :: "byte list \<Rightarrow> byte list" where
  "command_file c = chars ''../build/release/'' @ c @ chars ''.elf''"

text \<open>The texts of the directories \<^verbatim>\<open>/\<close> and \<^verbatim>\<open>/bin\<close>.\<close>

definition root_dir :: "dir_entry list" where
  "root_dir = [(chars ''./'', 2, chars ''0''), (chars ''../'', 2, chars ''0''), (chars ''home/'', 2, chars ''1''), (chars ''bin/'', 2, chars ''6'')]"

definition bin_dir :: "dir_entry list" where
  "bin_dir = [(chars ''./'', 2, chars ''6''), (chars ''../'', 2, chars ''0''), (chars ''echo'', 2, chars ''7''),
     (chars ''cat'', 2, chars ''8''), (chars ''ls'', 2, chars ''9''), (chars ''cd'', 1, chars ''10''), (chars ''pwd'', 1, chars ''11''),
     (chars ''clock'', 1, chars ''12''), (chars ''crash1'', 1, chars ''13''), (chars ''crash2'', 1, chars ''14''), (chars ''ult'', 1, chars ''15'')]"

lemma root_dir_text: "contents ! 0 = dir_text root_dir" "length (dir_text root_dir) < BLOCK_SIZE" "dir_ok root_dir"
  "dir_entries root_dir (chars ''bin/'') = Some 6" "dir_word (chars ''bin/'')" "\<not> list_all isdigit (chars ''bin/'')"
  "length (chars ''bin/'') < DIR_NAME_SIZE" "length (chars ''bin/'') \<le> length (dir_text root_dir)"
  by (simp add: contents_def root_dir_def chars_def numeral_eq_Suc, simp add: root_dir_def, code_simp+)

lemma bin_dir_text: "contents ! 6 = dir_text bin_dir" "length (dir_text bin_dir) < BLOCK_SIZE" "dir_ok bin_dir"
  by (simp add: contents_def bin_dir_def chars_def numeral_eq_Suc, simp add: bin_dir_def, code_simp)

lemma bin_dir_entries: "map (dir_entries bin_dir) commands = map Some [7, 8, 9, 10, 11, 12, 13, 14, 15]"
  by (simp add: dir_entries_def bin_dir_def commands_def) code_simp

lemma command_words: "list_all (\<lambda>n. dir_word n \<and> \<not> list_all isdigit n) commands"
  by code_simp

lemma command_lengths: "list_all (\<lambda>n. length n \<le> 6) commands" "6 \<le> length (dir_text bin_dir)" "length commands = 9"
  by (simp_all add: commands_def bin_dir_def)

lemma command_contents:
  "drop 7 contents = map (\<lambda>c. 35 # command_file c) commands"
  by (simp add: contents_def commands_def command_file_def chars_def)

lemma command_facts:
  assumes "k < 9"
  shows "dir_entries bin_dir (commands ! k) = Some (int (7 + k))" "dir_word (commands ! k)" "\<not> list_all isdigit (commands ! k)"
    "length (commands ! k) < DIR_NAME_SIZE" "length (commands ! k) \<le> length (dir_text bin_dir)"
    "of_host (contents ! (7 + k))" "tl (contents ! (7 + k)) = command_file (commands ! k)"
proof -
  have k: "k < length commands" using assms command_lengths(3) by simp
  let ?l = "[7, 8, 9, 10, 11, 12, 13, 14, 15] :: int list"
  have l: "?l ! k = int (7 + k)" using assms by (auto simp: less_Suc_eq numeral_eq_Suc)
  have "map Some ?l ! k = Some (?l ! k)" using assms by (intro nth_map) simp
  then show "dir_entries bin_dir (commands ! k) = Some (int (7 + k))"
    using nth_map [OF k, of "dir_entries bin_dir"] unfolding bin_dir_entries l by (simp only:)
  show "dir_word (commands ! k)" "\<not> list_all isdigit (commands ! k)"
    using command_words k by (auto simp: list_all_length)
  have "length (commands ! k) \<le> 6" using command_lengths(1) k by (simp add: list_all_length)
  then show "length (commands ! k) < DIR_NAME_SIZE" "length (commands ! k) \<le> length (dir_text bin_dir)"
    using command_lengths(2) by simp_all
  have "contents ! (7 + k) = drop 7 contents ! k" using table_lengths(1) by simp
  also have "\<dots> = 35 # command_file (commands ! k)" using k unfolding command_contents by simp
  finally show "of_host (contents ! (7 + k))" "tl (contents ! (7 + k)) = command_file (commands ! k)"
    by (simp_all add: of_host_def)
qed

lemma block_bytes:
  assumes "\<forall>x\<in>set F. length x = 512" "off < length F" "take (length f) (concat F) = f" "j < 512" "512 * off + j < length f"
  shows "(F ! off) ! j = f ! (512 * off + j)"
proof -
  have "F ! off = take 512 (drop (512 * off) (concat F))" "length (F ! off) = 512" using piece_of_concat [OF assms(1,2), of "[]"] assms(1,2) by simp_all
  then have "(F ! off) ! j = concat F ! (512 * off + j)" using assms(4) by simp
  also have "\<dots> = take (length f) (concat F) ! (512 * off + j)" using assms(5) by simp
  finally show ?thesis unfolding assms(3) .
qed

text \<open>A file of the image, read through the file server.\<close>

lemma image_file_read:
  assumes "sd_disk s media xfer live loaded txw rxw ready idle cells ncells"
    and "card_ok media live ready d" "card_holds media cells img d" "\<forall>n. length (old n) = 1024"
    and "drop 2097152 img = fs" "fs_inv (ram_blocks fs) 2 4096 free" "i < 128" "length f \<le> 65536" "512 * off < length f"
    and "take (length f) (concat (file_of (ram_blocks fs) i)) = f" "length (file_of (ram_blocks fs) i) = (length f + 511) div 512"
  shows "\<exists>b d'. file_read (treedisk_init (fs_disk_init s) 0) old (int i) (int off) d = Some (0, b, d') \<and> length b = BLOCK_SIZE
     \<and> (\<forall>j<BLOCK_SIZE. 512 * off + j < length f \<longrightarrow> b ! j = f ! (512 * off + j))"
proof -
  note bs = sd_disk.fs_store [OF assms(1)]
  note C = card_holds_files [OF assms(3,5,6)]
  define F where "F = file_of (card_blocks media cells d) i"
  have i: "i < 64 * 2" using assms(7) by simp
  have F: "take (length f) (concat F) = f" "length F = (length f + 511) div 512" using assms(10,11) C(2) [OF i] by (simp_all add: F_def)
  have "off * 512 < length f" using assms(9) by simp
  then have o: "off < length F" "off < 2147483648" using assms(8) more_blocks unfolding F(2) by simp_all
  have len: "\<forall>x\<in>set F. length x = 512"
    using block_store.file_block_length [OF bs, OF assms(2) C(1) i] by (auto simp: F_def in_set_conv_nth)
  from block_store.file_read_file [OF bs, OF assms(2) C(1) assms(4) _ o(2), of i] i o(1) obtain d' where
    "file_read (treedisk_init (fs_disk_init s) 0) old (int i) (int off) d = Some (0, F ! off, d')" "length (F ! off) = 512" by (auto simp: F_def)
  with block_bytes [OF len o(1) F(1)] show ?thesis by auto
qed

text \<open>
  C9. From the build to the shell: on an SD card that holds the image the tool makes, \<^verbatim>\<open>dir_lookup\<close>
  finds \<^verbatim>\<open>bin/\<close> in the root directory and there each of the nine commands, and \<^verbatim>\<open>file_read\<close> of the
  inode it gives returns, block by block, the bytes of the executable that was built for it.
\<close>

theorem image_commands:
  assumes "sd_disk s media xfer live loaded txw rxw ready idle cells ncells"
    and "host_ok h" "length buf = GRASS_EXEC_SIZE div GRASS_NEXEC" "\<forall>c\<in>set contents. fits h c"
    and "\<forall>n\<in>set kernel_processes. 0 < length (h_file h n) \<and> length (h_file h n) \<le> GRASS_EXEC_SIZE div GRASS_NEXEC"
    and "disk_img h buf = Some img" "card_ok media live ready d" "card_holds media cells img d" "\<forall>n. length (old n) = 1024"
  shows "(\<exists>d'. dir_lookup (treedisk_init (fs_disk_init s) 0) old 0 (chars ''bin/'') d = Some (6, d'))
     \<and> (\<forall>k<9. (\<exists>d'. dir_lookup (treedisk_init (fs_disk_init s) 0) old 6 (commands ! k) d = Some (int (7 + k), d'))
        \<and> (\<forall>off. 512 * off < length (h_file h (command_file (commands ! k))) \<longrightarrow>
             (\<exists>b d'. file_read (treedisk_init (fs_disk_init s) 0) old (int (7 + k)) (int off) d = Some (0, b, d') \<and> length b = BLOCK_SIZE
                \<and> (\<forall>i<BLOCK_SIZE. 512 * off + i < length (h_file h (command_file (commands ! k))) \<longrightarrow>
                     b ! i = h_file h (command_file (commands ! k)) ! (512 * off + i)))))"
proof -
  let ?T = "treedisk_init (fs_disk_init s) 0" and ?B = "card_blocks media cells d"
  from mkfs_image_ok [OF assms(2-5)] assms(6) obtain fs free where
    I: "drop 2097152 img = fs" "fs_inv (ram_blocks fs) 2 4096 free"
      "\<forall>i<16. \<not> of_host (contents ! i) \<longrightarrow> file_of (ram_blocks fs) i = [strncpy 512 (contents ! i)]"
      "\<forall>i<16. of_host (contents ! i) \<longrightarrow>
          take (length (h_file h (tl (contents ! i)))) (concat (file_of (ram_blocks fs) i)) = h_file h (tl (contents ! i))
          \<and> length (file_of (ram_blocks fs) i) = (length (h_file h (tl (contents ! i))) + 511) div 512" by auto
  note bs = sd_disk.fs_store [OF assms(1)]
  note C = card_holds_files [OF assms(8) I(1,2)]
  have tx: "file_of (ram_blocks fs) 0 = [strncpy 512 (dir_text root_dir)]" "file_of (ram_blocks fs) 6 = [strncpy 512 (dir_text bin_dir)]"
    using spec [OF I(3), of 0] spec [OF I(3), of 6] contents_text unfolding root_dir_text(1) bin_dir_text(1) by simp_all
  have bin: "\<exists>d'. dir_lookup ?T old 0 (chars ''bin/'') d = Some (6, d')"
  proof -
    have "file_of ?B 0 = (dir_text root_dir @ 0 # replicate (511 - length (dir_text root_dir)) 0) # []"
      using tx(1) C(2) [of 0] root_dir_text(2) by (simp add: strncpy_short)
    from block_store.dir_lookup_entry [OF bs, OF assms(7) C(1) assms(9) _ _ this root_dir_text(3,5-8)] root_dir_text(4)
    show ?thesis by auto
  qed
  have cmd: "\<exists>d'. dir_lookup ?T old 6 (commands ! k) d = Some (int (7 + k), d')" if k: "k < 9" for k
  proof -
    have "file_of ?B 6 = (dir_text bin_dir @ 0 # replicate (511 - length (dir_text bin_dir)) 0) # []"
      using tx(2) C(2) [of 6] bin_dir_text(2) by (simp add: strncpy_short)
    from block_store.dir_lookup_entry [OF bs, OF assms(7) C(1) assms(9) _ _ this bin_dir_text(3) command_facts(2-5) [OF k]] command_facts(1) [OF k]
    show ?thesis by auto
  qed
  have rd: "\<exists>b d'. file_read ?T old (int (7 + k)) (int off) d = Some (0, b, d') \<and> length b = BLOCK_SIZE
      \<and> (\<forall>i<BLOCK_SIZE. 512 * off + i < length f \<longrightarrow> b ! i = f ! (512 * off + i))"
    if k: "k < 9" and off: "512 * off < length f" and f: "f = h_file h (command_file (commands ! k))" for k off f
  proof -
    have F: "take (length f) (concat (file_of (ram_blocks fs) (7 + k))) = f" "length (file_of (ram_blocks fs) (7 + k)) = (length f + 511) div 512"
      using spec [OF I(4), of "7 + k"] command_facts(6,7) [OF k] k by (simp_all add: f)
    have "length f \<le> 65536" using assms(4) command_facts(6,7) [OF k] nth_mem [of "7 + k" contents] k table_lengths(1)
      by (auto simp: fits_def f)
    from image_file_read [OF assms(1,7-9) I(1,2) _ this off F] k show ?thesis by simp
  qed
  from bin cmd rd show ?thesis by blast
qed

definition image_disk :: "byte list \<Rightarrow> (sim_card \<times> byte) disk" where
  "image_disk img = \<lparr>dd_type = SD_CARD, dd_rom = (\<lambda>_. 0),
     dd_dev = (\<lparr>sim_mode = Sim_Idle, sim_out = [], sim_cells = (\<lambda>b. take BLOCK_SIZE (drop (BLOCK_SIZE * b) img))\<rparr>, 0)\<rparr>"

lemma image_disk_facts:
  "length img = 4194304 \<Longrightarrow> card_ok fst (\<lambda>_. True) sim_ready (image_disk img)" "card_holds fst sim_cells img (image_disk img)"
  by (auto simp: card_ok_def image_disk_def sim_ready_def sim_wf_def card_holds_def)

theorem image_commands_witness:
  "\<exists>img d1 d2 d3 b. disk_img demo_host (replicate 131072 9) = Some img
     \<and> dir_lookup (treedisk_init (fs_disk_init sim_spi) 0) demo_old 0 (chars ''bin/'') (image_disk img) = Some (6, d1)
     \<and> dir_lookup (treedisk_init (fs_disk_init sim_spi) 0) demo_old 6 (commands ! 8) (image_disk img) = Some (15, d2)
     \<and> file_read (treedisk_init (fs_disk_init sim_spi) 0) demo_old 15 0 (image_disk img) = Some (0, b, d3) \<and> b ! 0 = 127"
proof -
  from mkfs_image_ok [OF demo_host_facts] obtain img where img: "disk_img demo_host (replicate 131072 9) = Some img" "length img = 4194304" by blast
  note I = image_commands [OF sim.sd_disk_axioms demo_host_facts img(1) image_disk_facts(1) [OF img(2)] image_disk_facts(2) demo_old_length]
  have f: "h_file demo_host c = [127]" for c by (simp add: demo_host_def)
  from spec [OF conjunct2 [OF I], of 8] have k: "\<exists>d'. dir_lookup (treedisk_init (fs_disk_init sim_spi) 0) demo_old 6 (commands ! 8) (image_disk img) = Some (15, d')"
    "\<exists>b d'. file_read (treedisk_init (fs_disk_init sim_spi) 0) demo_old 15 0 (image_disk img) = Some (0, b, d') \<and> b ! 0 = 127"
    unfolding f by (auto dest: spec [of _ 0])
  with conjunct1 [OF I] img(1) show ?thesis by blast
qed

end
