(* ===== verification/Shell.thy ===== *)
theory Shell
  imports Cstring
begin

section \<open>The shell\<close>

text \<open>
  \<^verbatim>\<open>apps/system/sys_shell.c\<close>: the line editor \<^verbatim>\<open>read_chars\<close> and the parser \<^verbatim>\<open>parse_request\<close>, with an
  abstract line and a list of words as their specifications. The characters that \<^verbatim>\<open>sys_tty_read\<close>
  will return are a list; when it is empty the shell waits, which is \<open>None\<close>, as is a store outside
  of an array. What is printed is a list as well.
\<close>

abbreviation (input) CMD_NARGS :: nat where "CMD_NARGS \<equiv> 16"
abbreviation (input) CMD_ARG_LEN :: nat where "CMD_ARG_LEN \<equiv> 32"

definition store :: "byte list \<Rightarrow> int \<Rightarrow> byte \<Rightarrow> byte list option" where
  "store buf i c = (if 0 \<le> i \<and> i < int (length buf) then Some (buf[nat i := c]) else None)"

subsection \<open>Reading a line\<close>

text \<open>One turn of the loop per character; the result, the buffer, the characters left, the output.\<close>

fun read_chars_loop :: "int \<Rightarrow> int \<Rightarrow> byte list \<Rightarrow> byte list \<Rightarrow> byte list \<Rightarrow> (int \<times> byte list \<times> byte list \<times> byte list) option" where
  "read_chars_loop len i [] buf out =
    (if i < len - 1 then None else do { buf \<leftarrow> store buf (len - 1) 0; Some (len - 1, buf, [], out) })"
| "read_chars_loop len i (c # input) buf out =
    (if i < len - 1 then
       do { buf \<leftarrow> store buf i c;
            if c = 0x03 then do { buf \<leftarrow> store buf 0 0; buf \<leftarrow> store buf i 0; Some (0, buf, input, out @ [13, 10]) }
            else if c = 0x0d then do { buf \<leftarrow> store buf i 0; Some (i, buf, input, out @ [13, 10]) }
            else if c = 0x7f
            then read_chars_loop len ((if i \<noteq> 0 then i - 2 else i - 1) + 1) input buf (if i \<noteq> 0 then out @ [8, 32, 8] else out)
            else read_chars_loop len (i + 1) input buf (if c \<noteq> 0 then out @ [c] else out) }
     else do { buf \<leftarrow> store buf (len - 1) 0; Some (len - 1, buf, c # input, out) })"

definition read_chars :: "byte list \<Rightarrow> int \<Rightarrow> byte list \<Rightarrow> (int \<times> byte list \<times> byte list \<times> byte list) option" where
  "read_chars buf len input = read_chars_loop len 0 input buf []"

text \<open>The abstract editor: a line of at most \<open>n\<close> characters.\<close>

datatype edited = Line "byte list" | Cancelled

fun edit :: "nat \<Rightarrow> byte list \<Rightarrow> byte list \<Rightarrow> (edited \<times> byte list) option" where
  "edit n l [] = (if length l < n then None else Some (Line l, []))"
| "edit n l (c # input) =
    (if length l < n
     then if c = 3 then Some (Cancelled, input)
          else if c = 13 then Some (Line l, input)
          else if c = 127 then edit n (butlast l) input
          else edit n (l @ [c]) input
     else Some (Line l, c # input))"

text \<open>A terminal: the characters of the row and the column of the cursor.\<close>

fun terminal :: "byte list \<times> nat \<Rightarrow> byte \<Rightarrow> byte list \<times> nat" where
  "terminal (row, col) c =
    (if c = 8 then (row, col - 1) else if c = 13 then (row, 0)
     else if c = 10 then (row, col)
     else (take col row @ [c] @ drop (col + 1) row, col + 1))"

definition shown :: "byte list \<Rightarrow> byte list \<times> nat" where
  "shown out = foldl terminal ([], 0) out"

lemma shown_append: "shown (out @ bs) = foldl terminal (shown out) bs"
  by (simp add: shown_def)

text \<open>Left of the cursor the row is the line, and right of it there are only spaces.\<close>

definition shows_line :: "byte list \<Rightarrow> byte list \<Rightarrow> bool" where
  "shows_line out l \<longleftrightarrow> (\<exists>k. shown out = (l @ replicate k 32, length l))"

lemma shows_char:
  assumes "shows_line out l" "c \<noteq> 8" "c \<noteq> 13" "c \<noteq> 10"
  shows "shows_line (out @ [c]) (l @ [c])"
proof -
  obtain k where "shown out = (l @ replicate k 32, length l)" using assms(1) by (auto simp: shows_line_def)
  then have "shown (out @ [c]) = ((l @ [c]) @ replicate (k - 1) 32, length (l @ [c]))"
    using assms(2-4) by (simp add: shown_append)
  then show ?thesis unfolding shows_line_def by blast
qed

lemma shows_backspace:
  assumes "shows_line out l" "l \<noteq> []"
  shows "shows_line (out @ [8, 32, 8]) (butlast l)"
proof -
  obtain k where k: "shown out = (l @ replicate k 32, length l)" using assms(1) by (auto simp: shows_line_def)
  obtain c l' where l: "l = l' @ [c]" using assms(2) by (cases l rule: rev_cases) auto
  have "shown (out @ [8, 32, 8]) = (butlast l @ replicate (Suc k) 32, length (butlast l))"
    using k by (simp add: shown_append l)
  then show ?thesis unfolding shows_line_def by blast
qed

definition typed :: "byte \<Rightarrow> bool" where
  "typed c \<longleftrightarrow> 32 \<le> c \<or> c = 3 \<or> c = 13"

text \<open>What \<^verbatim>\<open>read_chars\<close> has to return for a line or a cancelled line.\<close>

definition line_read :: "nat \<Rightarrow> bool \<Rightarrow> (int \<times> byte list \<times> byte list \<times> byte list) option \<Rightarrow> (edited \<times> byte list) option \<Rightarrow> bool" where
  "line_read len vis res e = (case e of
     None \<Rightarrow> res = None
   | Some (Cancelled, rest) \<Rightarrow> (\<exists>buf out. res = Some (0, buf, rest, out) \<and> length buf = len \<and> cstr buf = Some [])
   | Some (Line l, rest) \<Rightarrow> (\<exists>buf out nl. res = Some (int (length l), buf, rest, out @ nl) \<and> length buf = len
        \<and> take (length l) buf = l \<and> buf ! length l = 0 \<and> (nl = [] \<or> nl = [13, 10]) \<and> (vis \<longrightarrow> shows_line out l)))"

lemma typed_ordinary: "typed c \<Longrightarrow> c \<noteq> 3 \<Longrightarrow> c \<noteq> 13 \<Longrightarrow> c \<noteq> 0 \<and> c \<noteq> 8 \<and> c \<noteq> 10"
  by (auto simp: typed_def word_le_nat_alt)

lemma store_ok: "i < length buf \<Longrightarrow> store buf (int i) c = Some (buf[i := c])"
  by (simp add: store_def)

lemma line_readI:
  assumes "length buf = len" "take (length l) buf = l" "buf ! length l = 0" "nl = [] \<or> nl = [13, 10]" "vis \<longrightarrow> shows_line out l"
  shows "line_read len vis (Some (int (length l), buf, rest, out @ nl)) (Some (Line l, rest))"
  using assms by (auto simp: line_read_def)

lemma line_full:
  assumes "length buf = len" "length l < len" "\<not> length l < len - 1" "take (length l) buf = l" "vis \<longrightarrow> shows_line out l"
  shows "line_read len vis (do { buf \<leftarrow> store buf (int len - 1) 0; Some (int len - 1, buf, rest, out) }) (Some (Line l, rest))"
proof -
  have l: "int len - 1 = int (length l)" using assms(2,3) by linarith
  have s: "store buf (int (length l)) 0 = Some (buf[length l := 0])" using store_ok [of "length l" buf 0] assms(1,2) by simp
  have "line_read len vis (Some (int (length l), buf[length l := 0], rest, out @ [])) (Some (Line l, rest))"
    using assms by (intro line_readI) simp_all
  then show ?thesis unfolding l s by simp
qed

lemma read_chars_loop_edit:
  assumes "length buf = len" "length l < len" "take (length l) buf = l" "vis \<longrightarrow> shows_line out l \<and> list_all typed input"
  shows "line_read len vis (read_chars_loop (int len) (int (length l)) input buf out) (edit (len - 1) l input)"
  using assms
proof (induction input arbitrary: l buf out)
  case Nil
  have i: "int (length l) < int len - 1 \<longleftrightarrow> length l < len - 1" by linarith
  show ?case using line_full [OF Nil(1,2) _ Nil(3), of vis out] Nil(4) by (simp add: i) (simp add: line_read_def)
next
  case (Cons c input)
  show ?case
  proof (cases "length l < len - 1")
    case False
    then have "\<not> int (length l) < int len - 1" by linarith
    then show ?thesis using line_full [OF Cons.prems(1,2) False Cons.prems(3), of vis out] Cons.prems(4) False by simp
  next
    case True
    let ?i = "length l" and ?b = "buf[length l := c]"
    have i: "int ?i < int len - 1" "?i < length buf" using True Cons.prems(1) by linarith+
    note s = store_ok [OF i(2)]
    have b: "length ?b = len" "take ?i ?b = l" using Cons.prems(1,3) by simp_all
    consider "c = 3" | "c = 13" | "c = 127" | "c \<noteq> 3" "c \<noteq> 13" "c \<noteq> 127" by blast
    then show ?thesis
    proof cases
      case 1
      have "buf \<noteq> []" using i(2) by auto
      then have "store ?b 0 0 = Some (?b[0 := 0])" "store (?b[0 := 0]) (int ?i) 0 = Some (?b[0 := 0, ?i := 0])"
        using store_ok [of 0 ?b 0] store_ok [of ?i "?b[0 := 0]" 0] i(2) by simp_all
      moreover have "cstr (?b[0 := 0, ?i := 0]) = Some []"
        using i(2) by (cases buf) (auto simp: nth_Cons' list_update_code split: nat.splits)
      ultimately show ?thesis using 1 True i s Cons.prems(1) by (simp add: line_read_def)
    next
      case 2
      have "store ?b (int ?i) 0 = Some (?b[?i := 0])" using store_ok [of ?i ?b 0] i(2) by simp
      moreover have "line_read len vis (Some (int ?i, ?b[?i := 0], input, out @ [13, 10])) (Some (Line l, input))"
        using Cons.prems i(2) by (intro line_readI) simp_all
      ultimately show ?thesis using 2 True i s by simp
    next
      case 3
      show ?thesis
      proof (cases "l = []")
        case True
        then show ?thesis using 3 i s Cons.IH [OF b(1), of "[]" out] Cons.prems \<open>length l < len - 1\<close> by simp
      next
        case False
        have "take (length (butlast l)) ?b = take (length l - 1) (take (length l) ?b)" by simp
        also have "\<dots> = butlast l" unfolding b(2) by (simp add: butlast_conv_take)
        finally have tk: "take (length (butlast l)) ?b = butlast l" .
        have n: "int (length (butlast l)) = int ?i - 1" "int ?i \<noteq> 0" using False by (cases l; simp)+
        have L: "read_chars_loop (int len) (int ?i) (c # input) buf out =
            read_chars_loop (int len) (int (length (butlast l))) input ?b (out @ [8, 32, 8])"
          unfolding n(1) using 3 i(1) s n(2) by simp
        have E: "edit (len - 1) l (c # input) = edit (len - 1) (butlast l) input" using 3 True by simp
        have v: "vis \<longrightarrow> shows_line (out @ [8, 32, 8]) (butlast l) \<and> list_all typed input"
          using Cons.prems(4) shows_backspace [of out l] False by auto
        have "length (butlast l) < len" using Cons.prems(2) by simp
        then show ?thesis unfolding L E by (rule Cons.IH [OF b(1) _ tk v])
      qed
    next
      case 4
      have t: "take (length (l @ [c])) ?b = l @ [c]" using i(2) Cons.prems(3) by (simp add: take_Suc_conv_app_nth)
      have v: "vis \<longrightarrow> c \<noteq> 0 \<and> shows_line (out @ [c]) (l @ [c]) \<and> list_all typed input"
        using Cons.prems(4) 4 shows_char [of out l c] typed_ordinary [of c] by auto
      then show ?thesis
        using 4 i s True Cons.IH [OF b(1) _ t, of "if c \<noteq> 0 then out @ [c] else out"] by (simp add: add.commute)
    qed
  qed
qed

lemma read_chars_ok:
  assumes "length buf = len" "1 \<le> len"
  shows "line_read len (list_all typed input) (read_chars buf (int len) input) (edit (len - 1) [] input)"
proof -
  have "shows_line [] []" unfolding shows_line_def shown_def by (intro exI [of _ 0]) simp
  then show ?thesis using read_chars_loop_edit [of buf len "[]" "list_all typed input" "[]" input] assms by (simp add: read_chars_def)
qed

text \<open>
  C23. The line editor: \<^verbatim>\<open>read_chars\<close> is the abstract editor, for every sequence of keys. It waits exactly when
  the line is not finished; a finished line stands in the buffer, followed by a zero, its length is
  the result, and if only ordinary keys were typed it is what the terminal shows; Ctrl-C gives the
  empty line. No store leaves the buffer.
\<close>

theorem read_chars_edits:
  assumes "length buf = len" "1 \<le> len"
  shows "line_read len (list_all typed input) (read_chars buf (int len) input) (edit (len - 1) [] input)"
  by (rule read_chars_ok [OF assms])

theorem read_chars_edits_witness:
  "line_read 8 True (read_chars (replicate 8 1) 8 [108, 115, 120, 127, 13, 99]) (Some (Line [108, 115], [99]))"
  using read_chars_edits [of "replicate 8 1" 8 "[108, 115, 120, 127, 13, 99]"] by (simp add: typed_def)

lemma edit_length: "edit n l input = Some (Line l', rest) \<Longrightarrow> length l \<le> n \<Longrightarrow> length l' \<le> n"
  by (induction n l input rule: edit.induct) (auto split: if_splits)

lemma edit_ends: "13 \<in> set input \<or> 3 \<in> set input \<or> (127 \<notin> set input \<and> n \<le> length l + length input) \<Longrightarrow> \<exists>e. edit n l input = Some e"
proof (induction input arbitrary: l)
  case (Cons c input)
  show ?case
  proof (cases "length l < n \<and> c \<noteq> 3 \<and> c \<noteq> 13")
    case True
    then show ?thesis using Cons.prems Cons.IH [of "butlast l"] Cons.IH [of "l @ [c]"] by auto
  qed auto
qed auto

text \<open>
  C24. Reading a line ends: as soon as Enter or Ctrl-C is among the keys, or more characters than the
  buffer holds and no backspace, \<^verbatim>\<open>read_chars\<close> returns.
\<close>

theorem read_chars_ends:
  assumes "length buf = len" "1 \<le> len" "13 \<in> set input \<or> 3 \<in> set input \<or> (127 \<notin> set input \<and> len - 1 \<le> length input)"
  shows "\<exists>n buf' rest out. read_chars buf (int len) input = Some (n, buf', rest, out) \<and> 0 \<le> n \<and> n < int len"
proof -
  obtain e rest where e: "edit (len - 1) [] input = Some (e, rest)" using edit_ends [of input "len - 1" "[]"] assms(3) by auto
  have R: "line_read len False (read_chars buf (int len) input) (edit (len - 1) [] input)"
    using read_chars_loop_edit [of buf len "[]" False "[]" input] assms(1,2) by (simp add: read_chars_def)
  show ?thesis
  proof (cases e)
    case (Line l)
    then have "length l \<le> len - 1" using edit_length [of "len - 1" "[]" input l rest] e by simp
    then show ?thesis using R assms(2) unfolding e Line line_read_def by auto
  next
    case Cancelled
    then show ?thesis using R assms(2) unfolding e line_read_def by auto
  qed
qed

theorem read_chars_ends_witness:
  "\<exists>n buf' rest out. read_chars (replicate 4 1) 4 [97, 98, 99, 100, 101] = Some (n, buf', rest, out) \<and> 0 \<le> n \<and> n < 4"
  using read_chars_ends [of "replicate 4 1" 4 "[97, 98, 99, 100, 101]"] by simp

subsection \<open>Parsing a command\<close>

text \<open>
  \<^verbatim>\<open>struct proc_request\<close> of \<^verbatim>\<open>servers.h\<close>. A return of -1 is \<open>Inl\<close>, with the argument vector as it is then; the
  field \<^verbatim>\<open>argc\<close> is not set in that case.
\<close>

record proc_request =
  req_type :: nat
  req_argc :: nat
  req_argv :: "byte list list"

definition store_arg :: "byte list list \<Rightarrow> nat \<Rightarrow> nat \<Rightarrow> byte \<Rightarrow> byte list list option" where
  "store_arg argv n i c = (if n < CMD_NARGS \<and> i < CMD_ARG_LEN then Some (argv[n := (argv ! n)[i := c]]) else None)"

fun parse_loop :: "nat \<Rightarrow> nat \<Rightarrow> byte list list \<Rightarrow> byte list \<Rightarrow> (byte list list + nat \<times> nat \<times> byte list list) option" where
  "parse_loop idx nargs argv [] = Some (Inr (idx, nargs, argv))"
| "parse_loop idx nargs argv (c # cs) =
    (if c \<noteq> 32
     then do { argv \<leftarrow> store_arg argv nargs idx c;
               if idx + 1 \<ge> CMD_ARG_LEN then Some (Inl argv) else parse_loop (idx + 1) nargs argv cs }
     else if idx \<noteq> 0
     then do { argv \<leftarrow> store_arg argv nargs idx 0;
               if nargs + 1 \<ge> CMD_NARGS then Some (Inl argv) else parse_loop 0 (nargs + 1) argv cs }
     else parse_loop idx nargs argv cs)"

definition parse_request :: "byte list \<Rightarrow> proc_request \<Rightarrow> (int \<times> proc_request) option" where
  "parse_request buf req =
    do { str \<leftarrow> cstr buf;
         r \<leftarrow> parse_loop 0 0 (replicate CMD_NARGS (replicate CMD_ARG_LEN 0)) str;
         Some (case r of
             Inl argv \<Rightarrow> (- 1, req\<lparr>req_argv := argv\<rparr>)
           | Inr (idx, nargs, argv) \<Rightarrow> (0, req\<lparr>req_argv := argv, req_argc := if idx \<noteq> 0 then nargs + 1 else nargs\<rparr>)) }"

text \<open>The specification: the words of a line, and when the request has room for them.\<close>

function line_words :: "byte list \<Rightarrow> byte list list" where
  "line_words s = (case dropWhile (\<lambda>c. c = 32) s of
     [] \<Rightarrow> [] | c # cs \<Rightarrow> takeWhile (\<lambda>c. c \<noteq> 32) (c # cs) # line_words (dropWhile (\<lambda>c. c \<noteq> 32) (c # cs)))"
  by pat_completeness auto

termination
proof (relation "measure length", simp)
  fix s c and cs :: "byte list"
  assume d: "dropWhile (\<lambda>c. c = 32) s = c # cs"
  then have "c \<noteq> 32" by (metis (mono_tags) hd_dropWhile list.distinct(1) list.sel(1))
  then have "length (dropWhile (\<lambda>c. c \<noteq> 32) (c # cs)) \<le> length cs" by (simp add: length_dropWhile_le)
  moreover have "length (c # cs) \<le> length s" using length_dropWhile_le [of "\<lambda>c. c = 32" s] d by simp
  ultimately show "(dropWhile (\<lambda>c. c \<noteq> 32) (c # cs), s) \<in> measure length" by simp
qed

declare line_words.simps [simp del]

definition words_fit :: "byte list \<Rightarrow> bool" where
  "words_fit s \<longleftrightarrow> list_all (\<lambda>w. length w < CMD_ARG_LEN) (line_words s)
     \<and> (length (line_words s) < CMD_NARGS \<or> length (line_words s) = CMD_NARGS \<and> last s \<noteq> 32)"

text \<open>
  In between, the parser on lists: \<open>ws\<close> are the finished words and \<open>w\<close> the current one.
\<close>

fun parse_words :: "byte list list \<Rightarrow> byte list \<Rightarrow> byte list \<Rightarrow> (byte list list \<times> byte list) option" where
  "parse_words ws w [] = Some (ws, w)"
| "parse_words ws w (c # cs) =
    (if c \<noteq> 32 then if length w + 1 \<ge> CMD_ARG_LEN then None else parse_words ws (w @ [c]) cs
     else if w \<noteq> [] then if length ws + 1 \<ge> CMD_NARGS then None else parse_words (ws @ [w]) [] cs
     else parse_words ws w cs)"

definition args_of :: "byte list list \<Rightarrow> byte list list" where
  "args_of ws = map (strncpy CMD_ARG_LEN) ws @ replicate (CMD_NARGS - length ws) (replicate CMD_ARG_LEN 0)"

lemma strncpy_Nil: "strncpy n [] = replicate n 0"
  by (simp add: strncpy_def)

lemma args_of_last: "length ws < CMD_NARGS \<Longrightarrow> args_of ws = args_of (ws @ [[]])"
  by (cases "16 - length ws") (simp_all add: args_of_def strncpy_Nil)

lemma strncpy_put: "length w < n \<Longrightarrow> (strncpy n w)[length w := c] = strncpy n (w @ [c])"
  by (cases "n - length w") (simp_all add: strncpy_def list_update_append)

lemma strncpy_zero: "length w < n \<Longrightarrow> (strncpy n w)[length w := 0] = strncpy n w"
  by (cases "n - length w") (simp_all add: strncpy_def list_update_append)

lemma args_of_put:
  assumes "length ws < CMD_NARGS" "length w < CMD_ARG_LEN"
  shows "store_arg (args_of (ws @ [w])) (length ws) (length w) c =
     Some (args_of (ws @ [if c = 0 then w else w @ [c]]))"
proof -
  have "(strncpy 32 w)[length w := c] = strncpy 32 (if c = 0 then w else w @ [c])"
    using assms(2) strncpy_put [of w 32 c] strncpy_zero [of w 32] by (cases "c = 0") simp_all
  then show ?thesis using assms by (simp add: store_arg_def args_of_def nth_append list_update_append)
qed

lemma parse_loop_words:
  assumes "length ws < CMD_NARGS" "length w < CMD_ARG_LEN" "0 \<notin> set cs"
  shows "case parse_words ws w cs of
      None \<Rightarrow> \<exists>argv. parse_loop (length w) (length ws) (args_of (ws @ [w])) cs = Some (Inl argv)
    | Some (ws', w') \<Rightarrow> parse_loop (length w) (length ws) (args_of (ws @ [w])) cs = Some (Inr (length w', length ws', args_of (ws' @ [w'])))
        \<and> length ws' < CMD_NARGS \<and> length w' < CMD_ARG_LEN"
  using assms
proof (induction ws w cs rule: parse_words.induct)
  case (1 ws w)
  then show ?case by simp
next
  case (2 ws w c cs)
  note put = args_of_put [OF 2(4,5)]
  consider "c \<noteq> 32" | "c = 32" "w \<noteq> []" | "c = 32" "w = []" by blast
  then show ?case
  proof cases
    case 1
    then show ?thesis using 2 put [of c] by (cases "length w + 1 \<ge> 32") (simp_all split: option.splits prod.splits)
  next
    case 2
    show ?thesis
    proof (cases "length ws + 1 \<ge> 16")
      case True
      then show ?thesis using 2 put [of 0] by simp
    next
      case False
      then have "args_of (ws @ [w]) = args_of ((ws @ [w]) @ [[]])" by (intro args_of_last) simp
      then show ?thesis using 2 False put [of 0] "2.IH"(2) "2.prems" by (simp split: option.splits prod.splits)
    qed
  next
    case 3
    then show ?thesis using "2.IH"(3) "2.prems" by (simp split: option.splits prod.splits)
  qed
qed

lemma line_words_space [simp]: "line_words (32 # s) = line_words s"
  by (subst (1 2) line_words.simps) simp

lemma line_words_Nil [simp]: "line_words [] = []"
  by (subst line_words.simps) simp

lemma line_words_word:
  assumes "w \<noteq> []" "32 \<notin> set w"
  shows "line_words (w @ s) = (w @ takeWhile (\<lambda>c. c \<noteq> 32) s) # line_words (dropWhile (\<lambda>c. c \<noteq> 32) s)"
proof -
  obtain c v where w: "w = c # v" "c \<noteq> 32" using assms by (cases w) auto
  have "takeWhile (\<lambda>c. c \<noteq> 32) (w @ s) = w @ takeWhile (\<lambda>c. c \<noteq> 32) s" "dropWhile (\<lambda>c. c \<noteq> 32) (w @ s) = dropWhile (\<lambda>c. c \<noteq> 32) s"
    using assms(2) by (simp_all add: takeWhile_append dropWhile_append)
  with w show ?thesis by (subst line_words.simps) simp
qed

lemma line_words_empty: "line_words s = [] \<Longrightarrow> set s \<subseteq> {32}"
proof -
  assume "line_words s = []"
  then have "dropWhile (\<lambda>c. c = 32) s = []" by (subst (asm) line_words.simps) (simp split: list.splits)
  then show ?thesis by auto
qed

lemma parse_words_result:
  assumes "32 \<notin> set w" "parse_words ws w cs = Some (ws', w')"
  shows "ws' @ (if w' = [] then [] else [w']) = ws @ line_words (w @ cs)"
  using assms
proof (induction ws w cs rule: parse_words.induct)
  case (1 ws w)
  then show ?case using line_words_word [of w "[]"] by auto
next
  case (2 ws w c cs)
  consider "c \<noteq> 32" | "c = 32" "w \<noteq> []" | "c = 32" "w = []" by blast
  then show ?case
  proof cases
    case 2
    then have "line_words (w @ c # cs) = w # line_words cs" using "2.prems"(1) line_words_word [of w "32 # cs"] by simp
    then show ?thesis using 2 "2.prems" "2.IH"(2) by (simp split: if_splits)
  qed (use 2 in \<open>simp_all split: if_splits\<close>)
qed

definition room :: "nat \<Rightarrow> byte list \<Rightarrow> bool" where
  "room n s \<longleftrightarrow> list_all (\<lambda>w. length w < CMD_ARG_LEN) (line_words s)
     \<and> (n + length (line_words s) < CMD_NARGS \<or> n + length (line_words s) = CMD_NARGS \<and> s \<noteq> [] \<and> last s \<noteq> 32)"

lemma room_fit: "room 0 s \<longleftrightarrow> words_fit s"
  by (auto simp: room_def words_fit_def)

lemma room_word:
  assumes "w \<noteq> []" "32 \<notin> set w" "length w < CMD_ARG_LEN" "n < CMD_NARGS"
  shows "room n (w @ 32 # cs) \<longleftrightarrow> n + 1 < CMD_NARGS \<and> room (n + 1) cs"
proof -
  have l: "line_words (w @ 32 # cs) = w # line_words cs" using assms(1,2) line_words_word [of w "32 # cs"] by simp
  have "line_words cs \<noteq> []" if "cs \<noteq> []" "last cs \<noteq> 32" using line_words_empty [of cs] that by (metis last_in_set singletonD subsetD)
  then have "\<exists>v vs. line_words cs = v # vs" if "cs \<noteq> []" "last cs \<noteq> 32" using that by (simp add: neq_Nil_conv)
  with assms show ?thesis unfolding room_def l by (cases "cs = []") auto
qed

lemma room_space: "n < CMD_NARGS \<Longrightarrow> room n (32 # cs) \<longleftrightarrow> room n cs"
  by (cases "cs = []") (simp_all add: room_def)

lemma parse_words_room:
  assumes "32 \<notin> set w" "length ws < CMD_NARGS" "length w < CMD_ARG_LEN"
  shows "parse_words ws w cs \<noteq> None \<longleftrightarrow> room (length ws) (w @ cs)"
  using assms
proof (induction ws w cs rule: parse_words.induct)
  case (1 ws w)
  have "w \<noteq> [] \<Longrightarrow> last w \<noteq> 32" using 1(1) by (metis last_in_set)
  then show ?case using 1 line_words_word [of w "[]"] by (cases "w = []") (auto simp: room_def)
next
  case (2 ws w c cs)
  consider "c \<noteq> 32" "length w + 1 \<ge> 32" | "c \<noteq> 32" "length w + 1 < 32" | "c = 32" "w \<noteq> []" | "c = 32" "w = []" by linarith
  then show ?case
  proof cases
    case 1
    have "line_words ((w @ [c]) @ cs) = ((w @ [c]) @ takeWhile (\<lambda>c. c \<noteq> 32) cs) # line_words (dropWhile (\<lambda>c. c \<noteq> 32) cs)"
      using 1(1) "2.prems"(1) by (intro line_words_word) auto
    then have "\<not> room (length ws) (w @ c # cs)" using 1(2) by (simp add: room_def)
    then show ?thesis using 1 by simp
  next
    case 2
    then show ?thesis using "2.IH"(1) "2.prems" by simp
  next
    case 3
    then show ?thesis using "2.IH"(2) "2.prems" room_word [of w "length ws" cs] by auto
  next
    case 4
    then show ?thesis using "2.IH"(3) "2.prems" room_space [of "length ws" cs] by simp
  qed
qed

lemma parse_request_ok:
  assumes "cstr buf = Some s"
  shows "if words_fit s
     then parse_request buf req = Some (0, req\<lparr>req_argv := args_of (line_words s), req_argc := length (line_words s)\<rparr>)
     else (\<exists>argv. parse_request buf req = Some (- 1, req\<lparr>req_argv := argv\<rparr>))"
proof -
  have s: "0 \<notin> set s" using cstrD [OF assms] by simp
  have a: "args_of ([] @ [[]]) = replicate 16 (replicate 32 0)" by (simp add: args_of_def strncpy_Nil numeral_eq_Suc)
  have L: "case parse_words [] [] s of
      None \<Rightarrow> \<exists>argv. parse_loop 0 0 (replicate 16 (replicate 32 0)) s = Some (Inl argv)
    | Some (ws, w) \<Rightarrow> parse_loop 0 0 (replicate 16 (replicate 32 0)) s = Some (Inr (length w, length ws, args_of (ws @ [w])))
        \<and> length ws < CMD_NARGS \<and> length w < CMD_ARG_LEN"
    using s by (intro parse_loop_words [of "[]" "[]" s, unfolded a list.size(3)]) simp_all
  have F: "parse_words [] [] s \<noteq> None \<longleftrightarrow> words_fit s" using parse_words_room [of "[]" "[]" s] room_fit by simp
  show ?thesis
  proof (cases "parse_words [] [] s")
    case None
    then show ?thesis using L F assms by (auto simp: parse_request_def)
  next
    case (Some r)
    obtain ws w where r: "r = (ws, w)" by (cases r)
    have W: "ws @ (if w = [] then [] else [w]) = line_words s" using parse_words_result [of "[]" "[]" s ws w] Some r by simp
    have "args_of (ws @ [w]) = args_of (line_words s)" "(if length w \<noteq> 0 then length ws + 1 else length ws) = length (line_words s)"
      using args_of_last [of ws] L Some r unfolding W [symmetric] by auto
    then show ?thesis using L F Some r assms by (simp add: parse_request_def)
  qed
qed

text \<open>
  C25. Parsing a command line is splitting it into words: if every word is shorter than 32 characters and
  the request has room for them, \<^verbatim>\<open>parse_request\<close> returns 0 and the request holds exactly these words,
  each followed by zeros, and their number; otherwise it returns -1. No store leaves the argument
  vector. There is room for 15 words, and for a sixteenth that ends the line.
\<close>

theorem parse_request_words:
  assumes "cstr buf = Some s"
  shows "if words_fit s
     then parse_request buf req = Some (0, req\<lparr>req_argv := args_of (line_words s), req_argc := length (line_words s)\<rparr>)
     else (\<exists>argv. parse_request buf req = Some (- 1, req\<lparr>req_argv := argv\<rparr>))"
  by (rule parse_request_ok [OF assms])

definition demo_line :: "byte list" where
  "demo_line = chars ''  cat  README &'' @ [0, 7, 7]"

definition demo_req :: proc_request where
  "demo_req = \<lparr>req_type = 0, req_argc = 9, req_argv = []\<rparr>"

lemma demo_line_words: "cstr demo_line = Some (chars ''  cat  README &'')"
  "line_words (chars ''  cat  README &'') = [chars ''cat'', chars ''README'', chars ''&'']" "words_fit (chars ''  cat  README &'')"
  by code_simp+

theorem parse_request_words_witness:
  "parse_request demo_line demo_req = Some (0, demo_req\<lparr>req_argv := args_of [chars ''cat'', chars ''README'', chars ''&''], req_argc := 3\<rparr>)"
  using parse_request_words [OF demo_line_words(1), of demo_req] demo_line_words(2,3) by simp

definition arg_ok :: "bool \<Rightarrow> byte list \<Rightarrow> bool" where
  "arg_ok used a \<longleftrightarrow> length a = CMD_ARG_LEN
     \<and> (case cstr a of None \<Rightarrow> False | Some w \<Rightarrow> if used then w \<noteq> [] \<and> 32 \<notin> set w else a = replicate CMD_ARG_LEN 0)"

definition request_ok :: "proc_request \<Rightarrow> bool" where
  "request_ok r \<longleftrightarrow> length (req_argv r) = CMD_NARGS \<and> req_argc r \<le> CMD_NARGS
     \<and> (\<forall>k<CMD_NARGS. arg_ok (k < req_argc r) (req_argv r ! k))"

lemma line_words_unfold:
  "dropWhile (\<lambda>c. c = 32) s = [] \<Longrightarrow> line_words s = []"
  "dropWhile (\<lambda>c. c = 32) s = c # cs \<Longrightarrow>
     line_words s = takeWhile (\<lambda>c. c \<noteq> 32) (c # cs) # line_words (dropWhile (\<lambda>c. c \<noteq> 32) (c # cs))"
  by (simp_all add: line_words.simps [of s] del: dropWhile_eq_Nil_conv)

lemma line_words_ok: "w \<in> set (line_words s) \<Longrightarrow> w \<noteq> [] \<and> 32 \<notin> set w \<and> set w \<subseteq> set s"
proof (induction s arbitrary: w rule: line_words.induct)
  case (1 s)
  show ?case
  proof (cases "dropWhile (\<lambda>c. c = 32) s")
    case Nil
    then show ?thesis using "1.prems" line_words_unfold(1) by simp
  next
    case (Cons c cs)
    have c: "c \<noteq> 32" using Cons by (metis (mono_tags) hd_dropWhile list.distinct(1) list.sel(1))
    have sub: "set (c # cs) \<subseteq> set s" using Cons set_dropWhileD [of _ "\<lambda>c. c = 32" s] by (metis subsetI)
    have "w = takeWhile (\<lambda>c. c \<noteq> 32) (c # cs) \<or> w \<in> set (line_words (dropWhile (\<lambda>c. c \<noteq> 32) (c # cs)))"
      using "1.prems" line_words_unfold(2) [OF Cons] by simp
    then show ?thesis
    proof
      assume "w = takeWhile (\<lambda>c. c \<noteq> 32) (c # cs)"
      then show ?thesis using c sub by (auto dest: set_takeWhileD)
    next
      assume "w \<in> set (line_words (dropWhile (\<lambda>c. c \<noteq> 32) (c # cs)))"
      moreover have "set (dropWhile (\<lambda>c. c \<noteq> 32) (c # cs)) \<subseteq> set s"
        using sub set_dropWhileD [of _ "\<lambda>c. c \<noteq> 32" "c # cs"] by blast
      ultimately show ?thesis using "1.IH" [OF Cons] by blast
    qed
  qed
qed

lemma args_of_nth: "k < CMD_NARGS \<Longrightarrow> args_of ws ! k = (if k < length ws then strncpy CMD_ARG_LEN (ws ! k) else replicate CMD_ARG_LEN 0)"
  by (simp add: args_of_def nth_append)

lemma args_of_ok:
  assumes "words_fit s" "0 \<notin> set s"
  shows "request_ok (req\<lparr>req_argv := args_of (line_words s), req_argc := length (line_words s)\<rparr>)"
proof -
  let ?ws = "line_words s"
  have n: "length ?ws \<le> 16" using assms(1) by (auto simp: words_fit_def)
  have "arg_ok (k < length ?ws) (args_of ?ws ! k)" if k: "k < 16" for k
  proof (cases "k < length ?ws")
    case True
    then have w: "?ws ! k \<noteq> []" "32 \<notin> set (?ws ! k)" "0 \<notin> set (?ws ! k)" "length (?ws ! k) < 32"
      using line_words_ok [OF nth_mem [OF True]] assms by (auto simp: words_fit_def list_all_length)
    then show ?thesis using True args_of_nth [OF k, of ?ws] cstr_strncpy [OF w(3,4)] by (simp add: arg_ok_def)
  next
    case False
    then show ?thesis using args_of_nth [OF k, of ?ws] by (simp add: arg_ok_def cstr_def)
  qed
  moreover have "length (args_of ?ws) = 16" using n by (simp add: args_of_def)
  ultimately show ?thesis using n by (simp add: request_ok_def)
qed

text \<open>
  A request that the parser accepts is well formed: sixteen fields of 32 bytes, at most sixteen
  arguments, each argument a string that ends inside its field, is not empty and has no space,
  and zeros in the fields behind the last one.
\<close>

theorem parse_request_wf:
  assumes "parse_request buf req = Some (0, req')"
  shows "request_ok req' \<and> req_type req' = req_type req"
proof -
  obtain s where s: "cstr buf = Some s" using assms by (cases "cstr buf") (auto simp: parse_request_def)
  then show ?thesis using parse_request_ok [OF s, of req] args_of_ok [of s req] cstrD [OF s] assms by (auto split: if_splits)
qed

theorem parse_request_wf_witness:
  "request_ok (demo_req\<lparr>req_argv := args_of [chars ''cat'', chars ''README'', chars ''&''], req_argc := 3\<rparr>)"
proof -
  have "parse_request demo_line demo_req = Some (0, demo_req\<lparr>req_argv := args_of [chars ''cat'', chars ''README'', chars ''&''], req_argc := 3\<rparr>)"
    using parse_request_ok [OF demo_line_words(1), of demo_req] demo_line_words(2,3) by simp
  from parse_request_wf [OF this] show ?thesis by simp
qed

text \<open>
  Sixteen words are accepted, but not with a space behind them; a line of spaces is accepted as
  a request without arguments.
\<close>

lemma parse_request_trailing_space:
  "words_fit (concat (replicate 15 [97, 32]) @ [97])" "\<not> words_fit (concat (replicate 16 [97, 32]))"
  by code_simp+

lemma parse_request_blank: "words_fit [32]" "line_words [32] = []"
  by code_simp+

subsection \<open>The main loop\<close>

text \<open>
  One turn of the loop of \<^verbatim>\<open>main\<close> up to the request: what is sent to the process server for the line in
  the buffer. \<open>None\<close> inside is a line that is refused.
\<close>

definition shell_request :: "byte list \<Rightarrow> proc_request \<Rightarrow> proc_request option option" where
  "shell_request buf req =
    do { str \<leftarrow> cstr buf;
         if str = chars ''killall'' then Some (Some (req\<lparr>req_type := 2\<rparr>))
         else do { (r, req) \<leftarrow> parse_request buf (req\<lparr>req_type := 0\<rparr>);
                   Some (if r \<noteq> 0 then None else Some req) } }"

text \<open>
  The rest of the turn, with the answers of the process server as a list: a request to kill is not
  answered, a refused line not sent, and a foreground command waits for a second answer. The
  result is the number of answers taken; \<open>None\<close> is a shell that waits, or the read of \<^verbatim>\<open>argv[-1]\<close>.
\<close>

definition shell_wait :: "proc_request option \<Rightarrow> nat list \<Rightarrow> nat option" where
  "shell_wait r replies = (case r of
     None \<Rightarrow> Some 0
   | Some req \<Rightarrow>
       if req_type req = 2 then Some 0
       else (case replies of
          [] \<Rightarrow> None
        | reply # replies \<Rightarrow>
            if reply \<noteq> 0 then Some 1
            else if req_argc req = 0 then None
            else if req_argv req ! (req_argc req - 1) ! 0 \<noteq> 38
            then (case replies of [] \<Rightarrow> None | _ \<Rightarrow> Some 2) else Some 1))"

text \<open>\<^verbatim>\<open>do ... while (read_chars(buf, 256) == 0)\<close>: the lines that are not empty.\<close>

partial_function (option) shell_line :: "byte list \<Rightarrow> byte list \<Rightarrow> (byte list \<times> byte list) option" where
  "shell_line buf input =
    do { (n, buf, input, _) \<leftarrow> read_chars buf 256 input;
         if n = 0 then shell_line buf input else Some (buf, input) }"

subsection \<open>From the keys to the request\<close>

lemma edit_set: "edit n l input = Some (Line l', rest) \<Longrightarrow> set l' \<subseteq> set l \<union> (set input - {3, 13})"
  by (induction n l input rule: edit.induct) (auto split: if_splits dest: in_set_butlastD)

lemma typed_line:
  assumes "length buf = 256" "list_all typed keys" "edit 255 [] keys = Some (Line l, rest)"
  shows "\<exists>buf' out. read_chars buf 256 keys = Some (int (length l), buf', rest, out) \<and> cstr buf' = Some l \<and> 0 \<notin> set l"
proof -
  from read_chars_ok [OF assms(1), of keys] assms(3) obtain buf' out nl where
    R: "read_chars buf 256 keys = Some (int (length l), buf', rest, out @ nl)" "length buf' = 256" "take (length l) buf' = l" "buf' ! length l = 0"
    by (auto simp: line_read_def)
  have z: "0 \<notin> set l" using edit_set [OF assms(3)] assms(2) typed_ordinary [of 0] by (auto simp: list_all_iff)
  have "length l < 256" using edit_length [OF assms(3)] by simp
  then have "buf' = l @ 0 # drop (Suc (length l)) buf'" using R(2-4) by (metis id_take_nth_drop)
  then have "cstr buf' = Some l" using cstr_append [OF z] by metis
  with R(1) z show ?thesis by blast
qed

lemma shell_request_words:
  assumes "cstr buf = Some l" "words_fit l" "l \<noteq> chars ''killall''"
  shows "shell_request buf req = Some (Some (req\<lparr>req_type := 0, req_argv := args_of (line_words l), req_argc := length (line_words l)\<rparr>))"
  using parse_request_ok [OF assms(1), of "req\<lparr>req_type := 0\<rparr>"] assms by (simp add: shell_request_def)

text \<open>The request of a line: its first string is the command and its last field starts with the last word.\<close>

lemma words_request:
  assumes "words_fit l" "0 \<notin> set l" "line_words l = ws" "ws \<noteq> []" "r = req\<lparr>req_type := 0, req_argv := args_of ws, req_argc := length ws\<rparr>"
  shows "request_ok r" "cstr (req_argv r ! 0) = Some (hd ws)" "req_argv r ! (req_argc r - 1) ! 0 = hd (last ws)"
    "length ws \<le> 16" "\<forall>i<length ws. 0 \<notin> set (ws ! i) \<and> length (ws ! i) < 32"
proof -
  show "request_ok r" using args_of_ok [OF assms(1,2), of "req\<lparr>req_type := 0\<rparr>"] assms(3,5) by simp
  show n: "length ws \<le> 16" using assms(1,3) by (auto simp: words_fit_def)
  have "0 \<notin> set w \<and> length w < 32" if "w \<in> set ws" for w
    using that assms(1-3) line_words_ok [of w l] by (auto simp: words_fit_def list_all_iff)
  then show w: "\<forall>i<length ws. 0 \<notin> set (ws ! i) \<and> length (ws ! i) < 32" by simp
  have p: "0 < length ws" using assms(4) by simp
  show "cstr (req_argv r ! 0) = Some (hd ws)" using args_of_nth [of 0 ws] p w cstr_strncpy [of "ws ! 0" 32] by (simp add: assms(5) hd_conv_nth)
  have "last ws \<noteq> []" using line_words_ok [of "last ws" l] assms(3,4) by simp
  then have "strncpy 32 (last ws) ! 0 = hd (last ws)" by (cases "last ws") (simp_all add: strncpy_def take_Cons')
  then show "req_argv r ! (req_argc r - 1) ! 0 = hd (last ws)" using args_of_nth [of "length ws - 1" ws] p n
    by (simp add: assms(5) last_conv_nth assms(4))
qed

end
