(* ===== verification/Sys_Proc.thy ===== *)
theory Sys_Proc
  imports Servers Shell Mkfs Elf Process
begin

section \<open>The process server\<close>

text \<open>
  \<^verbatim>\<open>apps/system/sys_proc.c\<close>. The server spawns and frees processes: its state is its static variables, the
  process table with its counter, and the memory management unit, whose paging device has the disk.
  A lookup or a read of a file goes through the directory and the file server; the switches of
  address spaces that these messages cause are not part of the state here. \<open>None\<close> is a call that never
  returns or a read outside of the message.
\<close>

abbreviation (input) PROC_SPAWN :: nat where "PROC_SPAWN \<equiv> 0"
abbreviation (input) PROC_EXIT :: nat where "PROC_EXIT \<equiv> 1"
abbreviation (input) PROC_KILLALL :: nat where "PROC_KILLALL \<equiv> 2"
abbreviation (input) CMD_OK :: nat where "CMD_OK \<equiv> 0"
abbreviation (input) CMD_ERROR :: nat where "CMD_ERROR \<equiv> 1"
abbreviation (input) SYS_FILE_EXEC_START :: nat where "SYS_FILE_EXEC_START \<equiv> 2560"
abbreviation (input) SYS_DIR_EXEC_START :: nat where "SYS_DIR_EXEC_START \<equiv> 2816"
abbreviation (input) SYS_SHELL_EXEC_START :: nat where "SYS_SHELL_EXEC_START \<equiv> 3072"

record 'c proc_server =
  app_ino :: int
  app_pid :: int
  shell_waiting :: bool
  ps_nprocs :: int
  ps_table :: "process list"
  ps_mmu :: "'c mmu"

definition set_disk :: "'c disk \<Rightarrow> 'c mmu \<Rightarrow> 'c mmu" where
  "set_disk d m = m\<lparr>paging := (paging m)\<lparr>pg_disk := d\<rparr>\<rparr>"

definition app_read :: "'c spi \<Rightarrow> (nat \<Rightarrow> byte list) \<Rightarrow> int \<Rightarrow> 'c elf_reader" where
  "app_read s old ino off m =
    do { (_, b, d) \<leftarrow> file_read (treedisk_init (fs_disk_init s) 0) old ino (int off) (pg_disk (paging m)); Some (b, set_disk d m) }"

definition server_lookup :: "'c spi \<Rightarrow> (nat \<Rightarrow> byte list) \<Rightarrow> int \<Rightarrow> byte list \<Rightarrow> 'c mmu \<Rightarrow> (int \<times> 'c mmu) option" where
  "server_lookup s old dir_ino name m =
    do { (ino, d) \<leftarrow> dir_lookup (treedisk_init (fs_disk_init s) 0) old dir_ino name (pg_disk (paging m)); Some (ino, set_disk d m) }"

text \<open>\<^verbatim>\<open>req->argv[req->argc - 1][0]\<close>\<close>

definition last_arg :: "byte list \<Rightarrow> byte option" where
  "last_arg buf = (let i = 8 + 32 * (int_of_u32 (get32 buf 1) - 1)
     in if 0 \<le> i \<and> i < int (length buf) then Some (buf ! nat i) else None)"

definition app_spawn :: "'c spi \<Rightarrow> (nat \<Rightarrow> byte list) \<Rightarrow> byte list \<Rightarrow> 'c proc_server \<Rightarrow> (int \<times> 'c proc_server) option" where
  "app_spawn s old buf st =
    do { (bin_ino, m) \<leftarrow> server_lookup s old 0 (chars ''bin/'') (ps_mmu st);
         name \<leftarrow> cstr (drop 8 buf);
         (ino, m) \<leftarrow> server_lookup s old bin_ino name m;
         let st = st\<lparr>app_ino := ino, ps_mmu := m\<rparr>;
         if ino < 0 then Some (- 1, st)
         else do { (p, n, ps) \<leftarrow> proc_alloc (ps_nprocs st) (ps_table st);
                   let st = st\<lparr>app_pid := p, ps_nprocs := n, ps_table := ps\<rparr>;
                   c \<leftarrow> last_arg buf;
                   let argc = (if c = 38 then int_of_u32 (get32 buf 1) - 1 else int_of_u32 (get32 buf 1));
                   m \<leftarrow> elf_load s p (app_read s old ino) argc (Some (drop 8 buf)) (ps_mmu st);
                   Some (0, st\<lparr>ps_mmu := m, ps_table := proc_set_ready p (ps_table st)\<rparr>) } }"

definition sys_spawn :: "'c spi \<Rightarrow> nat \<Rightarrow> 'c proc_server \<Rightarrow> 'c proc_server option" where
  "sys_spawn s base st =
    do { (p, n, ps) \<leftarrow> proc_alloc (ps_nprocs st) (ps_table st);
         m \<leftarrow> elf_load s p (sys_proc_read s base) 0 None (ps_mmu st);
         Some (st\<lparr>ps_nprocs := n, ps_mmu := m, ps_table := proc_set_ready p ps\<rparr>) }"

text \<open>One turn of the server's loop: the answer that is sent to the shell, if any, and the new state.\<close>

definition sys_proc_serve ::
  "'c spi \<Rightarrow> (nat \<Rightarrow> byte list) \<Rightarrow> int \<Rightarrow> byte list \<Rightarrow> 'c proc_server \<Rightarrow> (byte list option \<times> 'c proc_server) option" where
  "sys_proc_serve s old sender buf st =
    (if get32 buf 0 = PROC_SPAWN then
       do { (r, st) \<leftarrow> app_spawn s old buf st;
            let buf = put32 buf 0 (if r < 0 then CMD_ERROR else CMD_OK);
            c \<leftarrow> last_arg buf;
            Some (Some (take 4 buf), st\<lparr>shell_waiting := (c \<noteq> 38)\<rparr>) }
     else if get32 buf 0 = PROC_EXIT then
       (let (ps, m) = proc_free mmu_free sender (ps_table st) (ps_mmu st); st = st\<lparr>ps_table := ps, ps_mmu := m\<rparr>
        in Some (if shell_waiting st \<and> app_pid st = sender then Some (take 4 buf) else None, st))
     else if get32 buf 0 = PROC_KILLALL then
       (let (ps, m) = proc_free mmu_free (- 1) (ps_table st) (ps_mmu st); st = st\<lparr>ps_table := ps, ps_mmu := m\<rparr>
        in Some (if shell_waiting st then Some (take 4 buf) else None, st))
     else None)"

text \<open>The first part of \<^verbatim>\<open>main\<close>: the other three servers; the messages that they are ready carry no data.\<close>

definition sys_proc_boot :: "'c spi \<Rightarrow> 'c proc_server \<Rightarrow> 'c proc_server option" where
  "sys_proc_boot s st =
    do { st \<leftarrow> sys_spawn s SYS_FILE_EXEC_START st; st \<leftarrow> sys_spawn s SYS_DIR_EXEC_START st; sys_spawn s SYS_SHELL_EXEC_START st }"

text \<open>The request of the shell as bytes.\<close>

definition request_bytes :: "proc_request \<Rightarrow> byte list" where
  "request_bytes r = le32 (req_type r) @ le32 (req_argc r) @ concat (req_argv r)"

subsection \<open>Executables in the file system\<close>

text \<open>The blocks of the file system, seen through the paging device.\<close>

definition fs_view :: "('c pager \<Rightarrow> nat \<Rightarrow> byte list) \<Rightarrow> 'c mmu \<Rightarrow> blocks" where
  "fs_view cont m b = disk_block cont (paging m) (GRASS_FS_START + b)"

definition app_good :: "('c pager \<Rightarrow> nat \<Rightarrow> byte list) \<Rightarrow> (nat \<Rightarrow> byte list) \<Rightarrow> nat \<Rightarrow> (nat \<Rightarrow> byte list) \<Rightarrow> nat \<Rightarrow> 'c mmu \<Rightarrow> bool" where
  "app_good cont old ino img N m \<longleftrightarrow> (\<forall>n. length (old n) = 1024) \<and> N < 2147483648
     \<and> (\<exists>ni free. fs_inv (fs_view cont m) ni 4096 free \<and> ino < 64 * ni \<and> file_of (fs_view cont m) ino = map img [0..<N])"

lemma fs_view_cong:
  assumes "\<forall>g\<ge>NFRAMES. cont (paging m') g = cont (paging m) g"
  shows "fs_view cont m' = fs_view cont m"
proof
  fix b
  have "NFRAMES \<le> (4096 + b) div 8" using div_le_mono [of 2048 "4096 + b" 8] by simp
  then show "fs_view cont m' b = fs_view cont m b" using assms by (simp add: fs_view_def disk_block_def)
qed

lemma app_good_cong: "app_good cont old ino img N m \<Longrightarrow> (\<forall>g\<ge>NFRAMES. cont (paging m') g = cont (paging m) g) \<Longrightarrow> app_good cont old ino img N m'"
  using fs_view_cong [of cont m' m] by (simp add: app_good_def)

lemma fs_file_length:
  assumes "fs_inv B ni N free" "i < 64 * ni" "p < length (file_of B i)"
  shows "length (file_of B i ! p) = BLOCK_SIZE"
proof -
  have T: "tree_inv B ni N (heights B) free" using assms(1) by (simp add: fs_inv_def)
  show ?thesis using tree_invD(2,10) [OF T] assms(2,3)
    by (auto simp: file_of_def fblock_def content_def Let_def null_block_def)
qed

lemma app_good_length: "app_good cont old ino img N m \<Longrightarrow> n < N \<Longrightarrow> length (img n) = BLOCK_SIZE"
proof -
  assume g: "app_good cont old ino img N m" "n < N"
  then obtain ni free where F: "fs_inv (fs_view cont m) ni 4096 free" "ino < 64 * ni" "file_of (fs_view cont m) ino = map img [0..<N]"
    by (auto simp: app_good_def)
  from fs_file_length [OF F(1,2), of n] F(3) g(2) show ?thesis by simp
qed

context sd_disk
begin

text \<open>Through the file system the servers only read the card: everything on it stays.\<close>

lemma same_cells:
  assumes "\<forall>b<GRASS_FS_START. cells (media (dd_dev d')) b = cells (media (dd_dev d)) b" "card_blocks media cells d' = card_blocks media cells d"
  shows "cells (media (dd_dev d')) = cells (media (dd_dev d))"
proof
  fix b
  show "cells (media (dd_dev d')) b = cells (media (dd_dev d)) b"
  proof (cases "b < 4096")
    case False
    then obtain c where "b = 4096 + c" using le_Suc_ex by (metis not_less)
    then show ?thesis using fun_cong [OF assms(2), of c] by (simp add: card_blocks_def)
  qed (use assms(1) in simp)
qed

lemma same_content:
  assumes "arty_ok media live ready (paging m)" "card_ok media live ready d" "cells (media (dd_dev d)) = cells (media (dd_dev (pg_disk (paging m))))"
  shows "arty_ok media live ready (paging (set_disk d m))" "slot_of (paging (set_disk d m)) = slot_of (paging m)"
    "arty_content media cells (paging (set_disk d m)) = arty_content media cells (paging m)"
proof -
  show "arty_ok media live ready (paging (set_disk d m))" using assms(1,2) by (simp add: arty_ok_def cache_wf_def set_disk_def)
  show s: "slot_of (paging (set_disk d m)) = slot_of (paging m)" by (simp add: slot_of_def fun_eq_iff set_disk_def)
  have "arty_content media cells (paging (set_disk d m)) f = arty_content media cells (paging m) f" for f
    using assms(3) s unfolding arty_content_def disk_frame_def by (cases "slot_of (paging m) f") (simp_all add: set_disk_def)
  then show "arty_content media cells (paging (set_disk d m)) = arty_content media cells (paging m)" by (simp add: fun_eq_iff)
qed

lemma fs_view_block:
  assumes "arty_ok media live ready (paging m)" "b < 4096"
  shows "fs_view (arty_content media cells) m b = card_blocks media cells (pg_disk (paging m)) b"
  using arty_disk_block [OF assms(1), of "4096 + b"] div_le_mono [of 2048 "4096 + b" 8] assms(2) by (simp add: card_blocks_def fs_view_def)

lemma fs_view_card:
  assumes "arty_ok media live ready (paging m)" "fs_inv (fs_view (arty_content media cells) m) ni 4096 free"
  shows "fs_inv (card_blocks media cells (pg_disk (paging m))) ni 4096 free"
    "i < 64 * ni \<Longrightarrow> file_of (card_blocks media cells (pg_disk (paging m))) i = file_of (fs_view (arty_content media cells) m) i"
proof -
  have "\<forall>b<4096. card_blocks media cells (pg_disk (paging m)) b = fs_view (arty_content media cells) m b"
    using fs_view_block [OF assms(1)] by simp
  then show "fs_inv (card_blocks media cells (pg_disk (paging m))) ni 4096 free"
    "i < 64 * ni \<Longrightarrow> file_of (card_blocks media cells (pg_disk (paging m))) i = file_of (fs_view (arty_content media cells) m) i"
    using fs_inv_same [OF assms(2)] by blast+
qed

end

sublocale sd_disk \<subseteq> app: exec_file s "arty_content media cells" "\<lambda>p i f. slot_of p f = Some i" "arty_ok media live ready"
    "app_read s old (int ino)" img N "app_good (arty_content media cells) old ino img N" for old ino img N
proof unfold_locales
  fix m :: "'a mmu" and n
  let ?C = "arty_content media cells" and ?d = "pg_disk (paging m)"
  assume ok: "arty_ok media live ready (paging m)" and g: "app_good ?C old ino img N m" and n: "n < N"
  obtain ni free where F: "fs_inv (fs_view ?C m) ni 4096 free" "ino < 64 * ni" "file_of (fs_view ?C m) ino = map img [0..<N]"
    and o: "\<forall>n. length (old n) = 1024" "N < 2147483648" using g by (auto simp: app_good_def)
  note V = fs_view_card [OF ok F(1)]
  have "ni < 4096" using F(1) tree_invD(3) by (auto simp: fs_inv_def)
  then have i: "ino < 2147483648" "n < 2147483648" using F(2) n o(2) by simp_all
  have k: "card_ok media live ready ?d \<and> (\<forall>b<4096. cells (media (dd_dev ?d)) b = cells (media (dd_dev ?d)) b)" using ok by (simp add: arty_ok_def)
  obtain d where R: "file_read (treedisk_init (fs_disk_init s) 0) old (int ino) (int n) ?d = Some (0, img n, d)"
    "card_ok media live ready d" "\<forall>b<4096. cells (media (dd_dev d)) b = cells (media (dd_dev ?d)) b" "card_blocks media cells d = card_blocks media cells ?d"
    using block_store.file_read_file [OF fs_store_low [of "cells (media (dd_dev ?d))"], OF k V(1) o(1) i] V(2) [OF F(2)] F(2,3) n by auto
  note S = same_content [OF ok R(2) same_cells [OF R(3,4)]]
  have "app_read s old (int ino) n m = Some (img n, m\<lparr>paging := paging (set_disk d m)\<rparr>)" by (simp add: app_read_def R(1) set_disk_def)
  moreover have "app_good ?C old ino img N (set_disk d m)" using app_good_cong [OF g] S(3) by simp
  then have "app_good ?C old ino img N (m\<lparr>paging := paging (set_disk d m)\<rparr>)" by (simp add: set_disk_def)
  ultimately show "\<exists>p. app_read s old (int ino) n m = Some (img n, m\<lparr>paging := p\<rparr>) \<and> arty_ok media live ready p
      \<and> app_good ?C old ino img N (m\<lparr>paging := p\<rparr>) \<and> ?C p = ?C (paging m)
      \<and> (\<lambda>i f. slot_of p f = Some i) = (\<lambda>i f. slot_of (paging m) f = Some i)"
    using S by (intro exI [of _ "paging (set_disk d m)"]) simp
qed (erule app_good_cong app_good_length; assumption)+

context exec_file
begin

lemma elf_app_good:
  assumes L: "loadable ok q m" "good m" "0 < N"
    and k: "k < e_phnum (img 0)" "pheader (img 0) k = Some h" "p_memsz h \<noteq> 0" "p_vaddr h = APPS_ENTRY_ADDR"
    and rest: "\<forall>i<e_phnum (img 0). i \<noteq> k \<longrightarrow> (\<exists>g. pheader (img 0) i = Some g \<and> p_memsz g = 0)"
    and sz: "p_filesz h \<le> APPS_SIZE" "\<forall>i<p_filesz h. p_offset h div 512 + i div 512 < N"
    and fresh: "\<forall>n. aspace content m q n = None" "5 \<le> nfree m"
    and args: "\<forall>page. length page = PAGE_SIZE \<longrightarrow> (\<exists>p. load_args argc argv page = Some p \<and> args_page c a p)"
  shows "\<exists>m' page. elf_load s q reader argc argv m = Some m' \<and> loadable ok q m' \<and> good m' \<and> nfree m' + 5 = nfree m
     \<and> (\<forall>i<APPS_SIZE. user_byte content m' q (APPS_ENTRY_ADDR + i) =
          Some (if i < p_filesz h then img (p_offset h div 512 + i div 512) ! (i mod 512) else 0))
     \<and> aspace content m' q 0x80000 = Some page \<and> args_page c a page \<and> aspace content m' q 0x80001 \<noteq> None
     \<and> (\<forall>r n. r \<noteq> 0 \<and> r \<noteq> q \<longrightarrow> aspace content m' r n = aspace content m r n)"
proof -
  obtain m1 where m1: "loadable ok q m1" "good m1" "nfree m1 = nfree m" "aspace content m1 = aspace content m"
    "elf_load s q reader argc argv m = load_app s q reader argc argv h m1"
    using elf_load_one [OF L k(1-3) rest, of q argc argv] k(4) by auto
  have "\<forall>n. aspace content m1 q n = None" "5 \<le> nfree m1" using fresh m1(3,4) by simp_all
  from load_app_ok [OF m1(1,2) sz this args, of "\<lambda>i. img (p_offset h div 512 + i div 512) ! (i mod 512)"] m1(3-5)
  show ?thesis by (simp only: simp_thms) blast
qed

text \<open>The frames of the disk above the swap space are as good as any other fact that holds while a file is read.\<close>

lemma frame_file: "exec_file s content holds ok reader img N (\<lambda>m. good m \<and> (\<forall>g\<ge>NFRAMES. content (paging m) g = K g))"
proof unfold_locales
  fix m :: "'a mmu" and n
  assume "ok (paging m)" "good m \<and> (\<forall>g\<ge>NFRAMES. content (paging m) g = K g)" "n < N"
  then show "\<exists>p. reader n m = Some (img n, m\<lparr>paging := p\<rparr>) \<and> ok p \<and> (good (m\<lparr>paging := p\<rparr>) \<and> (\<forall>g\<ge>NFRAMES. content (paging (m\<lparr>paging := p\<rparr>)) g = K g))
      \<and> content p = content (paging m) \<and> holds p = holds (paging m)" using reader_ok [of m n] by fastforce
next
  fix m m' :: "'a mmu"
  assume "good m \<and> (\<forall>g\<ge>NFRAMES. content (paging m) g = K g)" "\<forall>g\<ge>NFRAMES. content (paging m') g = content (paging m) g"
  then show "good m' \<and> (\<forall>g\<ge>NFRAMES. content (paging m') g = K g)" using good_cong [of m m'] by simp
qed (use img_length in blast)

lemma elf_app_ok:
  assumes L: "loadable ok q m" "good m" "0 < N"
    and k: "k < e_phnum (img 0)" "pheader (img 0) k = Some h" "p_memsz h \<noteq> 0" "p_vaddr h = APPS_ENTRY_ADDR"
    and rest: "\<forall>i<e_phnum (img 0). i \<noteq> k \<longrightarrow> (\<exists>g. pheader (img 0) i = Some g \<and> p_memsz g = 0)"
    and sz: "p_filesz h \<le> APPS_SIZE" "\<forall>i<p_filesz h. p_offset h div 512 + i div 512 < N"
    and fresh: "\<forall>n. aspace content m q n = None" "5 \<le> nfree m"
    and args: "\<forall>page. length page = PAGE_SIZE \<longrightarrow> (\<exists>p. load_args argc argv page = Some p \<and> args_page c a p)"
  shows "\<exists>m' page. elf_load s q reader argc argv m = Some m' \<and> loadable ok q m' \<and> good m' \<and> (\<forall>g\<ge>NFRAMES. content (paging m') g = content (paging m) g) \<and> nfree m' + 5 = nfree m
     \<and> (\<forall>i<APPS_SIZE. user_byte content m' q (APPS_ENTRY_ADDR + i) =
          Some (if i < p_filesz h then img (p_offset h div 512 + i div 512) ! (i mod 512) else 0))
     \<and> aspace content m' q 0x80000 = Some page \<and> args_page c a page \<and> aspace content m' q 0x80001 \<noteq> None
     \<and> (\<forall>r n. r \<noteq> 0 \<and> r \<noteq> q \<longrightarrow> aspace content m' r n = aspace content m r n)"
  using exec_file.elf_app_good [OF frame_file [of "content (paging m)"] L(1) _ L(3) k rest sz fresh args] L(2) by (simp only: simp_thms) blast

end

context sd_disk
begin

lemmas server_app_ok = exec.elf_app_ok

lemma server_lookup_ok:
  assumes "arty_ok media live ready (paging m)" "fs_inv (fs_view (arty_content media cells) m) ni 4096 free" "\<forall>n. length (old n) = 1024"
    and "i < 64 * ni" "file_of (fs_view (arty_content media cells) m) i = (dir_text es @ 0 # r) # rest" "dir_ok es"
    and "dir_word name" "\<not> list_all isdigit name" "length name < 32" "length name \<le> length (dir_text es)"
  shows "\<exists>d. server_lookup s old (int i) name m = Some (case dir_entries es name of Some v \<Rightarrow> v | None \<Rightarrow> - 1, set_disk d m)
     \<and> arty_ok media live ready (paging (set_disk d m))
     \<and> arty_content media cells (paging (set_disk d m)) = arty_content media cells (paging m)"
proof -
  let ?d = "pg_disk (paging m)"
  note V = fs_view_card [OF assms(1,2)]
  have "ni < 4096" using assms(2) tree_invD(3) by (auto simp: fs_inv_def)
  then have i: "i < 2147483648" using assms(4) by simp
  have k: "card_ok media live ready ?d \<and> (\<forall>b<4096. cells (media (dd_dev ?d)) b = cells (media (dd_dev ?d)) b)" using assms(1) by (simp add: arty_ok_def)
  have f: "file_of (card_blocks media cells ?d) i = (dir_text es @ 0 # r) # rest" using V(2) [OF assms(4)] assms(5) by simp
  obtain d where R: "dir_lookup (treedisk_init (fs_disk_init s) 0) old (int i) name ?d = Some (case dir_entries es name of Some v \<Rightarrow> v | None \<Rightarrow> - 1, d)"
    "card_ok media live ready d" "\<forall>b<4096. cells (media (dd_dev d)) b = cells (media (dd_dev ?d)) b" "card_blocks media cells d = card_blocks media cells ?d"
    using block_store.dir_lookup_entry [OF fs_store_low [of "cells (media (dd_dev ?d))"], OF k V(1) assms(3) i assms(4) f assms(6-10)] by blast
  note S = same_content [OF assms(1) R(2) same_cells [OF R(3,4)]]
  show ?thesis using S R(1) by (intro exI [of _ d]) (simp add: server_lookup_def)
qed

end

subsection \<open>The message of the shell\<close>

lemma cstr_extend: "cstr a = Some w \<Longrightarrow> cstr (a @ b) = Some w"
  by (induction a arbitrary: w) (auto split: if_splits)

lemma request_buffer:
  assumes r: "request_ok r" "req_type r < UINT" and o: "length o6 = 1024" and buf: "buf = delivered (request_bytes r) o6"
  shows "length buf = 1024" "get32 buf 0 = req_type r" "get32 buf 1 = req_argc r" "int_of_u32 (get32 buf 1) = int (req_argc r)"
    "drop 8 buf = concat (req_argv r) @ drop 520 o6" "length (concat (req_argv r)) = 512" "cstr (req_argv r ! 0) = Some w \<Longrightarrow> cstr (drop 8 buf) = Some w"
    "1 \<le> req_argc r \<Longrightarrow> last_arg buf = Some (req_argv r ! (req_argc r - 1) ! 0)"
proof -
  have a: "\<forall>x\<in>set (req_argv r). length x = 32" "length (req_argv r) = 16" "req_argc r \<le> 16"
    using r(1) by (auto simp: request_ok_def arg_ok_def in_set_conv_nth)
  show c: "length (concat (req_argv r)) = 512" using concat_const_length [OF a(1)] a(2) by simp
  show g: "get32 buf 0 = req_type r" "get32 buf 1 = req_argc r"
    using r(2) a(3) by (simp_all add: buf delivered_def request_bytes_def)
  show i: "int_of_u32 (get32 buf 1) = int (req_argc r)" using g(2) a(3) by (simp add: int_of_u32_def)
  show len: "length buf = 1024" using c o by (simp add: buf delivered_def request_bytes_def del: length_concat)
  show d: "drop 8 buf = concat (req_argv r) @ drop 520 o6" using c by (simp add: buf delivered_def request_bytes_def del: length_concat)
  obtain x xs where x: "req_argv r = x # xs" using a(2) by (cases "req_argv r") auto
  show "cstr (req_argv r ! 0) = Some w \<Longrightarrow> cstr (drop 8 buf) = Some w" unfolding d x by (simp add: cstr_extend)
  show "last_arg buf = Some (req_argv r ! (req_argc r - 1) ! 0)" if n: "1 \<le> req_argc r"
  proof -
    let ?k = "req_argc r - 1"
    have k: "?k < 16" "8 + 32 * (int (req_argc r) - 1) = int (8 + 32 * ?k)" using n a(3) by (simp_all add: of_nat_diff)
    have "req_argv r ! ?k = take 32 (drop (32 * ?k) (drop 8 buf))"
      using piece_of_concat [OF a(1), of ?k "drop 520 o6"] a(2) k(1) by (simp add: d)
    then have "req_argv r ! ?k ! 0 = buf ! (8 + 32 * ?k)" using len k(1) by (simp add: add.commute)
    then show ?thesis unfolding last_arg_def i k(2) Let_def nat_int using len k(1) by simp
  qed
qed

lemma reply_buffer:
  assumes "8 \<le> length buf"
  shows "take 4 (put32 buf 0 v) = le32 v" "last_arg (put32 buf 0 v) = last_arg buf"
proof -
  have "put32 (take 4 buf @ drop 4 buf) 0 v = le32 v @ drop 4 buf" using assms by (intro put32_head) simp
  then show "take 4 (put32 buf 0 v) = le32 v" by simp
  have g: "get32 (put32 buf 0 v) 1 = get32 buf 1" by (rule get32_put32_other) simp
  have n: "put32 buf 0 v ! nat i = buf ! nat i" if "0 \<le> i" "i = 8 + 32 * j" for i j :: int
  proof -
    have "8 \<le> i" using that by presburger
    then show ?thesis using nth_put32 [of "nat i" 0 buf v] by simp
  qed
  define i where "i = 8 + 32 * (int_of_u32 (get32 buf 1) - 1)"
  have "(if 0 \<le> i \<and> i < int (length buf) then Some (put32 buf 0 v ! nat i) else None) =
      (if 0 \<le> i \<and> i < int (length buf) then Some (buf ! nat i) else None)" using n [OF _ i_def] by simp
  then show "last_arg (put32 buf 0 v) = last_arg buf" unfolding last_arg_def g Let_def length_put32 i_def .
qed

lemma set_disk_fields [simp]:
  "table (set_disk d m) = table m" "curr_vm_pid (set_disk d m) = curr_vm_pid m" "upages (set_disk d m) = upages m"
  "translation (set_disk d m) = translation m" "mmu_inv (set_disk d m) = mmu_inv m" "nfree (set_disk d m) = nfree m"
  by (simp_all add: set_disk_def mmu_inv_def nfree_def)

lemma set_disk_aspace:
  assumes "cont (paging (set_disk d m)) = cont (paging m)"
  shows "aspace cont (set_disk d m) = aspace cont m" "fs_view cont (set_disk d m) = fs_view cont m"
  using assms by (simp_all add: aspace_def frame_of_def fun_eq_iff fs_view_def disk_block_def cong: if_cong)

lemma dir_entries_length: "dir_entries es name = Some v \<Longrightarrow> length name \<le> length (dir_text es)"
  by (induction es) (auto simp: dir_entries_def split: if_splits)

subsection \<open>Spawning a command\<close>

text \<open>
  What a request finds: \<open>B\<close> is the file system, with the directory of the commands at inode \<open>bin\<close>, in which
  \<open>name\<close> has inode \<open>ino\<close>.
\<close>

definition command_at :: "blocks \<Rightarrow> nat \<Rightarrow> byte list \<Rightarrow> int option \<Rightarrow> bool" where
  "command_at B ni name ino \<longleftrightarrow> (\<exists>free es r f bin es' r' f'. fs_inv B ni 4096 free
     \<and> file_of B 0 = (dir_text es @ 0 # r) # f \<and> dir_ok es \<and> dir_entries es (chars ''bin/'') = Some (int bin)
     \<and> bin < 64 * ni \<and> file_of B bin = (dir_text es' @ 0 # r') # f' \<and> dir_ok es' \<and> dir_entries es' name = ino
     \<and> length name \<le> length (dir_text es'))"

lemma command_atI:
  "fs_inv B ni 4096 free \<Longrightarrow> file_of B 0 = (dir_text es @ 0 # r) # f \<Longrightarrow> dir_ok es \<Longrightarrow> dir_entries es (chars ''bin/'') = Some (int bin)
     \<Longrightarrow> bin < 64 * ni \<Longrightarrow> file_of B bin = (dir_text es' @ 0 # r') # f' \<Longrightarrow> dir_ok es' \<Longrightarrow> dir_entries es' name = ino
     \<Longrightarrow> length name \<le> length (dir_text es') \<Longrightarrow> command_at B ni name ino"
  unfolding command_at_def by blast

lemma bin_word: "dir_word (chars ''bin/'')" "\<not> list_all isdigit (chars ''bin/'')" "length (chars ''bin/'') < 32"
  by (simp_all add: root_dir_text)

context sd_disk
begin

lemma lookups_ok:
  assumes ok: "arty_ok media live ready (paging m)" and c: "command_at (fs_view (arty_content media cells) m) ni name ino"
    and old: "\<forall>n. length (old n) = 1024" and n: "dir_word name" "\<not> list_all isdigit name" "length name < 32"
  shows "\<exists>b m1 d. server_lookup s old 0 (chars ''bin/'') m = Some (b, m1)
     \<and> server_lookup s old b name m1 = Some (case ino of Some v \<Rightarrow> v | None \<Rightarrow> - 1, set_disk d m)
     \<and> arty_ok media live ready (paging (set_disk d m))
     \<and> arty_content media cells (paging (set_disk d m)) = arty_content media cells (paging m)"
proof -
  let ?C = "arty_content media cells"
  obtain free es r f bin es' r' f' where F: "fs_inv (fs_view ?C m) ni 4096 free"
     "file_of (fs_view ?C m) 0 = (dir_text es @ 0 # r) # f" "dir_ok es" "dir_entries es (chars ''bin/'') = Some (int bin)"
     "bin < 64 * ni" "file_of (fs_view ?C m) bin = (dir_text es' @ 0 # r') # f'" "dir_ok es'" "dir_entries es' name = ino"
     "length name \<le> length (dir_text es')"
    using c unfolding command_at_def by blast
  have "0 < 64 * ni" using F(5) by simp
  from server_lookup_ok [OF ok F(1) old this F(2,3) bin_word dir_entries_length [OF F(4)]] F(4) obtain d1 where
    L1: "server_lookup s old 0 (chars ''bin/'') m = Some (int bin, set_disk d1 m)" "arty_ok media live ready (paging (set_disk d1 m))"
      "?C (paging (set_disk d1 m)) = ?C (paging m)" by auto
  note V = set_disk_aspace(2) [OF L1(3)]
  have d: "set_disk d2 (set_disk d1 m) = set_disk d2 m" for d2 by (simp add: set_disk_def)
  from server_lookup_ok [OF L1(2), unfolded V, OF F(1) old F(5-7) n F(9)] obtain d2 where
    L2: "server_lookup s old (int bin) name (set_disk d1 m) = Some (case ino of Some v \<Rightarrow> v | None \<Rightarrow> - 1, set_disk d2 m)"
      "arty_ok media live ready (paging (set_disk d2 m))" "?C (paging (set_disk d2 m)) = ?C (paging (set_disk d1 m))"
    unfolding d F(8) by blast
  then show ?thesis using L1 by metis
qed

lemma app_spawn_ok:
  assumes ok: "arty_ok media live ready (paging (ps_mmu st))" "mmu_inv (ps_mmu st)"
    and q: "q = ps_nprocs st + 1" "q \<noteq> curr_vm_pid (ps_mmu st)" "translation (ps_mmu st) = SOFT_TLB \<or> q < 32"
    and fresh: "\<forall>n. aspace (arty_content media cells) (ps_mmu st) q n = None" "5 \<le> nfree (ps_mmu st)"
    and tab: "0 \<le> ps_nprocs st" "proc_alloc (ps_nprocs st) (ps_table st) = Some (q, q, ps)"
    and c: "command_at (fs_view (arty_content media cells) (ps_mmu st)) ni name (Some (int ino))"
    and old: "\<forall>n. length (old n) = 1024" and n: "dir_word name" "\<not> list_all isdigit name" "length name < 32"
    and f: "ino < 64 * ni" "file_of (fs_view (arty_content media cells) (ps_mmu st)) ino = map img [0..<N]" "0 < N" "N < 2147483648"
    and k: "k < e_phnum (img 0)" "pheader (img 0) k = Some h" "p_memsz h \<noteq> 0" "p_vaddr h = APPS_ENTRY_ADDR"
    and rest: "\<forall>i<e_phnum (img 0). i \<noteq> k \<longrightarrow> (\<exists>g. pheader (img 0) i = Some g \<and> p_memsz g = 0)"
    and sz: "p_filesz h \<le> APPS_SIZE" "\<forall>i<p_filesz h. p_offset h div 512 + i div 512 < N"
    and buf: "cstr (drop 8 buf) = Some name" "last_arg buf = Some l" "int_of_u32 (get32 buf 1) = int argc" "1 \<le> argc" "argc \<le> 16" "512 \<le> length (drop 8 buf)"
    and argc': "argc' = (if l = 38 then argc - 1 else argc)"
  shows "\<exists>m' page. app_spawn s old buf st = Some (0, st\<lparr>app_ino := int ino, app_pid := q, ps_nprocs := q, ps_mmu := m', ps_table := proc_set_ready q ps\<rparr>)
     \<and> arty_ok media live ready (paging m') \<and> mmu_inv m' \<and> nfree m' + 5 = nfree (ps_mmu st)
     \<and> fs_view (arty_content media cells) m' = fs_view (arty_content media cells) (ps_mmu st)
     \<and> (\<forall>i<APPS_SIZE. user_byte (arty_content media cells) m' q (APPS_ENTRY_ADDR + i) =
          Some (if i < p_filesz h then img (p_offset h div 512 + i div 512) ! (i mod 512) else 0))
     \<and> aspace (arty_content media cells) m' q 0x80000 = Some page \<and> args_page argc' (drop 8 buf) page
     \<and> aspace (arty_content media cells) m' q 0x80001 \<noteq> None
     \<and> (\<forall>r n. r \<noteq> 0 \<and> r \<noteq> q \<longrightarrow> aspace (arty_content media cells) m' r n = aspace (arty_content media cells) (ps_mmu st) r n)"
proof -
  let ?C = "arty_content media cells" and ?ok = "arty_ok media live ready"
  from lookups_ok [OF ok(1) c old n] obtain b m1 d where
    L: "server_lookup s old 0 (chars ''bin/'') (ps_mmu st) = Some (b, m1)" "server_lookup s old b name m1 = Some (int ino, set_disk d (ps_mmu st))"
      "?ok (paging (set_disk d (ps_mmu st)))" "?C (paging (set_disk d (ps_mmu st))) = ?C (paging (ps_mmu st))" by auto
  let ?m = "set_disk d (ps_mmu st)"
  note V = set_disk_aspace [OF L(4)]
  have load: "loadable ?ok q ?m" using L(3) ok(2) q tab(1) by (simp add: loadable_def)
  obtain free where "fs_inv (fs_view ?C (ps_mmu st)) ni 4096 free" using c unfolding command_at_def by blast
  then have g: "app_good ?C old ino img N ?m" using old f V(2) by (auto simp: app_good_def)
  have c16: "argc' \<le> 16" using argc' buf(5) by auto
  have args: "\<forall>page. length page = PAGE_SIZE \<longrightarrow> (\<exists>p. load_args (int argc') (Some (drop 8 buf)) page = Some p \<and> args_page argc' (drop 8 buf) p)"
    using load_args_page(1) [of argc'] buf(6) c16 by simp
  have "\<forall>n. aspace ?C ?m q n = None" "5 \<le> nfree ?m" using fresh V(1) by simp_all
  from app.elf_app_ok [OF load g f(3) k rest sz this args, unfolded V(1)] obtain m' page where
    E: "elf_load s q (app_read s old (int ino)) (int argc') (Some (drop 8 buf)) ?m = Some m'" "loadable ?ok q m'" "nfree m' + 5 = nfree ?m" "\<forall>g\<ge>NFRAMES. ?C (paging m') g = ?C (paging ?m) g"
      "\<forall>i<APPS_SIZE. user_byte ?C m' q (APPS_ENTRY_ADDR + i) = Some (if i < p_filesz h then img (p_offset h div 512 + i div 512) ! (i mod 512) else 0)"
      "aspace ?C m' q 0x80000 = Some page" "args_page argc' (drop 8 buf) page" "aspace ?C m' q 0x80001 \<noteq> None"
      "\<forall>r n. r \<noteq> 0 \<and> r \<noteq> q \<longrightarrow> aspace ?C m' r n = aspace ?C (ps_mmu st) r n" by (elim exE conjE) (rule that)
  have a: "l = 38 \<Longrightarrow> int argc - 1 = int argc'" "l \<noteq> 38 \<Longrightarrow> argc = argc'" using argc' buf(4) by (simp_all add: of_nat_diff)
  have "app_spawn s old buf st = Some (0, st\<lparr>app_ino := int ino, app_pid := q, ps_nprocs := q, ps_mmu := m', ps_table := proc_set_ready q ps\<rparr>)"
    unfolding app_spawn_def buf(3) by (simp add: L(1,2) buf(1,2) tab(2) a E(1) Let_def)
  with E fs_view_cong [OF E(4)] V(2) show ?thesis by (intro exI [of _ m'] exI [of _ page]) (simp add: loadable_def)
qed

end

text \<open>
  The executable of an application: one loadable program header \<open>h\<close>, for the address of the applications, whose
  segment has at most the size of an application and lies inside of the file.
\<close>

definition elf_image :: "(nat \<Rightarrow> byte list) \<Rightarrow> nat \<Rightarrow> elf32_program_header \<Rightarrow> bool" where
  "elf_image img N h \<longleftrightarrow> 0 < N \<and> N < 2147483648
     \<and> (\<exists>k<e_phnum (img 0). pheader (img 0) k = Some h \<and> p_memsz h \<noteq> 0 \<and> p_vaddr h = APPS_ENTRY_ADDR
          \<and> (\<forall>i<e_phnum (img 0). i \<noteq> k \<longrightarrow> (\<exists>g. pheader (img 0) i = Some g \<and> p_memsz g = 0)))
     \<and> p_filesz h \<le> APPS_SIZE \<and> (\<forall>i<p_filesz h. p_offset h div 512 + i div 512 < N)"

text \<open>There is a free slot in the process table, and five free frames for an address space nobody has used.\<close>

definition can_spawn :: "('c pager \<Rightarrow> nat \<Rightarrow> byte list) \<Rightarrow> 'c proc_server \<Rightarrow> bool" where
  "can_spawn cont st \<longleftrightarrow> mmu_inv (ps_mmu st) \<and> 5 \<le> nfree (ps_mmu st) \<and> ps_nprocs st + 1 \<noteq> curr_vm_pid (ps_mmu st)
     \<and> (translation (ps_mmu st) = SOFT_TLB \<or> ps_nprocs st + 1 < 32)
     \<and> (\<forall>n. aspace cont (ps_mmu st) (ps_nprocs st + 1) n = None)
     \<and> ptable_inv (ps_nprocs st) (ps_table st) \<and> killable_inv (ps_table st) \<and> (\<exists>p\<in>set (ps_table st). status p = PROC_UNUSED)"

text \<open>The entry of process \<open>q\<close> is new and ready; the others are those of \<open>ps\<close>.\<close>

definition ready_entry :: "int \<Rightarrow> process list \<Rightarrow> process list \<Rightarrow> bool" where
  "ready_entry q ps ps' \<longleftrightarrow> (\<exists>i<length ps. status (ps ! i) = PROC_UNUSED \<and> pid (ps' ! i) = q \<and> status (ps' ! i) = PROC_READY
     \<and> (\<forall>j<length ps. j \<noteq> i \<longrightarrow> ps' ! j = ps ! j))"

lemma alloc_ready:
  assumes "ptable_inv n ps" "killable_inv ps" "\<exists>p\<in>set ps. status p = PROC_UNUSED"
  shows "\<exists>ps'. proc_alloc n ps = Some (n + 1, n + 1, ps') \<and> ready_entry (n + 1) ps (proc_set_ready (n + 1) ps') \<and> ptable_inv (n + 1) (proc_set_ready (n + 1) ps')
     \<and> killable_inv (proc_set_ready (n + 1) ps')"
proof -
  from proc_alloc_spec [OF assms(1,2)] assms(3) obtain ps' i where
    A: "proc_alloc n ps = Some (n + 1, n + 1, ps')" "ptable_inv (n + 1) ps'" "i < length ps" "status (ps ! i) = PROC_UNUSED" "pid (ps' ! i) = n + 1"
      "\<forall>j<length ps. j \<noteq> i \<longrightarrow> ps' ! j = ps ! j" and K: "killable_inv ps'" "status (ps' ! i) = PROC_LOADING"
    by (auto simp: proc_alloc_def Let_def split: option.splits)
  have l: "length ps' = length ps" "0 \<le> n" using ptable_invD(1,2) [OF assms(1)] ptable_invD(1) [OF A(2)] by simp_all
  have "pid (ps ! j) \<noteq> n + 1" if "j < length ps" for j using ptable_invD(4) [OF assms(1) that] by simp
  then have "ready_entry (n + 1) ps (proc_set_ready (n + 1) ps')" using A(3-6) l
    unfolding ready_entry_def proc_set_ready_def by (intro exI [of _ i]) (simp add: proc_set_status_nth)
  moreover have "status p \<noteq> PROC_UNUSED" if "p \<in> set ps'" "pid p = n + 1" for p
    using that A(3,5) K(2) l ptable_invD(6) [OF A(2)] by (fastforce simp: in_set_conv_nth)
  then have "killable_inv (proc_set_ready (n + 1) ps')" using K(1) by (auto simp: killable_inv_def proc_set_ready_def proc_set_status_def)
  ultimately show ?thesis using A(1) proc_set_status_ptable [OF A(2)] l(2) by (simp add: proc_set_ready_def)
qed

lemma reply_spawn:
  assumes "request_ok r" "req_type r = PROC_SPAWN" "1 \<le> req_argc r" "length o6 = 1024" "buf = delivered (request_bytes r) o6"
    and "app_spawn s old buf st = Some (c, st')"
  shows "sys_proc_serve s old sender buf st =
     Some (Some (le32 (if c < 0 then CMD_ERROR else CMD_OK)), st'\<lparr>shell_waiting := (req_argv r ! (req_argc r - 1) ! 0 \<noteq> 38)\<rparr>)"
proof -
  have "req_type r < UINT" using assms(2) by simp
  note B = request_buffer [OF assms(1) this assms(4,5)]
  have "8 \<le> length buf" using B(1) by simp
  from reply_buffer [OF this] show ?thesis using B(2) B(8) [OF assms(3)] assms(2,6) by (simp add: sys_proc_serve_def Let_def)
qed

text \<open>The strings of an argument page.\<close>

lemma args_page_strings:
  assumes "args_page n (concat (args_of ws) @ r) page" "n \<le> length ws" "length ws \<le> 16" "i < n" "0 \<notin> set (ws ! i)" "length (ws ! i) < 32"
  shows "cstr (drop (68 + 32 * i) page) = Some (ws ! i)"
proof -
  have c: "\<forall>x\<in>set (args_of ws). length x = 32" by (auto simp: args_of_def strncpy_def)
  have l: "length (args_of ws) = 16" "args_of ws ! i = strncpy 32 (ws ! i)" using assms(2-4) args_of_nth [of i ws] by (simp_all add: args_of_def)
  define A where "A = concat (args_of ws) @ r"
  have p: "strncpy 32 (ws ! i) = take 32 (drop (32 * i) A)" using piece_of_concat [OF c, of i r] l assms(2-4) by (simp add: A_def)
  have b: "page ! (68 + j) = A ! j" if "j < n * 32" for j using assms(1) that by (simp add: args_page_def A_def)
  have lp: "length page = 4096" using assms(1) by (simp add: args_page_def)
  have lA: "length A \<ge> 512" using concat_const_length [OF c] l(1) by (simp add: A_def del: length_concat)
  have "take 32 (drop (68 + 32 * i) page) = take 32 (drop (32 * i) A)"
  proof (rule nth_equalityI)
    show "length (take 32 (drop (68 + 32 * i) page)) = length (take 32 (drop (32 * i) A))" using lp lA assms(2-4) by simp
    show "take 32 (drop (68 + 32 * i) page) ! j = take 32 (drop (32 * i) A) ! j" if "j < length (take 32 (drop (68 + 32 * i) page))" for j
      using that b [of "32 * i + j"] lp lA assms(2-4) by (simp add: add.assoc)
  qed
  then have "take 32 (drop (68 + 32 * i) page) = strncpy 32 (ws ! i)" using p by simp
  then have "drop (68 + 32 * i) page = strncpy 32 (ws ! i) @ drop 32 (drop (68 + 32 * i) page)" by (metis append_take_drop_id)
  then show ?thesis using cstr_extend [OF cstr_strncpy [OF assms(5,6)]] by metis
qed

lemma command_spawned_ok:
  assumes "sd_disk s media xfer live loaded txw rxw ready idle cells ncells"
    and "C = arty_content media cells" "arty_ok media live ready (paging (ps_mmu st))" "can_spawn C st"
    and "command_at (fs_view C (ps_mmu st)) ni name (Some (int ino))" "ino < 64 * ni"
    and "file_of (fs_view C (ps_mmu st)) ino = map img [0..<N]" "elf_image img N h" "\<forall>n. length (old n) = 1024"
    and "request_ok r" "req_type r = PROC_SPAWN" "1 \<le> req_argc r" "cstr (req_argv r ! 0) = Some name"
    and "dir_word name" "\<not> list_all isdigit name" "length name < 32" "buf = delivered (request_bytes r) (old 6)"
    and "bg \<longleftrightarrow> req_argv r ! (req_argc r - 1) ! 0 = 38" "q = ps_nprocs st + 1"
  shows "\<exists>st' page. sys_proc_serve s old sender buf st = Some (Some (le32 CMD_OK), st')
     \<and> app_pid st' = q \<and> ps_nprocs st' = q \<and> shell_waiting st' = (\<not> bg) \<and> ready_entry q (ps_table st) (ps_table st')
     \<and> ptable_inv q (ps_table st') \<and> killable_inv (ps_table st') \<and> mmu_inv (ps_mmu st') \<and> arty_ok media live ready (paging (ps_mmu st')) \<and> nfree (ps_mmu st') + 5 = nfree (ps_mmu st)
     \<and> fs_view C (ps_mmu st') = fs_view C (ps_mmu st)
     \<and> (\<forall>i<APPS_SIZE. user_byte C (ps_mmu st') q (APPS_ENTRY_ADDR + i) =
          Some (if i < p_filesz h then img (p_offset h div 512 + i div 512) ! (i mod 512) else 0))
     \<and> aspace C (ps_mmu st') q 0x80000 = Some page \<and> args_page (if bg then req_argc r - 1 else req_argc r) (concat (req_argv r) @ drop 520 (old 6)) page
     \<and> aspace C (ps_mmu st') q 0x80001 \<noteq> None
     \<and> (\<forall>p n. p \<noteq> 0 \<and> p \<noteq> q \<longrightarrow> aspace C (ps_mmu st') p n = aspace C (ps_mmu st) p n)"
proof -
  have S: "mmu_inv (ps_mmu st)" "5 \<le> nfree (ps_mmu st)" "q \<noteq> curr_vm_pid (ps_mmu st)" "translation (ps_mmu st) = SOFT_TLB \<or> q < 32"
    "\<forall>n. aspace C (ps_mmu st) q n = None" "ptable_inv (ps_nprocs st) (ps_table st)" "killable_inv (ps_table st)"
    "\<exists>p\<in>set (ps_table st). status p = PROC_UNUSED" using assms(4) by (simp_all add: can_spawn_def assms(19))
  have I: "0 < N" "N < 2147483648" "p_filesz h \<le> APPS_SIZE" "\<forall>i<p_filesz h. p_offset h div 512 + i div 512 < N"
    using assms(8) by (simp_all add: elf_image_def)
  obtain k where K: "k < e_phnum (img 0)" "pheader (img 0) k = Some h" "p_memsz h \<noteq> 0" "p_vaddr h = APPS_ENTRY_ADDR"
    "\<forall>i<e_phnum (img 0). i \<noteq> k \<longrightarrow> (\<exists>g. pheader (img 0) i = Some g \<and> p_memsz g = 0)" using assms(8) unfolding elf_image_def by blast
  note o6 = spec [OF assms(9), of 6]
  have t: "req_type r < UINT" using assms(11) by simp
  note B = request_buffer [OF assms(10) t o6 assms(17)]
  have b: "argc \<le> 16" "512 \<le> length (drop 8 buf)" if "argc = req_argc r" for argc using assms(10) B(1) that by (simp_all add: request_ok_def)
  from alloc_ready [OF S(6-8)] obtain ps where P: "proc_alloc (ps_nprocs st) (ps_table st) = Some (q, q, ps)"
    "ready_entry q (ps_table st) (proc_set_ready q ps)" "ptable_inv q (proc_set_ready q ps)" "killable_inv (proc_set_ready q ps)" unfolding assms(19) by blast
  have n: "0 \<le> ps_nprocs st" using ptable_invD(2) [OF S(6)] .
  from sd_disk.app_spawn_ok [OF assms(1,3) S(1) assms(19) S(3,4) S(5) [unfolded assms(2)] S(2) n P(1) assms(5) [unfolded assms(2)] assms(9,14-16,6)
      assms(7) [unfolded assms(2)] I(1,2) K I(3,4) B(7) [OF assms(13)] B(8) [OF assms(12)] B(4) assms(12) b [OF refl] refl]
  obtain m' page where
    E: "app_spawn s old buf st = Some (0, st\<lparr>app_ino := int ino, app_pid := q, ps_nprocs := q, ps_mmu := m', ps_table := proc_set_ready q ps\<rparr>)"
      "arty_ok media live ready (paging m')" "mmu_inv m'" "nfree m' + 5 = nfree (ps_mmu st)" "fs_view C m' = fs_view C (ps_mmu st)"
      "\<forall>i<APPS_SIZE. user_byte C m' q (APPS_ENTRY_ADDR + i) = Some (if i < p_filesz h then img (p_offset h div 512 + i div 512) ! (i mod 512) else 0)"
      "aspace C m' q 0x80000 = Some page" "args_page (if bg then req_argc r - 1 else req_argc r) (drop 8 buf) page" "aspace C m' q 0x80001 \<noteq> None"
      "\<forall>p n. p \<noteq> 0 \<and> p \<noteq> q \<longrightarrow> aspace C m' p n = aspace C (ps_mmu st) p n"
    unfolding assms(2,18) by (elim exE conjE) (rule that [unfolded assms(2,18)])
  from reply_spawn [OF assms(10-12) o6 assms(17) E(1)] E P(2-4) B(5) assms(18) show ?thesis
    by (intro exI [of _ "st\<lparr>app_ino := int ino, app_pid := q, ps_nprocs := q, ps_mmu := m', ps_table := proc_set_ready q ps, shell_waiting := \<not> bg\<rparr>"] exI [of _ page]) simp
qed


text \<open>A card with the image that the build makes has the nine commands.\<close>

context sd_disk
begin

lemma image_command_at:
  assumes "arty_ok media live ready (paging m)" "card_holds media cells img (pg_disk (paging m))" "drop 2097152 img = fs"
    and "fs_inv (ram_blocks fs) 2 4096 free" "\<forall>i<16. \<not> of_host (contents ! i) \<longrightarrow> file_of (ram_blocks fs) i = [strncpy 512 (contents ! i)]"
  shows "length name \<le> length (dir_text bin_dir) \<Longrightarrow> command_at (fs_view (arty_content media cells) m) 2 name (dir_entries bin_dir name)"
    "k < 9 \<Longrightarrow> file_of (fs_view (arty_content media cells) m) (7 + k) = file_of (ram_blocks fs) (7 + k)"
proof -
  let ?B = "fs_view (arty_content media cells) m"
  note C = card_holds_files [OF assms(2-4)]
  have V: "fs_inv ?B 2 4096 free" "file_of ?B i = file_of (ram_blocks fs) i" if "i < 128" for i
    using fs_inv_same [OF C(1), of ?B] fs_view_block [OF assms(1)] C(2) [of i] that by simp_all
  show "k < 9 \<Longrightarrow> file_of ?B (7 + k) = file_of (ram_blocks fs) (7 + k)" using V(2) [of "7 + k"] by simp
  have tx: "file_of (ram_blocks fs) 0 = [strncpy 512 (dir_text root_dir)]" "file_of (ram_blocks fs) 6 = [strncpy 512 (dir_text bin_dir)]"
    using spec [OF assms(5), of 0] spec [OF assms(5), of 6] contents_text unfolding root_dir_text(1) bin_dir_text(1) by simp_all
  have "file_of ?B 0 = (dir_text root_dir @ 0 # replicate (511 - length (dir_text root_dir)) 0) # []"
    "file_of ?B 6 = (dir_text bin_dir @ 0 # replicate (511 - length (dir_text bin_dir)) 0) # []"
    using tx V(2) [of 0] V(2) [of 6] root_dir_text(2) bin_dir_text(2) by (simp_all add: strncpy_short)
  moreover have "dir_entries root_dir (chars ''bin/'') = Some (int 6)" "(6::nat) < 64 * 2" using root_dir_text(4) by simp_all
  ultimately show "length name \<le> length (dir_text bin_dir) \<Longrightarrow> command_at ?B 2 name (dir_entries bin_dir name)"
    by (intro command_atI [OF V(1) [of 0] _ root_dir_text(3) _ _ _ bin_dir_text(3)]) simp_all
qed

end

definition elf_host :: host where
  "elf_host = \<lparr>h_file = (\<lambda>_. demo_elf 0x08005000 @ replicate 600 7), h_read = (\<lambda>_ _ _. 1)\<rparr>"

definition demo_server :: "byte list \<Rightarrow> (sim_card \<times> byte) proc_server" where
  "demo_server img = \<lparr>app_ino = 0, app_pid = 0, shell_waiting = False, ps_nprocs = 5, ps_table = sample_procs, ps_mmu = set_disk (image_disk img) demo_mmu\<rparr>"

lemma elf_host_facts:
  "host_ok elf_host" "length (replicate 131072 (9::byte)) = GRASS_EXEC_SIZE div GRASS_NEXEC" "\<forall>c\<in>set contents. fits elf_host c"
  "\<forall>n\<in>set kernel_processes. 0 < length (h_file elf_host n) \<and> length (h_file elf_host n) \<le> GRASS_EXEC_SIZE div GRASS_NEXEC"
  by (auto simp: host_ok_def elf_host_def fits_def demo_elf_header(1))

lemma demo_server_facts:
  assumes "length img = 4194304"
  shows "arty_ok fst (\<lambda>_. True) sim_ready (paging (ps_mmu (demo_server img)))" "can_spawn C (demo_server img)"
    "card_holds fst sim_cells img (pg_disk (paging (ps_mmu (demo_server img))))"
proof -
  show "arty_ok fst (\<lambda>_. True) sim_ready (paging (ps_mmu (demo_server img)))"
    using demo_mmu_ok(1) image_disk_facts(1) [OF assms] by (simp add: arty_ok_def cache_wf_def demo_server_def set_disk_def)
  show "card_holds fst sim_cells img (pg_disk (paging (ps_mmu (demo_server img))))"
    using image_disk_facts(2) by (simp add: demo_server_def set_disk_def)
  have f: "frame_of demo_mmu q n = None" for q n using demo_mmu_ok(4) [of undefined q n] by (simp add: aspace_def)
  have "aspace C (set_disk (image_disk img) demo_mmu) q n = None" for q n using f [of q n] by (simp add: aspace_def frame_of_def)
  moreover have "ptable_inv 5 sample_procs" by (auto simp: ptable_inv_def sample_procs_length sample_procs_nth split: if_splits)
  moreover have "curr_vm_pid demo_mmu = - 1" "translation demo_mmu = SOFT_TLB" by (simp_all add: demo_mmu_def)
  moreover have "\<exists>p\<in>set sample_procs. status p = PROC_UNUSED" by (simp add: sample_procs_def)
  ultimately show "can_spawn C (demo_server img)" using demo_mmu_ok(2,3) sample_procs_inv(2) by (simp add: can_spawn_def demo_server_def)
qed

lemma three_blocks:
  assumes "length (F :: byte list list) = 3" "take 1112 (concat F) = demo_elf v @ replicate 600 7" "\<forall>x\<in>set F. length x = 512" "v < UINT"
  shows "F = map ((!) F) [0..<3]" "F ! 0 = demo_elf v" "F ! 2 ! 87 = 7"
proof -
  show "F = map ((!) F) [0..<3]" using map_nth [of F] assms(1) by simp
  obtain a b c where F: "F = [a, b, c]" using assms(1) by (auto simp: numeral_3_eq_3 length_Suc_conv)
  have l: "length a = 512" "length b = 512" "length c = 512" using assms(3) F by simp_all
  have "take 512 (take 1112 (concat F)) = a" using l F by simp
  then show "F ! 0 = demo_elf v" unfolding assms(2) using demo_elf_header(1) [OF assms(4)] F by simp
  have "take 1112 (concat F) ! 1111 = c ! 87" using l F by (simp add: nth_append)
  then show "F ! 2 ! 87 = 7" unfolding assms(2) using demo_elf_header(1) [OF assms(4)] F by (simp add: nth_append)
qed

definition cat_req :: proc_request where
  "cat_req = demo_req\<lparr>req_argv := args_of [chars ''cat'', chars ''README'', chars ''&''], req_argc := 3\<rparr>"

lemma cat_req_facts:
  "request_ok cat_req" "req_type cat_req = PROC_SPAWN" "1 \<le> req_argc cat_req" "cstr (req_argv cat_req ! 0) = Some (commands ! 1)"
  "True \<longleftrightarrow> req_argv cat_req ! (req_argc cat_req - 1) ! 0 = 38"
proof -
  show "request_ok cat_req" using args_of_ok [OF demo_line_words(3), of demo_req] demo_line_words(2) cstrD [OF demo_line_words(1)] by (simp add: cat_req_def numeral_3_eq_3)
qed (simp_all add: cat_req_def demo_req_def, code_simp+)


subsection \<open>A command that is not there\<close>

lemma command_missing_ok:
  assumes "sd_disk s media xfer live loaded txw rxw ready idle cells ncells"
    and "arty_ok media live ready (paging (ps_mmu st))" "command_at (fs_view (arty_content media cells) (ps_mmu st)) ni name None"
    and "\<forall>n. length (old n) = 1024" "request_ok r" "req_type r = PROC_SPAWN" "1 \<le> req_argc r" "cstr (req_argv r ! 0) = Some name"
    and "dir_word name" "\<not> list_all isdigit name" "length name < 32"
  shows "\<exists>d. sys_proc_serve s old sender (delivered (request_bytes r) (old 6)) st =
       Some (Some (le32 CMD_ERROR), st\<lparr>app_ino := - 1, ps_mmu := set_disk d (ps_mmu st), shell_waiting := (req_argv r ! (req_argc r - 1) ! 0 \<noteq> 38)\<rparr>)
     \<and> arty_ok media live ready (paging (set_disk d (ps_mmu st)))
     \<and> arty_content media cells (paging (set_disk d (ps_mmu st))) = arty_content media cells (paging (ps_mmu st))"
proof -
  let ?buf = "delivered (request_bytes r) (old 6)"
  note o6 = spec [OF assms(4), of 6]
  have t: "req_type r < UINT" using assms(6) by simp
  note B = request_buffer [OF assms(5) t o6 refl]
  from sd_disk.lookups_ok [OF assms(1-4,9-11)] obtain b m1 d where
    L: "server_lookup s old 0 (chars ''bin/'') (ps_mmu st) = Some (b, m1)" "server_lookup s old b name m1 = Some (- 1, set_disk d (ps_mmu st))"
      "arty_ok media live ready (paging (set_disk d (ps_mmu st)))"
      "arty_content media cells (paging (set_disk d (ps_mmu st))) = arty_content media cells (paging (ps_mmu st))" by auto
  have "app_spawn s old ?buf st = Some (- 1, st\<lparr>app_ino := - 1, ps_mmu := set_disk d (ps_mmu st)\<rparr>)"
    unfolding app_spawn_def by (simp add: L(1,2) B(7) [OF assms(8)] Let_def)
  from reply_spawn [OF assms(5-7) o6 refl this] L(3,4) show ?thesis by (intro exI [of _ d]) simp
qed


lemma no_such_command: "dir_entries bin_dir (chars ''vi'') = None" "length (chars ''vi'') \<le> length (dir_text bin_dir)"
    "dir_word (chars ''vi'')" "\<not> list_all isdigit (chars ''vi'')" "length (chars ''vi'') < 32"
  by code_simp+

definition vi_req :: proc_request where
  "vi_req = demo_req\<lparr>req_argv := args_of [chars ''vi''], req_argc := 1\<rparr>"

lemma vi_req_facts:
  "request_ok vi_req" "req_type vi_req = PROC_SPAWN" "1 \<le> req_argc vi_req" "cstr (req_argv vi_req ! 0) = Some (chars ''vi'')"
proof -
  have "words_fit (chars ''vi'')" "0 \<notin> set (chars ''vi'')" "line_words (chars ''vi'') = [chars ''vi'']" by code_simp+
  then show "request_ok vi_req" using args_of_ok [of "chars ''vi''" demo_req] by (simp add: vi_req_def)
qed (simp_all add: vi_req_def demo_req_def, code_simp+)

lemma demo_server_command:
  assumes "length name \<le> length (dir_text bin_dir)"
  shows "\<exists>img. disk_img demo_host (replicate 131072 9) = Some img \<and> length img = 4194304
     \<and> command_at (fs_view (arty_content fst sim_cells) (ps_mmu (demo_server img))) 2 name (dir_entries bin_dir name)"
proof -
  from mkfs_image_ok [OF demo_host_facts] obtain img fs free where
    I: "disk_img demo_host (replicate 131072 9) = Some img" "length img = 4194304" "drop 2097152 img = fs" "fs_inv (ram_blocks fs) 2 4096 free"
      "\<forall>i<16. \<not> of_host (contents ! i) \<longrightarrow> file_of (ram_blocks fs) i = [strncpy 512 (contents ! i)]" by blast
  note S = demo_server_facts [OF I(2)]
  from sim.image_command_at(1) [OF S(1,3) I(3-5) assms] I(1,2) show ?thesis by blast
qed


text \<open>
  The process id that the server waits for is not reset: a process was started in the background, then the shell asks
  for a command that is not there. When the background process exits, the server answers the shell,
  which is not waiting for it.
\<close>

lemma stale_wait:
  assumes "sd_disk s media xfer live loaded txw rxw ready idle cells ncells"
    and "arty_ok media live ready (paging (ps_mmu st))" "command_at (fs_view (arty_content media cells) (ps_mmu st)) ni name None"
    and "\<forall>n. length (old n) = 1024" "request_ok r" "req_type r = PROC_SPAWN" "1 \<le> req_argc r" "cstr (req_argv r ! 0) = Some name"
    and "dir_word name" "\<not> list_all isdigit name" "length name < 32"
    and "req_argv r ! (req_argc r - 1) ! 0 \<noteq> 38" "get32 buf 0 = PROC_EXIT"
  shows "\<exists>st' st''. sys_proc_serve s old GPID_SHELL (delivered (request_bytes r) (old 6)) st = Some (Some (le32 CMD_ERROR), st')
     \<and> sys_proc_serve s old (app_pid st) buf st' = Some (Some (take 4 buf), st'')"
proof -
  have w: "(req_argv r ! (req_argc r - 1) ! 0 \<noteq> 38) = True" using assms(12) by simp
  from command_missing_ok [OF assms(1-11), of GPID_SHELL, unfolded w] obtain d where
    R: "sys_proc_serve s old GPID_SHELL (delivered (request_bytes r) (old 6)) st =
       Some (Some (le32 CMD_ERROR), st\<lparr>app_ino := - 1, ps_mmu := set_disk d (ps_mmu st), shell_waiting := True\<rparr>)" by blast
  have "\<exists>st''. sys_proc_serve s old (app_pid st) buf (st\<lparr>app_ino := - 1, ps_mmu := set_disk d (ps_mmu st), shell_waiting := True\<rparr>) =
      Some (Some (take 4 buf), st'')"
    using assms(13) by (simp add: sys_proc_serve_def split_beta Let_def)
  with R show ?thesis by blast
qed

subsection \<open>The other servers\<close>

text \<open>Each of the other servers is loaded from its segment of the card and is ready.\<close>

lemma sys_spawn_ok:
  assumes "sd_disk s media xfer live loaded txw rxw ready idle cells ncells"
    and "C = arty_content media cells" "arty_ok media live ready (paging (ps_mmu st))" "can_spawn C st"
    and "base \<in> {SYS_FILE_EXEC_START, SYS_DIR_EXEC_START, SYS_SHELL_EXEC_START}"
    and "img = (\<lambda>n. cells (media (dd_dev (pg_disk (paging (ps_mmu st))))) (base + n))" "elf_image img 256 h" "q = ps_nprocs st + 1"
  shows "\<exists>st'. sys_spawn s base st = Some st' \<and> ps_nprocs st' = q \<and> ready_entry q (ps_table st) (ps_table st')
     \<and> ptable_inv q (ps_table st') \<and> killable_inv (ps_table st') \<and> mmu_inv (ps_mmu st') \<and> arty_ok media live ready (paging (ps_mmu st')) \<and> nfree (ps_mmu st') + 5 = nfree (ps_mmu st)
     \<and> (\<forall>g\<ge>NFRAMES. C (paging (ps_mmu st')) g = C (paging (ps_mmu st)) g)
     \<and> (\<forall>i<APPS_SIZE. user_byte C (ps_mmu st') q (APPS_ENTRY_ADDR + i) =
          Some (if i < p_filesz h then img (p_offset h div 512 + i div 512) ! (i mod 512) else 0))
     \<and> (\<forall>p n. p \<noteq> 0 \<and> p \<noteq> q \<longrightarrow> aspace C (ps_mmu st') p n = aspace C (ps_mmu st) p n)"
proof -
  let ?ok = "arty_ok media live ready"
  have S: "mmu_inv (ps_mmu st)" "5 \<le> nfree (ps_mmu st)" "q \<noteq> curr_vm_pid (ps_mmu st)" "translation (ps_mmu st) = SOFT_TLB \<or> q < 32"
    "\<forall>n. aspace C (ps_mmu st) q n = None" "ptable_inv (ps_nprocs st) (ps_table st)" "killable_inv (ps_table st)"
    "\<exists>p\<in>set (ps_table st). status p = PROC_UNUSED" using assms(4) by (simp_all add: can_spawn_def assms(8))
  have I: "(0::nat) < 256" "p_filesz h \<le> APPS_SIZE" "\<forall>i<p_filesz h. p_offset h div 512 + i div 512 < 256"
    using assms(7) by (simp_all add: elf_image_def)
  obtain k where K: "k < e_phnum (img 0)" "pheader (img 0) k = Some h" "p_memsz h \<noteq> 0" "p_vaddr h = APPS_ENTRY_ADDR"
    "\<forall>i<e_phnum (img 0). i \<noteq> k \<longrightarrow> (\<exists>g. pheader (img 0) i = Some g \<and> p_memsz g = 0)" using assms(7) unfolding elf_image_def by blast
  have L: "loadable ?ok q (ps_mmu st)" using assms(3,8) S(1,3,4) ptable_invD(2) [OF S(6)] by (simp add: loadable_def)
  have b: "GRASS_EXEC_START \<le> base" "base + 256 \<le> 8192" using assms(5) by auto
  note G = sd_disk.exec_image [OF assms(1,3) b assms(6)]
  have args: "\<forall>page. length page = PAGE_SIZE \<longrightarrow> (\<exists>p. load_args 0 None page = Some p \<and> args_page 0 [] p)" using load_args_page(2) [of 0 _ "[]"] by simp
  from sd_disk.server_app_ok [OF assms(1) L G I(1) K I(2,3) S(5) [unfolded assms(2)] S(2) args] obtain m' where
    E: "elf_load s q (sys_proc_read s base) 0 None (ps_mmu st) = Some m'" "loadable ?ok q m'" "nfree m' + 5 = nfree (ps_mmu st)"
      "\<forall>g\<ge>NFRAMES. C (paging m') g = C (paging (ps_mmu st)) g"
      "\<forall>i<APPS_SIZE. user_byte C m' q (APPS_ENTRY_ADDR + i) = Some (if i < p_filesz h then img (p_offset h div 512 + i div 512) ! (i mod 512) else 0)"
      "\<forall>p n. p \<noteq> 0 \<and> p \<noteq> q \<longrightarrow> aspace C m' p n = aspace C (ps_mmu st) p n" unfolding assms(2) by blast
  from alloc_ready [OF S(6-8)] obtain ps where P: "proc_alloc (ps_nprocs st) (ps_table st) = Some (q, q, ps)"
    "ready_entry q (ps_table st) (proc_set_ready q ps)" "ptable_inv q (proc_set_ready q ps)" "killable_inv (proc_set_ready q ps)" unfolding assms(8) by blast
  show ?thesis using P E by (simp add: sys_spawn_def loadable_def)
qed

end
