(* ===== verification/Lifecycle.thy ===== *)
theory Lifecycle
  imports Sys_Proc
begin

section \<open>The life of a process\<close>

text \<open>
  The process server over several requests: it starts the other servers, and then any number of commands, each of which
  gives back at its exit what it took.
\<close>

subsection \<open>What loading a process changes\<close>

text \<open>
  Loading process \<open>q\<close> does not switch address spaces, and takes free frames only, which are then frames of \<open>q\<close>.
\<close>

definition grown :: "int \<Rightarrow> 'c mmu \<Rightarrow> 'c mmu \<Rightarrow> bool" where
  "grown q m m' \<longleftrightarrow> curr_vm_pid m' = curr_vm_pid m \<and> translation m' = translation m \<and> length (table m') = length (table m)
     \<and> (\<forall>f<length (table m). table m' ! f = table m ! f \<or> \<not> use (table m ! f) \<and> owns m' q f)"

lemma grown_refl [simp]: "grown q m m"
  by (simp add: grown_def)

lemma grown_trans [trans]: "grown q a b \<Longrightarrow> grown q b c \<Longrightarrow> grown q a c"
  unfolding grown_def owns_def by metis

lemma grown_same: "curr_vm_pid m' = curr_vm_pid m \<Longrightarrow> translation m' = translation m \<Longrightarrow> table m' = table m \<Longrightarrow> grown q m m'"
  by (simp add: grown_def)

lemma new_page_grown:
  assumes "new_page s q pg m = Some (a, m')"
  shows "grown q m m'"
proof -
  from assms obtain f p where f: "find_index (\<lambda>e. \<not> use e) (table m) = Some f"
    and m': "m' = m\<lparr>paging := p, table := (table m)[f := (table m ! f)\<lparr>use := True, fm_pid := q, page_no := pg\<rparr>]\<rparr>"
    by (auto simp: new_page_def mmu_alloc_def earth_mmu_map_def page_table_map_def soft_tlb_map_def bind_eq_Some_conv
        dest: find_index_SomeD(1) split: option.splits if_splits)
  show ?thesis using find_index_SomeD [OF f] by (auto simp: grown_def owns_def m' nth_list_update)
qed

definition reader_grows :: "'c elf_reader \<Rightarrow> bool" where
  "reader_grows reader \<longleftrightarrow> (\<forall>n m b m'. reader n m = Some (b, m') \<longrightarrow> (\<forall>q. grown q m m'))"

lemma readers_grow: "reader_grows (app_read s old ino)" "reader_grows (sys_proc_read s base)"
  by (auto simp: reader_grows_def app_read_def sys_proc_read_def bind_eq_Some_conv set_disk_def intro: grown_same)

lemma fill_grown: "grown q m (frame_fill a b m)" "grown q m (fill_at a k b m)"
  by (simp_all add: grown_same fill_at_def frame_fill_def)

lemma load_app_blocks_grown:
  assumes "load_app_blocks s q reader z off bo cs base m = Some (cs', base', m')" "reader_grows reader"
  shows "grown q m m'"
  using assms
proof (induction s q reader z off bo cs base m arbitrary: rule: load_app_blocks.induct)
  case (1 s q reader z off bo cs base m)
  show ?case
  proof (cases "off < z")
    case True
    from 1(2) True obtain cs1 base1 m1 b m2 where
      A: "(if off mod PAGE_SIZE = 0 then do { (base, m) \<leftarrow> new_page s q cs m; Some (cs + 1, base, m) } else Some (cs, base, m)) = Some (cs1, base1, m1)"
        "reader bo m1 = Some (b, m2)"
        "load_app_blocks s q reader z (off + BLOCK_SIZE) (bo + 1) cs1 base1 (fill_at base1 (off mod PAGE_SIZE) b m2) = Some (cs', base', m')"
      by (subst (asm) load_app_blocks.simps) (auto simp: bind_eq_Some_conv)
    have "grown q m m1" using A(1) by (auto simp: bind_eq_Some_conv dest: new_page_grown split: if_splits)
    also have "grown q m1 m2" using A(2) 1(3) by (auto simp: reader_grows_def)
    also have "grown q m2 (fill_at base1 (off mod PAGE_SIZE) b m2)" by (rule fill_grown)
    also have "grown q (fill_at base1 (off mod PAGE_SIZE) b m2) m'" by (rule "1.IH" [OF True A(1) refl refl A(2) refl A(3) 1(3)])
    finally show ?thesis .
  next
    case False
    with 1(2) show ?thesis by (subst (asm) load_app_blocks.simps) simp
  qed
qed

lemma load_zero_pages_grown:
  assumes "load_zero_pages s q cs m = Some m'"
  shows "grown q m m'"
  using assms
proof (induction s q cs m rule: load_zero_pages.induct)
  case (1 s q cs m)
  show ?case
  proof (cases "cs < (APPS_ENTRY_ADDR + APPS_SIZE) div PAGE_SIZE")
    case True
    from 1(2) True obtain a m1 where A: "new_page s q cs m = Some (a, m1)"
      "load_zero_pages s q (cs + 1) (frame_fill a (replicate PAGE_SIZE 0) m1) = Some m'"
      by (subst (asm) load_zero_pages.simps) (auto simp: bind_eq_Some_conv)
    have "grown q m m1" by (rule new_page_grown [OF A(1)])
    also have "grown q m1 (frame_fill a (replicate PAGE_SIZE 0) m1)" by (rule fill_grown)
    also have "grown q (frame_fill a (replicate PAGE_SIZE 0) m1) m'" by (rule "1.IH" [OF True A(1) refl A(2)])
    finally show ?thesis .
  next
    case False
    with 1(2) show ?thesis by (subst (asm) load_zero_pages.simps) simp
  qed
qed

lemma load_app_grown:
  assumes "load_app s q reader argc argv h m = Some m'" "reader_grows reader"
  shows "grown q m m'"
proof -
  from assms(1) obtain cs base m1 m2 base2 m3 page base4 where
    A: "load_app_blocks s q reader (p_filesz h) 0 (p_offset h div BLOCK_SIZE) (APPS_ENTRY_ADDR div PAGE_SIZE) 0 m = Some (cs, base, m1)"
    "load_zero_pages s q cs (if p_filesz h mod PAGE_SIZE \<noteq> 0
       then fill_at base (p_filesz h mod PAGE_SIZE) (replicate (PAGE_SIZE - p_filesz h mod PAGE_SIZE) 0) m1 else m1) = Some m2"
    "new_page s q (APPS_ARG_ADDR div PAGE_SIZE) m2 = Some (base2, m3)"
    "new_page s q (APPS_ARG_ADDR div PAGE_SIZE + 1) (frame_fill base2 page m3) = Some (base4, m')"
    by (auto simp: load_app_def Let_def bind_eq_Some_conv)
  have "grown q m m1" by (rule load_app_blocks_grown [OF A(1) assms(2)])
  also have "grown q m1 (if p_filesz h mod PAGE_SIZE \<noteq> 0
       then fill_at base (p_filesz h mod PAGE_SIZE) (replicate (PAGE_SIZE - p_filesz h mod PAGE_SIZE) 0) m1 else m1)"
    by (simp add: fill_grown)
  also have "grown q \<dots> m2" by (rule load_zero_pages_grown [OF A(2)])
  also have "grown q m2 m3" by (rule new_page_grown [OF A(3)])
  also have "grown q m3 (frame_fill base2 page m3)" by (rule fill_grown)
  also have "grown q (frame_fill base2 page m3) m'" by (rule new_page_grown [OF A(4)])
  finally show ?thesis .
qed

lemma load_grass_blocks_grown:
  assumes "load_grass_blocks reader z off bo m = Some m'" "reader_grows reader"
  shows "grown q m m'"
  using assms
proof (induction reader z off bo m rule: load_grass_blocks.induct)
  case (1 reader z off bo m)
  show ?case
  proof (cases "off < z")
    case True
    from 1(2) True obtain b m1 where A: "reader bo m = Some (b, m1)"
      "load_grass_blocks reader z (off + BLOCK_SIZE) (bo + 1) (m1\<lparr>grass_mem := patch off b (grass_mem m1)\<rparr>) = Some m'"
      by (subst (asm) load_grass_blocks.simps) (auto simp: bind_eq_Some_conv)
    have "grown q m m1" using A(1) 1(3) by (auto simp: reader_grows_def)
    also have "grown q m1 (m1\<lparr>grass_mem := patch off b (grass_mem m1)\<rparr>)" by (simp add: grown_same)
    also have "grown q \<dots> m'" by (rule "1.IH" [OF True A(1) refl A(2) 1(3)])
    finally show ?thesis .
  next
    case False
    with 1(2) show ?thesis by (subst (asm) load_grass_blocks.simps) simp
  qed
qed

lemma load_grass_grown:
  assumes "load_grass reader h m = Some m'" "reader_grows reader"
  shows "grown q m m'"
proof -
  from assms(1) obtain m1 where A: "load_grass_blocks reader (p_filesz h) 0 (p_offset h div BLOCK_SIZE) m = Some m1"
    and m': "m' = m1\<lparr>grass_mem := patch (p_filesz h) (replicate (GRASS_SIZE - p_filesz h) 0) (grass_mem m1)\<rparr>"
    by (auto simp: load_grass_def bind_eq_Some_conv split: if_splits)
  have "grown q m m1" by (rule load_grass_blocks_grown [OF A assms(2)])
  also have "grown q m1 m'" by (simp add: m' grown_same)
  finally show ?thesis .
qed

lemma elf_load_loop_grown:
  assumes "elf_load_loop s q reader argc argv buf is m = Some m'" "reader_grows reader"
  shows "grown q m m'"
  using assms(1)
proof (induction "is" arbitrary: m)
  case (Cons i "is")
  then obtain h m1 where A: "(if p_memsz h = 0 then Some m else if p_vaddr h = GRASS_ENTRY then load_grass reader h m
      else if p_vaddr h = APPS_ENTRY_ADDR then load_app s q reader argc argv h m else None) = Some m1"
    "elf_load_loop s q reader argc argv buf is m1 = Some m'" by (auto simp: bind_eq_Some_conv)
  have "grown q m m1" using A(1) assms(2) by (auto intro: load_grass_grown load_app_grown split: if_splits)
  also have "grown q m1 m'" by (rule Cons.IH [OF A(2)])
  finally show ?case .
qed simp

lemma elf_load_grown:
  assumes "elf_load s q reader argc argv m = Some m'" "reader_grows reader"
  shows "grown q m m'"
proof -
  from assms(1) obtain b m1 where A: "reader 0 m = Some (b, m1)" "elf_load_loop s q reader argc argv b [0..<e_phnum b] m1 = Some m'"
    by (auto simp: elf_load_def bind_eq_Some_conv)
  have "grown q m m1" using A(1) assms(2) by (auto simp: reader_grows_def)
  also have "grown q m1 m'" by (rule elf_load_loop_grown [OF A(2) assms(2)])
  finally show ?thesis .
qed

subsection \<open>What freeing a process changes\<close>

lemma mmu_free_loop_table:
  "f < length (table m) \<Longrightarrow> table (mmu_free_loop q is m) ! f = (if f \<in> set is \<and> owns m q f then no_mapping else table m ! f)"
proof (induction "is" arbitrary: m)
  case (Cons i "is")
  then show ?case by (cases "i = f") (simp_all add: owns_def no_mapping_def)
qed simp

lemma mmu_free_loop_fields:
  "curr_vm_pid (mmu_free_loop q is m) = curr_vm_pid m" "translation (mmu_free_loop q is m) = translation m"
  "pg_disk (paging (mmu_free_loop q is m)) = pg_disk (paging m)" "length (table (mmu_free_loop q is m)) = length (table m)"
  by (induction "is" arbitrary: m) (auto simp: paging_invalidate_cache_def)

lemmas mmu_free_fields = mmu_free_loop_fields [where ?is = "[0..<NFRAMES]", folded mmu_free_def]
  mmu_free_loop_table [where ?is = "[0..<NFRAMES]", folded mmu_free_def]

lemma no_frames:
  assumes "mmu_inv m" "q \<noteq> 0" "\<forall>n. aspace C m q n = None" "f < NFRAMES"
  shows "\<not> owns m q f"
  using assms(3,4) frame_of_Some [OF assms(1,2), of "page_no (table m ! f)" f] by (auto simp: aspace_def)

text \<open>Loading a process and freeing it leaves as many free frames as before.\<close>

lemma free_grown:
  assumes "grown q m m'" "mmu_inv m" "q \<noteq> 0" "\<forall>n. aspace C m q n = None"
  shows "nfree (mmu_free q m') = nfree m"
proof -
  have l: "length (table m) = NFRAMES" "length (table m') = NFRAMES" using mmu_invD(1) [OF assms(2)] assms(1) by (simp_all add: grown_def)
  have "use (table (mmu_free q m') ! f) = use (table m ! f)" if "f < NFRAMES" for f
    using assms(1) no_frames [OF assms(2-4) that] that l mmu_free_fields(5) [of f m' q]
    unfolding grown_def owns_def by (auto simp: no_mapping_def)
  then have "map use (table (mmu_free q m')) = map use (table m)"
    using l mmu_free_fields(4) [of q m'] by (intro nth_equalityI) simp_all
  moreover have "nfree n = length (filter Not (map use (table n)))" for n :: "'c mmu" by (simp add: nfree_def filter_map o_def)
  ultimately show ?thesis by metis
qed

lemma high_content:
  assumes "cache_wf p" "g \<ge> NFRAMES"
  shows "arty_content media cells p g = disk_frame cells (media (dd_dev (pg_disk p))) g"
proof -
  have "slot_of p g = None"
    using cache_wfD(3,5) [OF assms(1)] assms(2) unfolding slot_of_def find_index_None_iff by (fastforce simp: in_set_conv_nth)
  then show ?thesis by (simp add: arty_content_def)
qed

lemma free_high_content:
  assumes "arty_ok media live ready (paging m)" "mmu_inv m" "g \<ge> NFRAMES"
  shows "arty_content media cells (paging (mmu_free q m)) g = arty_content media cells (paging m) g"
  using arty_cache.free_ok(1) [OF assms(1,2), of q] assms(1,3) high_content mmu_free_fields(3) [of q m]
  by (simp add: arty_ok_def high_content)

subsection \<open>The server between two commands\<close>

definition server_inv :: "('c pager \<Rightarrow> nat \<Rightarrow> byte list) \<Rightarrow> 'c proc_server \<Rightarrow> bool" where
  "server_inv C st \<longleftrightarrow> mmu_inv (ps_mmu st) \<and> translation (ps_mmu st) = SOFT_TLB \<and> curr_vm_pid (ps_mmu st) \<le> ps_nprocs st
     \<and> (\<forall>p>ps_nprocs st. \<forall>n. aspace C (ps_mmu st) p n = None)
     \<and> ptable_inv (ps_nprocs st) (ps_table st) \<and> killable_inv (ps_table st)"

lemma server_can_spawn:
  assumes "server_inv C st" "5 \<le> nfree (ps_mmu st)" "\<exists>p\<in>set (ps_table st). status p = PROC_UNUSED"
  shows "can_spawn C st"
  using assms by (auto simp: server_inv_def can_spawn_def)

text \<open>A request for a command of \<^verbatim>\<open>/bin\<close> whose file is an executable.\<close>

definition spawns :: "blocks \<Rightarrow> nat \<Rightarrow> proc_request \<Rightarrow> bool" where
  "spawns B ni r \<longleftrightarrow> request_ok r \<and> req_type r = PROC_SPAWN \<and> 1 \<le> req_argc r
     \<and> (\<exists>name ino img N h. cstr (req_argv r ! 0) = Some name \<and> dir_word name \<and> \<not> list_all isdigit name \<and> length name < 32
          \<and> command_at B ni name (Some (int ino)) \<and> ino < 64 * ni \<and> file_of B ino = map img [0..<N] \<and> elf_image img N h)"

lemma serve_spawn_grown:
  assumes "sys_proc_serve s old sender buf st = Some (a, st')" "get32 buf 0 = PROC_SPAWN"
  shows "grown (app_pid st') (ps_mmu st) (ps_mmu st')"
proof -
  from assms obtain c st1 where A: "app_spawn s old buf st = Some (c, st1)" "app_pid st' = app_pid st1" "ps_mmu st' = ps_mmu st1"
    by (auto simp: sys_proc_serve_def Let_def bind_eq_Some_conv)
  have l: "grown q m m'" if "server_lookup s old d n m = Some (i, m')" for q d n m i m'
    using that by (auto simp: server_lookup_def bind_eq_Some_conv set_disk_def intro: grown_same)
  from A(1) obtain i1 m1 where L1: "server_lookup s old 0 (chars ''bin/'') (ps_mmu st) = Some (i1, m1)"
    by (cases "server_lookup s old 0 (chars ''bin/'') (ps_mmu st)") (auto simp: app_spawn_def)
  with A(1) obtain n where n: "cstr (drop 8 buf) = Some n" by (cases "cstr (drop 8 buf)") (auto simp: app_spawn_def)
  from A(1) L1 n obtain i2 m2 where L2: "server_lookup s old i1 n m1 = Some (i2, m2)"
    by (cases "server_lookup s old i1 n m1") (auto simp: app_spawn_def)
  note L = L1 L2
  have "ps_mmu st1 = m2 \<or> (\<exists>argc argv. elf_load s (app_pid st1) (app_read s old i2) argc argv m2 = Some (ps_mmu st1))"
    using A(1) L1 n L2 by (auto simp: app_spawn_def Let_def bind_eq_Some_conv split: if_splits)
  then have g: "grown (app_pid st1) m2 (ps_mmu st1)" using elf_load_grown readers_grow(1) by fastforce
  have "grown (app_pid st1) (ps_mmu st) m1" by (rule l [OF L(1)])
  also have "grown (app_pid st1) m1 m2" by (rule l [OF L(2)])
  also have "grown (app_pid st1) m2 (ps_mmu st1)" by (rule g)
  finally show ?thesis by (simp add: A)
qed

text \<open>What a command leaves behind once it has exited: nothing but a higher process id.\<close>

definition same_system :: "('c pager \<Rightarrow> nat \<Rightarrow> byte list) \<Rightarrow> 'c proc_server \<Rightarrow> 'c proc_server \<Rightarrow> bool" where
  "same_system C st st' \<longleftrightarrow> nfree (ps_mmu st') = nfree (ps_mmu st) \<and> fs_view C (ps_mmu st') = fs_view C (ps_mmu st)
     \<and> (\<forall>p n. p \<noteq> 0 \<longrightarrow> aspace C (ps_mmu st') p n = aspace C (ps_mmu st) p n)
     \<and> map status (ps_table st') = map status (ps_table st)
     \<and> (\<forall>i<MAX_NPROCESS. status (ps_table st ! i) \<noteq> PROC_UNUSED \<longrightarrow> ps_table st' ! i = ps_table st ! i)"

lemma same_system_trans: "same_system C a b \<Longrightarrow> same_system C b c \<Longrightarrow> length (ps_table a) = MAX_NPROCESS \<Longrightarrow> same_system C a c"
  unfolding same_system_def by (auto simp: list_eq_iff_nth_eq)

lemma freed_table:
  assumes "ready_entry q ps ps'" "ptable_inv n ps" "ptable_inv q ps'" "n < q"
  shows "map status (proc_set_status q PROC_UNUSED ps') = map status ps"
    "\<forall>i<MAX_NPROCESS. status (ps ! i) \<noteq> PROC_UNUSED \<longrightarrow> proc_set_status q PROC_UNUSED ps' ! i = ps ! i"
proof -
  have l: "length ps = MAX_NPROCESS" "length ps' = MAX_NPROCESS" using ptable_invD(1) assms(2,3) by blast+
  from assms(1) obtain i where i: "i < 16" "status (ps ! i) = PROC_UNUSED" "pid (ps' ! i) = q" "\<forall>j<16. j \<noteq> i \<longrightarrow> ps' ! j = ps ! j"
    using l by (auto simp: ready_entry_def)
  have e: "proc_set_status q PROC_UNUSED ps' ! j = (if j = i then (ps' ! i)\<lparr>status := PROC_UNUSED\<rparr> else ps ! j)" if "j < 16" for j
    using that i l ptable_invD(4) [OF assms(2), of j] assms(4) by (auto simp: proc_set_status_nth)
  then show "map status (proc_set_status q PROC_UNUSED ps') = map status ps"
    using l i(2) by (intro nth_equalityI) (simp_all add: proc_set_status_def)
  show "\<forall>i<MAX_NPROCESS. status (ps ! i) \<noteq> PROC_UNUSED \<longrightarrow> proc_set_status q PROC_UNUSED ps' ! i = ps ! i"
    using e i(2) by auto
qed

lemma killable_free: "killable_inv ps \<Longrightarrow> killable_inv (proc_set_status q PROC_UNUSED ps)"
  by (auto simp: killable_inv_def proc_set_status_def)

lemma command_exits:
  assumes "sd_disk s media xfer live loaded txw rxw ready idle cells ncells"
    and C: "C = arty_content media cells" and st: "arty_ok media live ready (paging (ps_mmu st))" "server_inv C st"
    "5 \<le> nfree (ps_mmu st)" "\<exists>p\<in>set (ps_table st). status p = PROC_UNUSED"
    and r: "spawns (fs_view C (ps_mmu st)) ni r" "\<forall>n. length (old n) = 1024" "get32 e 0 = PROC_EXIT"
    and bg: "bg \<longleftrightarrow> req_argv r ! (req_argc r - 1) ! 0 = 38"
  shows "\<exists>st' st''. sys_proc_serve s old GPID_SHELL (delivered (request_bytes r) (old 6)) st = Some (Some (le32 CMD_OK), st')
     \<and> app_pid st' = ps_nprocs st + 1
     \<and> sys_proc_serve s old (ps_nprocs st + 1) e st' = Some (if bg then None else Some (take 4 e), st'')
     \<and> arty_ok media live ready (paging (ps_mmu st'')) \<and> server_inv C st'' \<and> same_system C st st'' \<and> ps_nprocs st'' = ps_nprocs st + 1"
proof -
  let ?q = "ps_nprocs st + 1" and ?buf = "delivered (request_bytes r) (old 6)"
  from r(1) obtain name ino img N h where R: "request_ok r" "req_type r = PROC_SPAWN" "1 \<le> req_argc r" "cstr (req_argv r ! 0) = Some name"
    "dir_word name" "\<not> list_all isdigit name" "length name < 32" "command_at (fs_view C (ps_mmu st)) ni name (Some (int ino))" "ino < 64 * ni"
    "file_of (fs_view C (ps_mmu st)) ino = map img [0..<N]" "elf_image img N h" unfolding spawns_def by blast
  from command_spawned_ok [OF assms(1) C st(1) server_can_spawn [OF st(2-4)] R(8-11) r(2) R(1-7) refl bg refl, of GPID_SHELL]
  obtain st' where S: "sys_proc_serve s old GPID_SHELL ?buf st = Some (Some (le32 CMD_OK), st')"
    "app_pid st' = ?q" "ps_nprocs st' = ?q" "shell_waiting st' = (\<not> bg)" "ready_entry ?q (ps_table st) (ps_table st')"
    "ptable_inv ?q (ps_table st')" "killable_inv (ps_table st')" "mmu_inv (ps_mmu st')" "arty_ok media live ready (paging (ps_mmu st'))"
    "fs_view C (ps_mmu st') = fs_view C (ps_mmu st)" "\<forall>p n. p \<noteq> 0 \<and> p \<noteq> ?q \<longrightarrow> aspace C (ps_mmu st') p n = aspace C (ps_mmu st) p n" by blast
  have I: "mmu_inv (ps_mmu st)" "translation (ps_mmu st) = SOFT_TLB" "curr_vm_pid (ps_mmu st) \<le> ps_nprocs st"
    "\<forall>p>ps_nprocs st. \<forall>n. aspace C (ps_mmu st) p n = None" "ptable_inv (ps_nprocs st) (ps_table st)" using st(2) by (simp_all add: server_inv_def)
  have q: "0 \<le> ps_nprocs st" "?q \<noteq> 0" "?q \<noteq> - 1" using ptable_invD(2) [OF I(5)] by simp_all
  have "req_type r < UINT" using R(2) by simp
  from request_buffer(2) [OF R(1) this spec [OF r(2)] refl] R(2) have "get32 ?buf 0 = PROC_SPAWN" by simp
  note G = serve_spawn_grown [OF S(1) this, unfolded S(2)]
  define st'' where "st'' = st'\<lparr>ps_table := proc_set_status ?q PROC_UNUSED (ps_table st'), ps_mmu := mmu_free ?q (ps_mmu st')\<rparr>"
  have e: "sys_proc_serve s old ?q e st' = Some (if bg then None else Some (take 4 e), st'')"
    using r(3) S(2,4) q(3) by (simp add: sys_proc_serve_def proc_free_def st''_def)
  note F = arty_cache.free_ok [OF S(9,8), where q = ?q]
  have a: "aspace C (mmu_free ?q (ps_mmu st')) p n = aspace C (ps_mmu st) p n" if "p \<noteq> 0" for p n
    using F(4) [OF that, where cells = cells and n = n] S(11) I(4) that unfolding C by simp
  have v: "fs_view C (mmu_free ?q (ps_mmu st')) = fs_view C (ps_mmu st')"
    unfolding C by (rule fs_view_cong) (use free_high_content [OF S(9,8)] in blast)
  have "same_system C st st''"
    unfolding same_system_def st''_def using free_grown [OF G I(1) q(2), of C] I(4) a v S(10) freed_table [OF S(5) I(5) S(6)] by simp
  moreover have "server_inv C st''"
    unfolding server_inv_def st''_def using F(2) G I(2-4) a q(1) S(3) proc_set_status_ptable [OF S(6) q(2)] killable_free [OF S(7)]
    by (simp add: mmu_free_fields grown_def)
  ultimately show ?thesis using S(1-3) e F(1) by (intro exI [of _ st'] exI [of _ st'']) (simp add: st''_def)
qed

text \<open>
  A shell session: each request is served and its command exits before the next one.
\<close>

fun session :: "'c spi \<Rightarrow> (nat \<Rightarrow> byte list) \<Rightarrow> (proc_request \<times> byte list) list \<Rightarrow> 'c proc_server \<Rightarrow> 'c proc_server option" where
  "session s old [] st = Some st"
| "session s old ((r, e) # rs) st =
    do { (a, st) \<leftarrow> sys_proc_serve s old GPID_SHELL (delivered (request_bytes r) (old 6)) st;
         (b, st) \<leftarrow> sys_proc_serve s old (app_pid st) e st;
         session s old rs st }"


subsection \<open>Starting the servers\<close>

fun spawn_list :: "'c spi \<Rightarrow> nat list \<Rightarrow> 'c proc_server \<Rightarrow> 'c proc_server option" where
  "spawn_list s [] st = Some st"
| "spawn_list s (b # bs) st = do { st \<leftarrow> sys_spawn s b st; spawn_list s bs st }"

lemma sys_proc_boot_list: "sys_proc_boot s st = spawn_list s [SYS_FILE_EXEC_START, SYS_DIR_EXEC_START, SYS_SHELL_EXEC_START] st"
proof -
  have "spawn_list s [] = Some" "spawn_list s (b # bs) = (\<lambda>st. do { st \<leftarrow> sys_spawn s b st; spawn_list s bs st })" for b bs
    by (simp_all add: fun_eq_iff)
  then show ?thesis by (simp add: sys_proc_boot_def)
qed

lemma sys_spawn_grown:
  assumes "sys_spawn s base st = Some st'" "ptable_inv (ps_nprocs st) (ps_table st)"
  shows "grown (ps_nprocs st + 1) (ps_mmu st) (ps_mmu st')"
proof -
  from assms(1) obtain p n ps m where A: "proc_alloc (ps_nprocs st) (ps_table st) = Some (p, n, ps)"
    "elf_load s p (sys_proc_read s base) 0 None (ps_mmu st) = Some m" "ps_mmu st' = m"
    by (auto simp: sys_spawn_def bind_eq_Some_conv)
  from A(1) have "p = ps_nprocs st + 1" by (auto simp: proc_alloc_def Let_def split: option.splits)
  with elf_load_grown [OF A(2) readers_grow(2)] A(3) show ?thesis by simp
qed

definition unused :: "process list \<Rightarrow> nat" where
  "unused ps = length (filter (\<lambda>p. status p = PROC_UNUSED) ps)"

lemma ready_entry_unused:
  assumes "ready_entry q ps ps'" "length ps' = length ps"
  shows "Suc (unused ps') = unused ps"
proof -
  from assms(1) obtain i where i: "i < length ps" "status (ps ! i) = PROC_UNUSED" "status (ps' ! i) = PROC_READY"
    "\<forall>j<length ps. j \<noteq> i \<longrightarrow> ps' ! j = ps ! j" by (auto simp: ready_entry_def)
  have "ps' = ps[i := ps' ! i]" using assms(2) i(1,4) by (intro nth_equalityI) (auto simp: nth_list_update)
  then have "unused ps' = unused (ps[i := ps' ! i])" by simp
  then show ?thesis using length_filter_update [where P = "\<lambda>p. status p = PROC_UNUSED", OF i(1,2), of "ps' ! i"] i(3)
    by (simp add: unused_def)
qed

lemma ready_entry_sets:
  assumes "ready_entry q ps ps'" "length ps' = length ps"
  shows "\<exists>e\<in>set ps'. pid e = q \<and> status e = PROC_READY" "e \<in> set ps \<Longrightarrow> status e \<noteq> PROC_UNUSED \<Longrightarrow> e \<in> set ps'"
proof -
  from assms(1) obtain i where i: "i < length ps" "status (ps ! i) = PROC_UNUSED" "pid (ps' ! i) = q" "status (ps' ! i) = PROC_READY"
    "\<forall>j<length ps. j \<noteq> i \<longrightarrow> ps' ! j = ps ! j" by (auto simp: ready_entry_def)
  show "\<exists>e\<in>set ps'. pid e = q \<and> status e = PROC_READY" using i(1,3,4) assms(2) nth_mem [of i ps'] by auto
  assume "e \<in> set ps" "status e \<noteq> PROC_UNUSED"
  then obtain j where "j < length ps" "e = ps ! j" "j \<noteq> i" using i(2) by (auto simp: in_set_conv_nth)
  with i(5) assms(2) show "e \<in> set ps'" by (metis nth_mem)
qed

text \<open>The executable at a block of the card, and its byte \<open>i\<close> in memory.\<close>

definition exec_at :: "('c \<Rightarrow> 'k) \<Rightarrow> ('k \<Rightarrow> nat \<Rightarrow> byte list) \<Rightarrow> 'c proc_server \<Rightarrow> nat \<Rightarrow> nat \<Rightarrow> byte list" where
  "exec_at media cells st base n = cells (media (dd_dev (pg_disk (paging (ps_mmu st))))) (base + n)"

definition exec_byte :: "(nat \<Rightarrow> byte list) \<Rightarrow> elf32_program_header \<Rightarrow> nat \<Rightarrow> byte" where
  "exec_byte img h i = (if i < p_filesz h then img (p_offset h div 512 + i div 512) ! (i mod 512) else 0)"

lemma elf_image_cong:
  assumes "elf_image img N h" "\<And>n. n < N \<Longrightarrow> img' n = img n"
  shows "elf_image img' N h" "exec_byte img' h = exec_byte img h"
proof -
  have "img' 0 = img 0" using assms by (simp add: elf_image_def)
  then show "elf_image img' N h" using assms(1) by (simp add: elf_image_def)
  show "exec_byte img' h = exec_byte img h" using assms by (auto simp: exec_byte_def elf_image_def fun_eq_iff)
qed

lemma exec_at_cong:
  assumes "sd_disk s media xfer live loaded txw rxw ready idle cells ncells"
    and "arty_ok media live ready (paging (ps_mmu st))" "arty_ok media live ready (paging (ps_mmu st'))"
    and "\<forall>g\<ge>NFRAMES. arty_content media cells (paging (ps_mmu st')) g = arty_content media cells (paging (ps_mmu st)) g"
    and "2048 \<le> base" "base + 256 \<le> 8192" "n < 256"
  shows "exec_at media cells st' base n = exec_at media cells st base n"
proof -
  have b: "NFRAMES \<le> (base + n) div 8" "base + n < 8192" using assms(5-7) div_le_mono [of 2048 "base + n" 8] by simp_all
  show ?thesis using sd_disk.arty_disk_block [OF assms(1,2) b] sd_disk.arty_disk_block [OF assms(1,3) b] assms(4) b(1)
    by (simp add: exec_at_def disk_block_def)
qed

lemma spawn_one:
  assumes sd: "sd_disk s media xfer live loaded txw rxw ready idle cells ncells" and C: "C = arty_content media cells"
    and st: "arty_ok media live ready (paging (ps_mmu st))" "server_inv C st" "5 \<le> nfree (ps_mmu st)" "0 < unused (ps_table st)"
    and b: "b \<in> {SYS_FILE_EXEC_START, SYS_DIR_EXEC_START, SYS_SHELL_EXEC_START}" "elf_image (exec_at media cells st b) 256 h"
  shows "\<exists>st'. sys_spawn s b st = Some st' \<and> arty_ok media live ready (paging (ps_mmu st')) \<and> server_inv C st'
     \<and> ps_nprocs st' = ps_nprocs st + 1 \<and> nfree (ps_mmu st') + 5 = nfree (ps_mmu st) \<and> Suc (unused (ps_table st')) = unused (ps_table st)
     \<and> (\<forall>g\<ge>NFRAMES. C (paging (ps_mmu st')) g = C (paging (ps_mmu st)) g)
     \<and> (\<forall>p n. p \<noteq> 0 \<and> p \<noteq> ps_nprocs st + 1 \<longrightarrow> aspace C (ps_mmu st') p n = aspace C (ps_mmu st) p n)
     \<and> (\<forall>i<APPS_SIZE. user_byte C (ps_mmu st') (ps_nprocs st + 1) (APPS_ENTRY_ADDR + i) =
          Some (exec_byte (exec_at media cells st b) h i))
     \<and> (\<exists>e\<in>set (ps_table st'). pid e = ps_nprocs st + 1 \<and> status e = PROC_READY)
     \<and> (\<forall>e\<in>set (ps_table st). status e \<noteq> PROC_UNUSED \<longrightarrow> e \<in> set (ps_table st'))"
proof -
  let ?q = "ps_nprocs st + 1"
  have I: "translation (ps_mmu st) = SOFT_TLB" "curr_vm_pid (ps_mmu st) \<le> ps_nprocs st"
    "\<forall>p>ps_nprocs st. \<forall>n. aspace C (ps_mmu st) p n = None" "ptable_inv (ps_nprocs st) (ps_table st)"
    using st(2) by (simp_all add: server_inv_def)
  have n: "0 \<le> ps_nprocs st" using ptable_invD(2) [OF I(4)] .
  have "\<exists>p\<in>set (ps_table st). status p = PROC_UNUSED" using st(4) by (auto simp: unused_def filter_empty_conv)
  then have can: "can_spawn C st" using st(2,3) by (intro server_can_spawn)
  have "exec_at media cells st b = (\<lambda>n. cells (media (dd_dev (pg_disk (paging (ps_mmu st))))) (b + n))" by (simp add: exec_at_def fun_eq_iff)
  from sys_spawn_ok [OF sd C st(1) can b(1) this b(2) refl] obtain st1 where
    S: "sys_spawn s b st = Some st1" "ps_nprocs st1 = ?q" "ready_entry ?q (ps_table st) (ps_table st1)" "ptable_inv ?q (ps_table st1)"
    "killable_inv (ps_table st1)" "mmu_inv (ps_mmu st1)" "arty_ok media live ready (paging (ps_mmu st1))" "nfree (ps_mmu st1) + 5 = nfree (ps_mmu st)"
    "\<forall>g\<ge>NFRAMES. C (paging (ps_mmu st1)) g = C (paging (ps_mmu st)) g"
    "\<forall>i<APPS_SIZE. user_byte C (ps_mmu st1) ?q (APPS_ENTRY_ADDR + i) = Some (exec_byte (exec_at media cells st b) h i)"
    "\<forall>p n. p \<noteq> 0 \<and> p \<noteq> ?q \<longrightarrow> aspace C (ps_mmu st1) p n = aspace C (ps_mmu st) p n" unfolding exec_byte_def by blast
  have "server_inv C st1" using sys_spawn_grown [OF S(1) I(4)] S(2,4-6,11) I(1-3) n by (auto simp: server_inv_def grown_def)
  moreover have l: "length (ps_table st1) = length (ps_table st)" using ptable_invD(1) [OF I(4)] ptable_invD(1) [OF S(4)] by simp
  note U = ready_entry_unused [OF S(3) l] ready_entry_sets [OF S(3) l]
  ultimately show ?thesis using S(1,2,7-11) U by blast
qed

lemma spawn_list_ok:
  assumes sd: "sd_disk s media xfer live loaded txw rxw ready idle cells ncells" and C: "C = arty_content media cells"
    and "arty_ok media live ready (paging (ps_mmu st))" "server_inv C st"
    and "5 * length bs \<le> nfree (ps_mmu st)" "length bs \<le> unused (ps_table st)"
    and "set bs \<subseteq> {SYS_FILE_EXEC_START, SYS_DIR_EXEC_START, SYS_SHELL_EXEC_START}"
    and "\<forall>b\<in>set bs. elf_image (exec_at media cells st b) 256 (h b)"
  shows "\<exists>st'. spawn_list s bs st = Some st' \<and> arty_ok media live ready (paging (ps_mmu st')) \<and> server_inv C st'
     \<and> ps_nprocs st' = ps_nprocs st + int (length bs) \<and> nfree (ps_mmu st') + 5 * length bs = nfree (ps_mmu st)
     \<and> (\<forall>g\<ge>NFRAMES. C (paging (ps_mmu st')) g = C (paging (ps_mmu st)) g)
     \<and> (\<forall>p n. p \<noteq> 0 \<and> p \<le> ps_nprocs st \<longrightarrow> aspace C (ps_mmu st') p n = aspace C (ps_mmu st) p n)
     \<and> (\<forall>k<length bs. \<forall>i<APPS_SIZE. user_byte C (ps_mmu st') (ps_nprocs st + 1 + int k) (APPS_ENTRY_ADDR + i) =
          Some (exec_byte (exec_at media cells st (bs ! k)) (h (bs ! k)) i))
     \<and> (\<forall>k<length bs. \<exists>e\<in>set (ps_table st'). pid e = ps_nprocs st + 1 + int k \<and> status e = PROC_READY)
     \<and> (\<forall>e\<in>set (ps_table st). status e \<noteq> PROC_UNUSED \<longrightarrow> e \<in> set (ps_table st'))"
  using assms(3-8)
proof (induction bs arbitrary: st)
  case Nil
  then show ?case by simp
next
  case (Cons b bs)
  let ?q = "ps_nprocs st + 1"
  have "0 \<le> ps_nprocs st" using Cons.prems(2) ptable_invD(2) unfolding server_inv_def by blast
  then have n: "?q \<noteq> 0" by simp
  from spawn_one [OF sd C Cons.prems(1,2), of b "h b"] Cons.prems(3-6) obtain st1 where
    S: "sys_spawn s b st = Some st1" "arty_ok media live ready (paging (ps_mmu st1))" "server_inv C st1" "ps_nprocs st1 = ?q"
    "nfree (ps_mmu st1) + 5 = nfree (ps_mmu st)" "Suc (unused (ps_table st1)) = unused (ps_table st)"
    "\<forall>g\<ge>NFRAMES. C (paging (ps_mmu st1)) g = C (paging (ps_mmu st)) g"
    "\<forall>p n. p \<noteq> 0 \<and> p \<noteq> ?q \<longrightarrow> aspace C (ps_mmu st1) p n = aspace C (ps_mmu st) p n"
    "\<forall>i<APPS_SIZE. user_byte C (ps_mmu st1) ?q (APPS_ENTRY_ADDR + i) = Some (exec_byte (exec_at media cells st b) (h b) i)"
    "\<exists>e\<in>set (ps_table st1). pid e = ?q \<and> status e = PROC_READY" "\<forall>e\<in>set (ps_table st). status e \<noteq> PROC_UNUSED \<longrightarrow> e \<in> set (ps_table st1)" by auto
  have u: "5 * length bs \<le> nfree (ps_mmu st1)" "length bs \<le> unused (ps_table st1)" using Cons.prems(3,4) S(5,6) by simp_all
  have e: "exec_at media cells st1 b' n = exec_at media cells st b' n" if "b' \<in> set bs" "n < 256" for b' n
    by (rule exec_at_cong [OF sd Cons.prems(1) S(2) S(7) [unfolded C] _ _ that(2)]) (use Cons.prems(5) that(1) in auto)
  have img: "elf_image (exec_at media cells st1 b') 256 (h b')"
    "exec_byte (exec_at media cells st1 b') (h b') = exec_byte (exec_at media cells st b') (h b')" if "b' \<in> set bs" for b'
    using elf_image_cong [of "exec_at media cells st b'" 256 "h b'" "exec_at media cells st1 b'"] e [OF that] Cons.prems(6) that by auto
  from Cons.IH [OF S(2,3) u] Cons.prems(5) img(1) obtain st' where
    T: "spawn_list s bs st1 = Some st'" "arty_ok media live ready (paging (ps_mmu st'))" "server_inv C st'"
      "ps_nprocs st' = ps_nprocs st1 + int (length bs)" "nfree (ps_mmu st') + 5 * length bs = nfree (ps_mmu st1)"
      "\<forall>g\<ge>NFRAMES. C (paging (ps_mmu st')) g = C (paging (ps_mmu st1)) g"
      "\<forall>p n. p \<noteq> 0 \<and> p \<le> ps_nprocs st1 \<longrightarrow> aspace C (ps_mmu st') p n = aspace C (ps_mmu st1) p n"
      "\<forall>k<length bs. \<forall>i<APPS_SIZE. user_byte C (ps_mmu st') (ps_nprocs st1 + 1 + int k) (APPS_ENTRY_ADDR + i) =
          Some (exec_byte (exec_at media cells st1 (bs ! k)) (h (bs ! k)) i)"
      "\<forall>k<length bs. \<exists>e\<in>set (ps_table st'). pid e = ps_nprocs st1 + 1 + int k \<and> status e = PROC_READY"
      "\<forall>e\<in>set (ps_table st1). status e \<noteq> PROC_UNUSED \<longrightarrow> e \<in> set (ps_table st')" by auto
  have "user_byte C (ps_mmu st') ?q a = user_byte C (ps_mmu st1) ?q a" for a using T(7) S(4) n by (simp add: user_byte_def)
  moreover have q: "?q + int (Suc k) = ps_nprocs st1 + 1 + int k" for k using S(4) by simp
  ultimately have u: "\<forall>k<length (b # bs). \<forall>i<APPS_SIZE. user_byte C (ps_mmu st') (?q + int k) (APPS_ENTRY_ADDR + i) =
      Some (exec_byte (exec_at media cells st ((b # bs) ! k)) (h ((b # bs) ! k)) i)"
    using S(9) T(8) img(2) unfolding list.size(4) add_Suc_right add_0_right All_less_Suc2 q by simp
  obtain e where "e \<in> set (ps_table st1)" "pid e = ?q" "status e = PROC_READY" using S(10) by blast
  then have "\<exists>e\<in>set (ps_table st'). pid e = ?q \<and> status e = PROC_READY" using T(10) by (intro bexI [of _ e]) auto
  then have r: "\<forall>k<length (b # bs). \<exists>e\<in>set (ps_table st'). pid e = ?q + int k \<and> status e = PROC_READY"
    using T(9) unfolding list.size(4) add_Suc_right add_0_right All_less_Suc2 q by simp
  have "\<forall>p n. p \<noteq> 0 \<and> p \<le> ps_nprocs st \<longrightarrow> aspace C (ps_mmu st') p n = aspace C (ps_mmu st) p n" using T(7) S(4,8) by simp
  moreover have "\<forall>e\<in>set (ps_table st). status e \<noteq> PROC_UNUSED \<longrightarrow> e \<in> set (ps_table st')" using S(11) T(10) by blast
  ultimately show ?case using u r S(1,4,5,7) T(1-6) by (intro exI [of _ st']) simp
qed


subsection \<open>A card with the image of the build\<close>

lemma demo_exec:
  assumes "length img = 4194304" "\<forall>k<5. take 1112 (drop (1048576 + 131072 * k) img) = demo_elf 0x08005000 @ replicate 600 7" "k < 5"
  shows "elf_image (exec_at fst sim_cells (demo_server img) (2048 + 256 * k)) 256 (demo_header 0x08005000)"
proof -
  have "exec_at fst sim_cells (demo_server img) (2048 + 256 * k) 0 = take 512 (drop (1048576 + 131072 * k) img)"
    using demo_server_facts(3) [OF assms(1)] assms(3) by (simp add: exec_at_def card_holds_def)
  also have "\<dots> = take 512 (take 1112 (drop (1048576 + 131072 * k) img))" by simp
  also have "\<dots> = demo_elf 0x08005000" using assms(2,3) demo_elf_header(1) by simp
  finally show ?thesis using demo_elf_header(2,3) [of "0x08005000"] by (auto simp: elf_image_def demo_header_def)
qed

lemma server_image:
  "\<exists>img. disk_img elf_host (replicate 131072 9) = Some img \<and> length img = 4194304
     \<and> spawns (fs_view (arty_content fst sim_cells) (ps_mmu (demo_server img))) 2 cat_req
     \<and> (\<forall>k<5. elf_image (exec_at fst sim_cells (demo_server img) (2048 + 256 * k)) 256 (demo_header 0x08005000))"
proof -
  have f: "h_file elf_host c = demo_elf 0x08005000 @ replicate 600 7" "length (h_file elf_host c) = 1112" for c
    by (simp_all add: elf_host_def demo_elf_header(1))
  from mkfs_image_ok [OF elf_host_facts] obtain img fs free where
    I: "disk_img elf_host (replicate 131072 9) = Some img" "length img = 4194304" "drop 2097152 img = fs" "fs_inv (ram_blocks fs) 2 4096 free"
      "\<forall>i<16. \<not> of_host (contents ! i) \<longrightarrow> file_of (ram_blocks fs) i = [strncpy 512 (contents ! i)]"
      "\<forall>i<16. of_host (contents ! i) \<longrightarrow>
          take (length (h_file elf_host (tl (contents ! i)))) (concat (file_of (ram_blocks fs) i)) = h_file elf_host (tl (contents ! i))
          \<and> length (file_of (ram_blocks fs) i) = (length (h_file elf_host (tl (contents ! i))) + 511) div 512"
      "\<forall>k<5. take (length (h_file elf_host (kernel_processes ! k))) (drop (1048576 + 131072 * k) img) = h_file elf_host (kernel_processes ! k)" by blast
  note S = demo_server_facts [OF I(2)]
  let ?B = "fs_view (arty_content fst sim_cells) (ps_mmu (demo_server img))"
  define F where "F = file_of (ram_blocks fs) 8"
  have A: "command_at ?B 2 (commands ! 1) (Some (int 8))" "file_of ?B 8 = F"
    using sim.image_command_at(1) [OF S(1,3) I(3-5), of "commands ! 1"] sim.image_command_at(2) [OF S(1,3) I(3-5), of 1] command_facts(1,5) [of 1]
    by (simp_all add: F_def)
  have F: "length F = 3" "take 1112 (concat F) = demo_elf 0x08005000 @ replicate 600 7"
    using spec [OF I(6), of 8] command_facts(6) [of 1] f by (simp_all add: F_def)
  have "\<forall>x\<in>set F. length x = 512" using fs_file_length [OF I(4), of 8] by (auto simp: F_def in_set_conv_nth)
  note T = three_blocks [OF F this, simplified]
  have e: "elf_image ((!) F) 3 (demo_header 0x08005000)" using demo_elf_header(2,3) [of "0x08005000"] T(2)
    by (auto simp: elf_image_def demo_header_def)
  have "spawns ?B 2 cat_req" unfolding spawns_def
    using cat_req_facts(1-4) A T(1) e command_facts(2-4) [of 1]
    by (intro conjI exI [of _ "commands ! 1"] exI [of _ 8] exI [of _ "(!) F"] exI [of _ 3] exI [of _ "demo_header 0x08005000"]) simp_all
  moreover have "\<forall>k<5. take 1112 (drop (1048576 + 131072 * k) img) = demo_elf 0x08005000 @ replicate 600 7" using I(7) [unfolded f(2)] unfolding f(1) .
  from demo_exec [OF I(2) this]
  have "\<forall>k<5. elf_image (exec_at fst sim_cells (demo_server img) (2048 + 256 * k)) 256 (demo_header 0x08005000)" by blast
  ultimately show ?thesis using I(1,2) by (intro exI [of _ img] conjI)
qed

lemma demo_server_inv: "server_inv (arty_content fst sim_cells) (demo_server img)" "nfree (ps_mmu (demo_server img)) = 256" "unused (ps_table (demo_server img)) = 15"
proof -
  have f: "frame_of demo_mmu q n = None" for q n using demo_mmu_ok(4) [of undefined q n] by (simp add: aspace_def)
  have "aspace C (set_disk (image_disk img) demo_mmu) q n = None" for C q n using f [of q n] by (simp add: aspace_def frame_of_def)
  moreover have "ptable_inv 5 sample_procs" by (auto simp: ptable_inv_def sample_procs_length sample_procs_nth split: if_splits)
  ultimately show "server_inv (arty_content fst sim_cells) (demo_server img)"
    using demo_mmu_ok(2) sample_procs_inv(2) by (simp add: server_inv_def demo_server_def) (simp add: demo_mmu_def)
  show "nfree (ps_mmu (demo_server img)) = 256" using demo_mmu_ok(3) by (simp add: demo_server_def nfree_def)
  show "unused (ps_table (demo_server img)) = 15" by (simp add: demo_server_def unused_def sample_procs_def)
qed

definition exit_msg :: "byte list" where
  "exit_msg = le32 PROC_EXIT @ replicate 1020 0"



end
