(* ===== verification/Apps.thy ===== *)
theory Apps
  imports Servers Mkfs
begin

section \<open>The user applications\<close>

text \<open>
  \<^verbatim>\<open>apps/user\<close>: \<^verbatim>\<open>cat\<close>, \<^verbatim>\<open>cd\<close>, \<^verbatim>\<open>echo\<close>, \<^verbatim>\<open>ls\<close> and \<^verbatim>\<open>pwd\<close>. An application gets the argument
  strings as the bytes \<open>args\<close> behind the vector in its argument page, 32 for each argument, and shares the
  working directory of the grass interface (\<open>env\<close>). The result of \<^verbatim>\<open>main\<close> is its return code, what it
  prints and the new state; the first argument, the name of the program, is always there; \<open>None\<close> is a call that never returns or an access outside of a buffer.
\<close>

record env =
  workdir_ino :: int
  workdir :: "byte list"

text \<open>What the functions of the tty print for a formatted message; \<^verbatim>\<open>tty_fatal\<close> then loops forever.\<close>

definition log_text :: "byte list \<Rightarrow> byte list \<Rightarrow> byte list \<Rightarrow> byte list" where
  "log_text x y s = x @ s @ y"

definition tty_info :: "byte list \<Rightarrow> byte list" where
  "tty_info = log_text (chars ''[INFO] '') [13, 10]"

definition tty_printf :: "byte list \<Rightarrow> byte list" where
  "tty_printf = log_text [] []"

definition tty_fatal :: "byte list \<Rightarrow> byte list" where
  "tty_fatal = log_text (27 # chars ''[1;31m[FATAL] '') (27 # chars ''[1;0m'' @ [13, 10])"

definition tty_success :: "byte list \<Rightarrow> byte list" where
  "tty_success = log_text (27 # chars ''[1;32m[SUCCESS] '') (27 # chars ''[1;0m'' @ [13, 10])"

definition tty_critical :: "byte list \<Rightarrow> byte list" where
  "tty_critical = log_text (27 # chars ''[1;33m[CRITICAL] '') (27 # chars ''[1;0m'' @ [13, 10])"

definition arg :: "byte list \<Rightarrow> nat \<Rightarrow> byte list option" where
  "arg args i = cstr (drop (32 * i) args)"

text \<open>\<^verbatim>\<open>strcat\<close> onto the string at the start of a buffer\<close>

definition strcat :: "byte list \<Rightarrow> byte list \<Rightarrow> byte list option" where
  "strcat buf t =
    do { s \<leftarrow> cstr buf;
         if length s + length t < length buf then Some (s @ t @ 0 # drop (length s + length t + 1) buf) else None }"

subsection \<open>The programs\<close>

fun echo_loop :: "byte list \<Rightarrow> nat \<Rightarrow> nat \<Rightarrow> byte list option" where
  "echo_loop args i 0 = Some []"
| "echo_loop args i (Suc n) = do { s \<leftarrow> arg args i; out \<leftarrow> echo_loop args (i + 1) n; Some (s @ 32 # out) }"

definition echo_main :: "nat \<Rightarrow> byte list \<Rightarrow> (int \<times> byte list) option" where
  "echo_main argc args = do { out \<leftarrow> echo_loop args 1 (argc - 1); Some (0, out @ [13, 10]) }"

definition pwd_main :: "env \<Rightarrow> (int \<times> byte list) option" where
  "pwd_main e = do { s \<leftarrow> cstr (workdir e); Some (0, s @ [13, 10]) }"

text \<open>An empty file makes \<^verbatim>\<open>cat\<close> read \<^verbatim>\<open>buf[-1]\<close>.\<close>

definition cat_main :: "'d inode_store \<Rightarrow> (nat \<Rightarrow> byte list) \<Rightarrow> nat \<Rightarrow> byte list \<Rightarrow> env \<Rightarrow> 'd \<Rightarrow> (int \<times> byte list \<times> 'd) option" where
  "cat_main fs old argc args e d =
    (if argc = 1 then Some (- 1, tty_info (chars ''usage: cat [FILE]''), d)
     else do { name \<leftarrow> arg args 1;
               (file_ino, d) \<leftarrow> dir_lookup fs old (workdir_ino e) name d;
               if file_ino < 0 then Some (- 1, tty_info (chars ''cat: file '' @ name @ chars '' not found''), d)
               else do { (_, buf, d) \<leftarrow> file_read fs old file_ino 0 d;
                         s \<leftarrow> cstr buf;
                         if s = [] then None
                         else Some (0, s @ (if last s \<noteq> 10 then [13, 10] else []), d) } })"

function ls_loop :: "nat \<Rightarrow> byte list \<Rightarrow> byte list option" where
  "ls_loop i buf =
    (case cstr buf of None \<Rightarrow> None
     | Some s \<Rightarrow> if i < length s
                 then ls_loop (i + 1) (if buf ! (i - 1) = 32 \<and> buf ! i \<ge> 48 \<and> buf ! i \<le> 57 then buf[i := 32] else buf)
                 else Some buf)"
  by pat_completeness auto

termination
  by (relation "measure (\<lambda>(i, buf). length buf - i)") (auto dest!: cstrD)

declare ls_loop.simps [simp del]

definition ls_main :: "'d inode_store \<Rightarrow> (nat \<Rightarrow> byte list) \<Rightarrow> nat \<Rightarrow> env \<Rightarrow> 'd \<Rightarrow> (int \<times> byte list \<times> 'd) option" where
  "ls_main fs old argc e d =
    (if 1 < argc then Some (- 1, tty_info (chars ''ls: ls with args not implemented''), d)
     else do { (_, buf, d) \<leftarrow> file_read fs old (workdir_ino e) 0 d;
               buf \<leftarrow> ls_loop 1 buf;
               s \<leftarrow> cstr buf;
               Some (0, s @ [13, 10], d) })"

text \<open>The loop of \<^verbatim>\<open>cd ..\<close>: back to the last slash, clearing what is behind it\<close>

fun up_loop :: "nat \<Rightarrow> byte list \<Rightarrow> (nat \<times> byte list) option" where
  "up_loop 0 buf = (if buf ! 0 = 47 then Some (0, buf) else None)"
| "up_loop (Suc l) buf = (if buf ! Suc l = 47 then Some (Suc l, buf) else up_loop l (buf[Suc l := 0]))"

definition cd_path :: "byte list \<Rightarrow> byte list \<Rightarrow> byte list option" where
  "cd_path name wd =
    (if name = chars ''./'' then Some wd
     else do { s \<leftarrow> cstr wd;
               if name \<noteq> chars ''../''
               then do { wd \<leftarrow> (if 1 < length s then strcat wd (chars ''/'') else Some wd);
                         strcat wd (take (length name - 1) name) }
               else do { (len, wd) \<leftarrow> up_loop (length s) wd;
                         Some (if len \<noteq> 0 then wd[len := 0] else wd) } })"

definition cd_main ::
  "'d inode_store \<Rightarrow> (nat \<Rightarrow> byte list) \<Rightarrow> nat \<Rightarrow> byte list \<Rightarrow> env \<Rightarrow> 'd \<Rightarrow> (int \<times> byte list \<times> byte list \<times> env \<times> 'd) option" where
  "cd_main fs old argc args e d =
    (if argc = 1
     then do { (home_ino, d) \<leftarrow> dir_lookup fs old 0 (chars ''home/'') d;
               (ino, d) \<leftarrow> dir_lookup fs old home_ino (chars ''yunhao/'') d;
               Some (0, [], args, \<lparr>workdir_ino = ino, workdir = chars ''/home/yunhao'' @ 0 # drop 13 (workdir e)\<rparr>, d) }
     else do { arg1 \<leftarrow> strcat (drop 32 args) (chars ''/'');
               let args = take 32 args @ arg1;
               name \<leftarrow> arg args 1;
               (dir_ino, d) \<leftarrow> dir_lookup fs old (workdir_ino e) name d;
               if dir_ino = - 1 then Some (- 1, tty_info (chars ''cd: directory '' @ name @ chars '' not found''), args, e, d)
               else do { wd \<leftarrow> cd_path name (workdir e);
                         Some (0, [], args, \<lparr>workdir_ino = dir_ino, workdir = wd\<rparr>, d) } })"

subsection \<open>Listing a directory\<close>

fun blank :: "byte \<Rightarrow> byte list \<Rightarrow> byte list" where
  "blank p [] = []"
| "blank p (c # cs) = (if p = 32 \<and> isdigit c then 32 # blank 32 cs else c # blank c cs)"

definition ls_text :: "dir_entry list \<Rightarrow> byte list" where
  "ls_text es = concat (map (\<lambda>(n, k, ds). n @ replicate (k + length ds + 2) 32) es)"

lemma ls_loop_blank:
  assumes "0 \<notin> set xs" "0 \<notin> set ys" "xs \<noteq> []"
  shows "ls_loop (length xs) (xs @ ys @ 0 # r) = Some (xs @ blank (last xs) ys @ 0 # r)"
  using assms
proof (induction ys arbitrary: xs)
  case Nil
  then show ?case by (subst ls_loop.simps) (simp add: cstr_append)
next
  case (Cons c ys)
  let ?c = "if last xs = 32 \<and> isdigit c then 32 else c"
  have s: "cstr (xs @ c # ys @ 0 # r) = Some (xs @ c # ys)" using Cons.prems cstr_append [of "xs @ c # ys" r] by simp
  have "(xs @ (c # ys) @ 0 # r) ! (length xs - 1) = last xs" using Cons.prems(3) by (simp add: nth_append last_conv_nth)
  moreover have "(xs @ (c # ys) @ 0 # r) ! length xs = c" by simp
  ultimately have "ls_loop (length xs) (xs @ (c # ys) @ 0 # r) = ls_loop (length (xs @ [?c])) ((xs @ [?c]) @ ys @ 0 # r)"
    by (subst ls_loop.simps) (auto simp: s isdigit_def list_update_append)
  also have "\<dots> = Some ((xs @ [?c]) @ blank (last (xs @ [?c])) ys @ 0 # r)" using Cons.prems by (intro Cons.IH) auto
  finally show ?case by auto
qed

lemma blank_inside: "p \<noteq> 32 \<Longrightarrow> 32 \<notin> set v \<Longrightarrow> blank p (v @ 32 # x) = v @ 32 # blank 32 x"
  by (induction v arbitrary: p) (auto simp: isdigit_def word_le_nat_alt)

lemma blank_spaces: "blank 32 (replicate k 32 @ x) = replicate k 32 @ blank 32 x"
  by (induction k) (simp_all add: isdigit_def word_le_nat_alt)

lemma blank_digits: "list_all isdigit ds \<Longrightarrow> blank 32 (ds @ x) = replicate (length ds) 32 @ blank 32 x"
  by (induction ds) simp_all

lemma replicate_spaces: "replicate k x @ replicate l x @ x # y = replicate (k + l + 1) x @ y"
  by (simp add: replicate_add replicate_app_Cons_same)

lemma blank_text:
  assumes "dir_ok es" "\<forall>(n, k, ds)\<in>set es. \<not> isdigit (hd n)"
  shows "blank p (dir_text es) = ls_text es"
  using assms
proof (induction es arbitrary: p)
  case (Cons x es)
  obtain n k ds where x: "x = (n, k, ds)" by (cases x)
  obtain c v where n: "n = c # v" "c \<noteq> 32" "32 \<notin> set v" "\<not> isdigit c" using Cons.prems by (cases n) (auto simp: x dir_ok_def dir_word_def)
  have "blank p (dir_text (x # es)) = c # blank c (v @ 32 # replicate k 32 @ ds @ 32 # dir_text es)" using n by (simp add: x)
  also have "\<dots> = n @ 32 # replicate k 32 @ replicate (length ds) 32 @ 32 # blank 32 (dir_text es)"
    using n(2,3) Cons.prems(1) blank_spaces [of 1 "dir_text es"] unfolding n(1)
    by (simp add: blank_inside blank_spaces blank_digits x dir_ok_def)
  also have "blank 32 (dir_text es) = ls_text es" using Cons by (simp add: dir_ok_def)
  finally show ?case by (simp add: replicate_spaces x ls_text_def)
qed (simp add: ls_text_def)

lemma ls_loop_text:
  assumes "dir_ok es" "\<forall>(n, k, ds)\<in>set es. \<not> isdigit (hd n)"
  shows "ls_loop 1 (dir_text es @ 0 # r) = Some (ls_text es @ 0 # r)"
proof (cases "dir_text es")
  case Nil
  then have "es = []" by (cases es) auto
  then show ?thesis by (subst ls_loop.simps) (simp add: ls_text_def)
next
  case (Cons c cs)
  have "blank 0 (dir_text es) = ls_text es" by (rule blank_text [OF assms])
  then have "ls_text es = c # blank c cs" by (simp add: Cons)
  then show ?thesis using ls_loop_blank [of "[c]" cs r] dir_text_nonzero [OF assms(1)] by (simp add: Cons)
qed

lemma ls_text_nonzero: "dir_ok es \<Longrightarrow> 0 \<notin> set (ls_text es)"
  by (induction es) (auto simp: ls_text_def dir_ok_def dir_word_def)

text \<open>
  \<^verbatim>\<open>ls\<close> in a directory on the card, whose names do not begin with a digit, prints the names of the
  directory in their order, with spaces in the place of the inode numbers, and a new line; it changes nothing on the card.
\<close>

theorem ls_lists:
  assumes "sd_disk s media xfer live loaded txw rxw ready idle cells ncells"
    and "card_ok media live ready d" "fs_inv (card_blocks media cells d) ni 4096 free" "\<forall>n. length (old n) = 1024"
    and "workdir_ino e = int i" "i < 64 * ni" "file_of (card_blocks media cells d) i = (dir_text es @ 0 # r) # rest"
    and "dir_ok es" "\<forall>(n, k, ds)\<in>set es. \<not> isdigit (hd n)"
  shows "\<exists>d'. ls_main (treedisk_init (fs_disk_init s) 0) old 1 e d = Some (0, ls_text es @ [13, 10], d')
     \<and> card_ok media live ready d' \<and> card_blocks media cells d' = card_blocks media cells d"
proof -
  have "ni < 4096" using assms(3) tree_invD(3) by (auto simp: fs_inv_def)
  then have "i < 2147483648" using assms(6) by simp
  from block_store.file_read_file [OF sd_disk.fs_store [OF assms(1)], OF assms(2-4) this, of 0] assms(6,7) obtain d' where
    "file_read (treedisk_init (fs_disk_init s) 0) old (int i) 0 d = Some (0, dir_text es @ 0 # r, d')"
    "card_ok media live ready d'" "card_blocks media cells d' = card_blocks media cells d" by auto
  then show ?thesis using ls_loop_text [OF assms(8,9), of r] cstr_append [OF ls_text_nonzero [OF assms(8)], of r]
    by (simp add: ls_main_def assms(5))
qed

subsection \<open>Printing a file\<close>


subsection \<open>The working directory\<close>

text \<open>A path as the list of its names.\<close>

definition path_text :: "byte list list \<Rightarrow> byte list" where
  "path_text ps = (if ps = [] then chars ''/'' else concat (map (\<lambda>p. 47 # p) ps))"

definition path_ok :: "byte list list \<Rightarrow> bool" where
  "path_ok ps \<longleftrightarrow> (\<forall>p\<in>set ps. p \<noteq> [] \<and> 47 \<notin> set p \<and> 0 \<notin> set p)"

definition enter :: "byte list list \<Rightarrow> byte list \<Rightarrow> byte list list" where
  "enter ps w = (if w = chars ''.'' then ps else if w = chars ''..'' then butlast ps else ps @ [w])"

lemma path_nonzero: "path_ok ps \<Longrightarrow> 0 \<notin> set (path_text ps)"
  by (auto simp: path_ok_def path_text_def chars_def)

lemma path_long: "path_ok ps \<Longrightarrow> 1 < length (path_text ps) \<longleftrightarrow> ps \<noteq> []"
  by (cases ps) (auto simp: path_ok_def path_text_def Suc_lessI)

lemma path_snoc: "path_text (ps @ [w]) = (if ps = [] then [] else path_text ps) @ 47 # w"
  by (simp add: path_text_def)

lemma cstr_split:
  assumes "cstr buf = Some s"
  shows "buf = s @ 0 # drop (length s + 1) buf"
  using assms
proof (induction buf arbitrary: s)
  case (Cons c buf)
  then show ?case by (cases "c = 0") auto
qed simp

lemma strcat_ok:
  assumes "cstr buf = Some s" "length s + length t < length buf" "0 \<notin> set t"
  shows "\<exists>buf'. strcat buf t = Some buf' \<and> cstr buf' = Some (s @ t) \<and> length buf' = length buf"
proof -
  have "cstr (s @ t @ 0 # drop (length s + length t + 1) buf) = Some (s @ t)"
    using cstr_append [of "s @ t"] cstrD [OF assms(1)] assms(3) by simp
  then show ?thesis using assms(1,2) by (simp add: strcat_def)
qed

lemma up_loop_ok:
  assumes "47 \<notin> set w" "l = length w"
  shows "up_loop (length a + l) (a @ 47 # w @ r) = Some (length a, a @ 47 # replicate l 0 @ r)"
  using assms
proof (induction l arbitrary: w r)
  case 0
  then show ?case by (cases "length a") (simp_all add: nth_append)
next
  case (Suc l)
  then obtain v c where w: "w = v @ [c]" "length v = l" "c \<noteq> 47" by (cases w rule: rev_cases) auto
  have "(a @ 47 # w @ r) ! Suc (length a + l) = c" "(a @ 47 # w @ r)[Suc (length a + l) := 0] = a @ 47 # v @ 0 # r"
    using w(1,2) by (simp_all add: nth_append list_update_append)
  then have "up_loop (length a + Suc l) (a @ 47 # w @ r) = up_loop (length a + l) (a @ 47 # v @ 0 # r)" using w(3) by simp
  also have "\<dots> = Some (length a, a @ 47 # replicate l 0 @ 0 # r)" using Suc.IH [of v "0 # r"] Suc.prems(1) w by simp
  finally show ?case by (simp add: replicate_app_Cons_same)
qed

lemma slash: "chars ''/'' = [47]" "chars ''./'' = chars ''.'' @ [47]" "chars ''../'' = chars ''..'' @ [47]"
  by code_simp+

lemma cd_up_ok:
  assumes "cstr wd = Some (path_text ps)" "path_ok ps"
  shows "\<exists>wd'. cd_path (chars ''..'' @ [47]) wd = Some wd' \<and> cstr wd' = Some (path_text (butlast ps)) \<and> length wd' = length wd"
proof -
  have n: "chars ''..'' @ [47] \<noteq> chars ''./''" by code_simp
  obtain r where r: "wd = path_text ps @ 0 # r" using cstr_split [OF assms(1)] by blast
  show ?thesis
  proof (cases ps rule: rev_cases)
    case Nil
    then have wd: "wd = [] @ 47 # [0] @ r" using r by (simp add: path_text_def slash)
    have "up_loop 1 ([] @ 47 # [0] @ r) = Some (0, 47 # 0 # r)" using up_loop_ok [of "[0]" 1 "[]" r] by simp
    then have "cd_path (chars ''..'' @ [47]) wd = Some (47 # 0 # r)"
      using assms(1) n Nil by (simp add: cd_path_def slash(3) wd path_text_def)
    then show ?thesis using Nil by (simp add: wd path_text_def slash)
  next
    case (snoc qs p)
    define pre where "pre = (if qs = [] then [] else path_text qs)"
    have p: "47 \<notin> set (p @ [0])" "path_ok qs" using assms(2) by (auto simp: snoc path_ok_def)
    have s: "path_text ps = pre @ 47 # p" by (simp add: snoc path_snoc pre_def)
    have wd: "wd = pre @ 47 # (p @ [0]) @ r" using r s by simp
    have z: "0 \<notin> set pre" "pre = [] \<longleftrightarrow> qs = []" using path_nonzero [OF p(2)] path_long [OF p(2)] by (auto simp: pre_def)
    have l: "length (path_text ps) = length pre + length (p @ [0])" by (simp add: s)
    have "cd_path (chars ''..'' @ [47]) wd =
        Some (let v = pre @ 47 # replicate (length (p @ [0])) 0 @ r in if length pre \<noteq> 0 then v[length pre := 0] else v)"
      using assms(1) n up_loop_ok [OF p(1) refl, of pre r] by (simp add: cd_path_def slash(3) l del: length_append) (simp add: wd)
    moreover have "cstr (pre @ 0 # x) = Some pre" for x using cstr_append [OF z(1)] .
    ultimately show ?thesis using z(2) wd by (auto simp: Let_def snoc pre_def path_text_def slash list_update_append)
  qed
qed

lemma cd_path_ok:
  assumes wd: "cstr wd = Some (path_text ps)" "path_ok ps" "length (path_text (enter ps w)) < length wd" and w: "w \<noteq> []" "47 \<notin> set w" "0 \<notin> set w"
  shows "\<exists>wd'. cd_path (w @ [47]) wd = Some wd' \<and> cstr wd' = Some (path_text (enter ps w)) \<and> length wd' = length wd"
proof -
  consider "w = chars ''.''" | "w = chars ''..''" | "w \<noteq> chars ''.''" "w \<noteq> chars ''..''" by blast
  then show ?thesis
  proof cases
    case 1
    then show ?thesis using wd by (simp add: cd_path_def enter_def slash(2))
  next
    case 2
    then show ?thesis using cd_up_ok [OF wd(1,2)] by (simp add: enter_def)
  next
    case 3
    let ?pre = "if ps = [] then [] else path_text ps"
    have l: "length ?pre + 1 + length w < length wd" using wd(3) 3 by (simp add: enter_def path_snoc)
    have "\<exists>v. (if 1 < length (path_text ps) then strcat wd [47] else Some wd) = Some v \<and> cstr v = Some (?pre @ [47]) \<and> length v = length wd"
      unfolding path_long [OF wd(2)] using strcat_ok [OF wd(1), of "[47]"] wd(1) l by (auto simp: path_text_def slash)
    then obtain v where v: "(if 1 < length (path_text ps) then strcat wd [47] else Some wd) = Some v" "cstr v = Some (?pre @ [47])" "length v = length wd" by blast
    obtain v' where "strcat v w = Some v'" "cstr v' = Some ((?pre @ [47]) @ w)" "length v' = length wd"
      using strcat_ok [OF v(2), of w] v(3) l w(3) by auto
    moreover have "cd_path (w @ [47]) wd = strcat v w"
      using 3 wd(1) v(1) by (simp add: cd_path_def slash split: if_splits)
    ultimately show ?thesis using 3 by (simp add: enter_def path_snoc)
  qed
qed

text \<open>
  C28. \<^verbatim>\<open>cd\<close> follows the path: seen as a list of names, the working directory that the grass interface
  holds as a string is extended by a name, shortened by \<^verbatim>\<open>..\<close> (the root stays) and kept by \<^verbatim>\<open>.\<close>, and its inode is the one
  that the directory server has for the name with a slash, as long as the path fits into its 128 bytes.
\<close>

theorem cd_follows:
  assumes "length (workdir e) = 128" "cstr (workdir e) = Some (path_text ps)" "path_ok ps"
    and "2 \<le> argc" "cstr (drop 32 args) = Some w" "length w + 33 < length args" "w \<noteq> []" "47 \<notin> set w"
    and "dir_lookup fs old (workdir_ino e) (w @ chars ''/'') d = Some (ino, d')" "ino \<noteq> - 1" "length (path_text (enter ps w)) < 128"
  shows "\<exists>args' e'. cd_main fs old argc args e d = Some (0, [], args', e', d') \<and> workdir_ino e' = ino
     \<and> cstr (workdir e') = Some (path_text (enter ps w)) \<and> length (workdir e') = 128"
proof -
  have w: "0 \<notin> set w" using cstrD [OF assms(5)] by simp
  have "length w + length [47::byte] < length (drop 32 args)" using assms(6) by simp
  from strcat_ok [OF assms(5) this] obtain a where a: "strcat (drop 32 args) [47] = Some a" "cstr a = Some (w @ [47])" by auto
  have "length (take 32 args) = 32" using assms(6) by simp
  then have n: "arg (take 32 args @ a) 1 = Some (w @ [47])" using a(2) by (simp add: arg_def)
  obtain wd' where "cd_path (w @ [47]) (workdir e) = Some wd'" "cstr wd' = Some (path_text (enter ps w))" "length wd' = 128"
    using cd_path_ok [OF assms(2,3) _ assms(7,8) w] assms(1,11) by auto
  moreover have "argc \<noteq> 1" using assms(4) by simp
  ultimately show ?thesis using a(1) n assms(9,10) unfolding cd_main_def Let_def by (simp add: slash(1))
qed

subsection \<open>In the file system of the build\<close>

definition user_dir :: "dir_entry list" where
  "user_dir = [(chars ''./'', 2, chars ''2''), (chars ''../'', 2, chars ''1''), (chars ''README'', 2, chars ''5'')]"

lemma user_dir_text:
  "contents ! 2 = dir_text user_dir" "dir_ok user_dir" "\<forall>(n, k, ds)\<in>set user_dir. \<not> isdigit (hd n)"
  "dir_entries user_dir (chars ''README'') = Some 5" "dir_entries user_dir (chars ''../'') = Some 1"
  "length (chars ''README'') \<le> length (dir_text user_dir)" "length (chars ''../'') \<le> length (dir_text user_dir)"
  by (simp add: contents_def user_dir_def chars_def numeral_eq_Suc, code_simp+)

lemma demo_image:
  "\<exists>img free. disk_img demo_host (replicate 131072 9) = Some img \<and> card_ok fst (\<lambda>_. True) sim_ready (image_disk img)
     \<and> fs_inv (card_blocks fst sim_cells (image_disk img)) 2 4096 free
     \<and> (\<forall>i<7. file_of (card_blocks fst sim_cells (image_disk img)) i = [contents ! i @ 0 # replicate (511 - length (contents ! i)) 0])"
proof -
  from mkfs_image_ok [OF demo_host_facts] obtain img fs free where
    I: "disk_img demo_host (replicate 131072 9) = Some img" "length img = 4194304" "drop 2097152 img = fs" "fs_inv (ram_blocks fs) 2 4096 free"
      "\<forall>i<16. \<not> of_host (contents ! i) \<longrightarrow> file_of (ram_blocks fs) i = [strncpy 512 (contents ! i)]" by blast
  note C = card_holds_files [OF image_disk_facts(2) I(3,4)]
  have t: "list_all (\<lambda>c. \<not> of_host c \<and> length c < 512) (take 7 contents)" by (simp add: contents_def)
  have "\<not> of_host (contents ! i) \<and> length (contents ! i) < 512" if "i < 7" for i
    using t table_lengths(1) that by (simp add: list_all_length)
  then have "file_of (card_blocks fst sim_cells (image_disk img)) i = [contents ! i @ 0 # replicate (511 - length (contents ! i)) 0]" if "i < 7" for i
    using I(5) C(2) [of i] that by (simp add: strncpy_short)
  then show ?thesis using I(1) image_disk_facts(1) [OF I(2)] C(1) by blast
qed

definition user_env :: env where
  "user_env = \<lparr>workdir_ino = 2, workdir = chars ''/home/yunhao'' @ replicate 116 0\<rparr>"

theorem ls_lists_witness:
  "\<exists>img d'. disk_img demo_host (replicate 131072 9) = Some img
     \<and> ls_main (treedisk_init (fs_disk_init sim_spi) 0) demo_old 1 user_env (image_disk img) = Some (0, chars ''./     ../     README     '' @ [13, 10], d')"
proof -
  from demo_image obtain img free where I: "disk_img demo_host (replicate 131072 9) = Some img" "card_ok fst (\<lambda>_. True) sim_ready (image_disk img)"
    "fs_inv (card_blocks fst sim_cells (image_disk img)) 2 4096 free"
    "\<forall>i<7. file_of (card_blocks fst sim_cells (image_disk img)) i = [contents ! i @ 0 # replicate (511 - length (contents ! i)) 0]" by blast
  have f: "file_of (card_blocks fst sim_cells (image_disk img)) 2 = (dir_text user_dir @ 0 # replicate (511 - length (dir_text user_dir)) 0) # []"
    using spec [OF I(4), of 2] by (simp add: user_dir_text(1))
  have t: "ls_text user_dir = chars ''./     ../     README     ''" by code_simp
  have e: "workdir_ino user_env = int 2" "2 < 64 * (2::nat)" by (simp_all add: user_env_def)
  from ls_lists [OF sim.sd_disk_axioms I(2,3) demo_old_length e f user_dir_text(2,3)] I(1) show ?thesis unfolding t by blast
qed


theorem cd_follows_witness:
  "\<exists>img d' args' e'. disk_img demo_host (replicate 131072 9) = Some img
     \<and> cd_main (treedisk_init (fs_disk_init sim_spi) 0) demo_old 2 (strncpy 32 (chars ''cd'') @ strncpy 32 (chars ''..'')) user_env (image_disk img) =
         Some (0, [], args', e', d') \<and> workdir_ino e' = 1 \<and> cstr (workdir e') = Some (chars ''/home'')"
proof -
  let ?a = "strncpy 32 (chars ''cd'') @ strncpy 32 (chars ''..'')" and ?ps = "[chars ''home'', chars ''yunhao'']"
  from demo_image obtain img free where I: "disk_img demo_host (replicate 131072 9) = Some img" "card_ok fst (\<lambda>_. True) sim_ready (image_disk img)"
    "fs_inv (card_blocks fst sim_cells (image_disk img)) 2 4096 free"
    "\<forall>i<7. file_of (card_blocks fst sim_cells (image_disk img)) i = [contents ! i @ 0 # replicate (511 - length (contents ! i)) 0]" by blast
  have f: "file_of (card_blocks fst sim_cells (image_disk img)) 2 = (dir_text user_dir @ 0 # replicate (511 - length (dir_text user_dir)) 0) # []"
    using spec [OF I(4), of 2] by (simp add: user_dir_text(1))
  have n: "chars ''..'' @ chars ''/'' = chars ''../''" "dir_word (chars ''../'')" "\<not> list_all isdigit (chars ''../'')" "length (chars ''../'') < 32" by code_simp+
  have i: "(2::nat) < 2147483648" "(2::nat) < 64 * 2" by simp_all
  from block_store.dir_lookup_entry [OF sim.fs_store, OF I(2,3) demo_old_length i f user_dir_text(2) n(2-4) user_dir_text(7)] user_dir_text(5) obtain d' where
    "dir_lookup (treedisk_init (fs_disk_init sim_spi) 0) demo_old (int 2) (chars ''../'') (image_disk img) = Some (1, d')" by auto
  then have L: "dir_lookup (treedisk_init (fs_disk_init sim_spi) 0) demo_old (workdir_ino user_env) (chars ''..'' @ chars ''/'') (image_disk img) = Some (1, d')"
    unfolding n(1) by (simp add: user_env_def)
  have e: "length (workdir user_env) = 128" "cstr (workdir user_env) = Some (path_text ?ps)" "path_ok ?ps" "(2::nat) \<le> 2"
    "cstr (drop 32 ?a) = Some (chars ''..'')" "length (chars ''..'') + 33 < length ?a" "chars ''..'' \<noteq> []" "47 \<notin> set (chars ''..'')"
    "(1::int) \<noteq> - 1" "length (path_text (enter ?ps (chars ''..''))) < 128" "path_text (enter ?ps (chars ''..'')) = chars ''/home''" by code_simp+
  from cd_follows [OF e(1-8) L e(9,10)] I(1) e(11) show ?thesis by auto
qed

text \<open>
  What goes wrong at the edges: \<^verbatim>\<open>cat\<close> of an empty file reads the byte before its buffer, and \<^verbatim>\<open>cd\<close> with a
  name of 31 characters writes the zero behind the slash into the next argument.
\<close>

lemma cat_empty:
  assumes "2 \<le> argc" "arg args 1 = Some name" "dir_lookup fs old (workdir_ino e) name d = Some (ino, d1)" "0 \<le> ino"
    and "file_read fs old ino 0 d1 = Some (r, 0 # b, d2)"
  shows "cat_main fs old argc args e d = None"
  using assms by (simp add: cat_main_def)

lemma cd_long_name:
  assumes "length a0 = 32" "length w = 31" "0 \<notin> set w"
  shows "strcat (drop 32 (a0 @ (w @ [0]) @ c # rest)) (chars ''/'') = Some ((w @ [47]) @ 0 # rest)"
  using assms cstr_append [of w "c # rest"] by (simp add: strcat_def slash(1))

lemma arg_concat:
  assumes "\<forall>w\<in>set ws. length w < 32 \<and> 0 \<notin> set w" "i < length ws"
  shows "arg (concat (map (strncpy 32) ws)) i = Some (ws ! i)"
proof -
  have l: "\<forall>x\<in>set (map (strncpy 32) ws). length x = 32" by auto
  have d: "drop (32 * i) (concat (map (strncpy 32) ws)) = strncpy 32 (ws ! i) @ drop (32 * (i + 1)) (concat (map (strncpy 32) ws))"
    using piece_of_concat [OF l, of i "[]"] assms(2) append_take_drop_id [of 32 "drop (32 * i) (concat (map (strncpy 32) ws))"] by (simp add: add.commute)
  have "ws ! i \<in> set ws" using assms(2) by simp
  then have "length (ws ! i) < 32" "0 \<notin> set (ws ! i)" using assms(1) by blast+
  then show ?thesis unfolding arg_def d by (simp add: strncpy_short cstr_append)
qed

lemma echo_prints:
  assumes "\<forall>w\<in>set ws. length w < 32 \<and> 0 \<notin> set w"
  shows "echo_main (length ws) (concat (map (strncpy 32) ws)) = Some (0, concat (map (\<lambda>w. w @ [32]) (tl ws)) @ [13, 10])"
proof -
  have "i + n = length ws \<Longrightarrow> echo_loop (concat (map (strncpy 32) ws)) i n = Some (concat (map (\<lambda>w. w @ [32]) (drop i ws)))" for i n
  proof (induction n arbitrary: i)
    case (Suc n)
    then have "drop i ws = ws ! i # drop (i + 1) ws" using Cons_nth_drop_Suc [of i ws] by simp
    then show ?case using Suc arg_concat [OF assms, of i] by simp
  qed simp
  then show ?thesis by (cases ws) (simp_all add: echo_main_def drop_Suc)
qed

end
