(* ===== verification/Libc.thy ===== *)
theory Libc
  imports Timer Tty
begin

section \<open>The system support of the C library\<close>

text \<open>
  \<^verbatim>\<open>library/libc\<close>: \<^verbatim>\<open>_sbrk\<close>, which \<^verbatim>\<open>malloc\<close> calls for more memory, and \<^verbatim>\<open>_write\<close>, which \<^verbatim>\<open>printf\<close>
  calls with its text. Addresses are 32-bit words; the symbol \<^verbatim>\<open>__heap_end\<close> of the linker is an argument.
\<close>

text \<open>The exception that \<^verbatim>\<open>_sbrk\<close> triggers when the heap is too large is \<open>None\<close>.\<close>

definition sbrk :: "platform \<Rightarrow> u32 \<Rightarrow> int \<Rightarrow> u32 \<Rightarrow> (u32 \<times> u32) option" where
  "sbrk platform heap_end_sym sz brk =
    (let heap_end = (if platform = QEMU then 0xa000000 else heap_end_sym)
     in if brk + of_int sz > heap_end then None else Some (brk, brk + of_int sz))"

text \<open>
  \<^verbatim>\<open>_write\<close> of the bytes \<open>msg\<close>: its return value, what it passes to \<^verbatim>\<open>sys_tty_write\<close> and the tty. In the kernel it
  prints directly.
\<close>

definition libc_write :: "int \<Rightarrow> byte list \<Rightarrow> tty \<Rightarrow> (int \<times> byte list \<times> tty) option" where
  "libc_write file msg t =
    (if file \<noteq> 1 then Some (- 1, [], t)
     else if is_kernel t then do { (r, t) \<leftarrow> tty_write_kernel msg t; Some (r, [], t) }
     else if int (length msg) > DEV_BUFF_SIZE then Some (DEV_BUFF_SIZE, take (nat DEV_BUFF_SIZE) msg, t)
     else Some (int (length msg), msg, t))"

text \<open>The other functions that the C library calls: there are no files but the standard output.\<close>

definition libc_close :: "int \<Rightarrow> int" where
  "libc_close file = - 1"

definition libc_fstat :: "int \<Rightarrow> 'm \<Rightarrow> int \<times> 'm" where
  "libc_fstat file stat = (- 1, stat)"

definition libc_lseek :: "int \<Rightarrow> int \<Rightarrow> int \<Rightarrow> int" where
  "libc_lseek file ptr dir = - 1"

definition libc_read :: "int \<Rightarrow> 'm \<Rightarrow> int \<Rightarrow> int \<times> 'm" where
  "libc_read file ptr len = (- 1, ptr)"

definition libc_isatty :: "int \<Rightarrow> int" where
  "libc_isatty file = (if file = 1 then 1 else 0)"

definition libc_getpid :: int where
  "libc_getpid = - 1"

text \<open>A program that calls \<^verbatim>\<open>_sbrk\<close> for each of \<open>szs\<close>.\<close>

fun sbrks :: "platform \<Rightarrow> u32 \<Rightarrow> int list \<Rightarrow> u32 \<Rightarrow> (u32 list \<times> u32) option" where
  "sbrks pl he [] brk = Some ([], brk)"
| "sbrks pl he (sz # szs) brk =
    (case sbrk pl he sz brk of None \<Rightarrow> None
     | Some (p, brk') \<Rightarrow> map_option (\<lambda>(ps, b). (p # ps, b)) (sbrks pl he szs brk'))"

definition heap_limit :: "platform \<Rightarrow> u32 \<Rightarrow> nat" where
  "heap_limit pl he = (if pl = QEMU then 0xa000000 else unat he)"

lemma sbrk_ok:
  assumes "unat brk \<le> heap_limit pl he" "heap_limit pl he < 2147483648" "0 \<le> sz" "sz < 2147483648"
  shows "sbrk pl he sz brk = (if unat brk + nat sz \<le> heap_limit pl he then Some (brk, brk + of_int sz) else None)"
    "unat (brk + of_int sz) = unat brk + nat sz"
proof -
  have s: "unat (of_int sz :: u32) = nat sz" using assms(3,4) by (simp add: unsigned_of_int take_bit_int_eq_self)
  show u: "unat (brk + of_int sz) = unat brk + nat sz"
    using assms s by (simp add: unat_word_ariths(1) nat_less_iff)
  show "sbrk pl he sz brk = (if unat brk + nat sz \<le> heap_limit pl he then Some (brk, brk + of_int sz) else None)"
    unfolding sbrk_def heap_limit_def Let_def word_less_nat_alt u by (auto simp: not_less)
qed

text \<open>
  C36. The heap: as long as the heap ends below 2 GB and no request is negative, a sequence of \<^verbatim>\<open>_sbrk\<close> calls succeeds
  exactly if all of the memory asked for fits below the end of the heap. Then the blocks lie one
  behind the other, start where the heap was and end below its limit: no wrap-around of the 32-bit addresses passes the check.
\<close>

theorem sbrk_bounds:
  assumes "unat brk \<le> heap_limit pl he" "heap_limit pl he < 2147483648" "\<forall>sz\<in>set szs. 0 \<le> sz \<and> sz < 2147483648"
  shows "case sbrks pl he szs brk of
      None \<Rightarrow> heap_limit pl he < unat brk + nat (sum_list szs)
    | Some (ps, brk') \<Rightarrow> unat brk' = unat brk + nat (sum_list szs) \<and> unat brk' \<le> heap_limit pl he \<and> length ps = length szs
        \<and> (\<forall>i<length szs. unat (ps ! i) = unat brk + nat (sum_list (take i szs)) \<and> unat (ps ! i) + nat (szs ! i) \<le> heap_limit pl he)"
  using assms
proof (induction szs arbitrary: brk)
  case (Cons sz szs)
  have z: "0 \<le> sz" "sz < 2147483648" "0 \<le> sum_list szs" "0 \<le> sum_list (take i szs)" for i
    using Cons.prems(3) by (auto intro!: sum_list_nonneg dest: in_set_takeD)
  note S = sbrk_ok [OF Cons.prems(1,2) z(1,2)]
  show ?case
  proof (cases "unat brk + nat sz \<le> heap_limit pl he")
    case True
    let ?b = "brk + of_int sz"
    have "case sbrks pl he szs ?b of
      None \<Rightarrow> heap_limit pl he < unat ?b + nat (sum_list szs)
    | Some (ps, brk') \<Rightarrow> unat brk' = unat ?b + nat (sum_list szs) \<and> unat brk' \<le> heap_limit pl he \<and> length ps = length szs
        \<and> (\<forall>i<length szs. unat (ps ! i) = unat ?b + nat (sum_list (take i szs)) \<and> unat (ps ! i) + nat (szs ! i) \<le> heap_limit pl he)"
      using True S(2) Cons.prems(2,3) by (intro Cons.IH) simp_all
    then show ?thesis using True S z
      by (cases "sbrks pl he szs ?b") (auto simp: nat_add_distrib less_Suc_eq_0_disj)
  qed (use S z in \<open>simp add: nat_add_distrib\<close>)
qed simp

theorem sbrk_bounds_witness:
  "(\<exists>brk'. sbrks ARTY 0x08008000 [4096, 0, 256] 0x08006000 = Some ([0x08006000, 0x08007000, 0x08007000], brk') \<and> unat brk' \<le> 0x08008000)
     \<and> sbrks ARTY 0x08008000 [0x7fffffff] 0x08006000 = None"
proof -
  have l: "heap_limit ARTY 0x08008000 = 0x08008000" by (simp add: heap_limit_def)
  have a: "sbrks ARTY 0x08008000 [4096, 0, 256] 0x08006000 = Some ([0x08006000, 0x08007000, 0x08007000], 0x08007100)" by code_simp
  show ?thesis using sbrk_bounds [of "0x08006000" ARTY "0x08008000" "[4096, 0, 256]"] sbrk_bounds [of "0x08006000" ARTY "0x08008000" "[0x7fffffff]"]
    unfolding l a by (cases "sbrks ARTY 0x08008000 [0x7fffffff] 0x08006000") (auto simp: a)
qed

text \<open>A negative request moves the heap below its start, and nothing checks it.\<close>

lemma sbrk_negative: "sbrk ARTY 0x08008000 (- 0x08006000) 0x08006000 = Some (0x08006000, 0)"
  by code_simp

text \<open>A program never passes more than the size of the tty buffer to the kernel at once.\<close>

lemma libc_write_user:
  "\<not> is_kernel t \<Longrightarrow> libc_write 1 msg t = Some (int (min 128 (length msg)), take 128 msg, t)"
  by (auto simp: libc_write_def)

end
