(* ===== verification/Programs.thy ===== *)
theory Programs
  imports Lifecycle Apps Libc Ipc
begin

section \<open>How programs end, and the programs for experiments\<close>

text \<open>
  The end of a program, from \<^verbatim>\<open>exit\<close> through the kernel to the process server, and the programs of \<^verbatim>\<open>apps/user\<close> that try
  the system out: \<^verbatim>\<open>clock\<close>, \<^verbatim>\<open>crash1\<close>, \<^verbatim>\<open>crash2\<close> and \<^verbatim>\<open>ult\<close>.
\<close>

subsection \<open>Exit\<close>

text \<open>
  Only the type of the request is set: \<open>junk\<close> is what the stack held in the rest of the structure. \<^verbatim>\<open>exit\<close> of the servers'
  library and \<^verbatim>\<open>_exit\<close> of the C library make this call and then loop.
\<close>

definition sys_exit_req :: "byte list \<Rightarrow> int \<Rightarrow> kernel \<Rightarrow> int + kernel" where
  "sys_exit_req junk st k = sys_send_req GPID_PROCESS (le32 PROC_EXIT @ junk) 520 k"

definition exit_req :: "byte list \<Rightarrow> int \<Rightarrow> kernel \<Rightarrow> int + kernel" where
  "exit_req junk st k = sys_exit_req junk st k"

definition libc_exit_req :: "byte list \<Rightarrow> int \<Rightarrow> kernel \<Rightarrow> int + kernel" where
  "libc_exit_req junk st k = sys_exit_req junk st k"

text \<open>
  C17. The end of a process: when a process calls \<^verbatim>\<open>exit\<close> and the process server then receives, the server gets a
  message from that process, whatever was on its stack, and serves it: the slot of the process becomes unused and the
  others stay, all of its memory is freed and that of the other processes stays; the shell is answered exactly if it waits
  for this process.
\<close>

theorem exit_frees_process:
  assumes "proc_curr_idx k < length (proc_set k)" "in_use (kmsg k) = 0" "exit_req junk rc k = Inr k1" "length junk = 516"
    and "proc_curr_idx k2 < length (proc_set k2)" "kmsg k2 = kmsg (syscall_handle k1)"
    and "curr_pid k2 = GPID_PROCESS" "sys_recv_req SYSCALL_MSG_LEN k2 = Inr k3"
    and "sys_recv_result SYSCALL_MSG_LEN (syscall_handle k3) = (buf, sender, ret)" "p = curr_pid k" "p \<noteq> - 1"
    and "ps_table st = proc_set (syscall_handle k3)" "arty_ok media live ready (paging (ps_mmu st))" "mmu_inv (ps_mmu st)"
  shows "\<exists>st'. sys_proc_serve s old sender buf st = Some (if shell_waiting st \<and> app_pid st = p then Some (le32 PROC_EXIT) else None, st')
     \<and> (\<forall>i<length (ps_table st). ps_table st' ! i =
          (if pid (ps_table st ! i) = p then (ps_table st ! i)\<lparr>status := PROC_UNUSED\<rparr> else ps_table st ! i))
     \<and> (\<forall>q n. q \<noteq> 0 \<longrightarrow> aspace (arty_content media cells) (ps_mmu st') q n =
          (if q = p then None else aspace (arty_content media cells) (ps_mmu st) q n))
     \<and> arty_ok media live ready (paging (ps_mmu st')) \<and> mmu_inv (ps_mmu st')"
proof -
  have e: "sys_send_req GPID_PROCESS (le32 PROC_EXIT @ junk) 520 k = Inr k1" using assms(3) by (simp add: exit_req_def sys_exit_req_def)
  from ipc_transfer_ok [OF assms(1,2) e assms(5-8)] assms(9,10)
  have b: "buf = take 1024 (take 520 (le32 PROC_EXIT @ junk) @ drop 520 (msg_content (sc_msg (sc k))))" "sender = p" by simp_all
  have l: "length (le32 PROC_EXIT) = 4" by (simp add: le32_def)
  have t: "take 4 buf = le32 PROC_EXIT" unfolding b(1) using l assms(4) by simp
  have "get32 (take 4 buf @ drop 4 buf) 0 = PROC_EXIT" unfolding t by simp
  then have g: "get32 buf 0 = PROC_EXIT" by simp
  let ?st = "st\<lparr>ps_table := proc_set_status p PROC_UNUSED (ps_table st), ps_mmu := mmu_free p (ps_mmu st)\<rparr>"
  have "sys_proc_serve s old sender buf st = Some (if shell_waiting st \<and> app_pid st = p then Some (le32 PROC_EXIT) else None, ?st)"
    using g t assms(11) by (simp add: sys_proc_serve_def proc_free_def b(2))
  with arty_cache.free_ok [OF assms(13,14), where q = p] show ?thesis
    by (intro exI [of _ ?st]) (simp add: proc_set_status_nth)
qed

theorem exit_frees_process_witness:
  "\<exists>k1 k3 buf ret st'. exit_req (replicate 516 9) 0 demo_kernel = Inr k1
     \<and> sys_recv_req 1024 ((syscall_handle k1)\<lparr>proc_curr_idx := 0, vm_pid := 1\<rparr>) = Inr k3
     \<and> sys_recv_result 1024 (syscall_handle k3) = (buf, 5, ret)
     \<and> sys_proc_serve sim_spi demo_old 5 buf
         \<lparr>app_ino = 0, app_pid = 5, shell_waiting = True, ps_nprocs = 5, ps_table = proc_set (syscall_handle k3), ps_mmu = demo_mmu\<rparr>
       = Some (Some (le32 1), st') \<and> status (ps_table st' ! 1) = PROC_UNUSED"
proof -
  obtain k1 where k1: "exit_req (replicate 516 9) 0 demo_kernel = Inr k1" by (simp add: exit_req_def sys_exit_req_def sys_send_req_def)
  let ?k2 = "(syscall_handle k1)\<lparr>proc_curr_idx := 0, vm_pid := 1\<rparr>"
  obtain k3 where k3: "sys_recv_req 1024 ?k2 = Inr k3" by (simp add: sys_recv_req_def)
  have p: "proc_set k1 = demo_procs" "proc_curr_idx k1 = Suc 0"
    using k1 by (auto simp: exit_req_def sys_exit_req_def sys_send_req_def sys_invoke_def demo_kernel_simps)
  have q: "proc_curr_idx ?k2 < length (proc_set ?k2)" "curr_pid ?k2 = 1"
    using syscall_handle_procs [of k1] by (simp_all add: p demo_procs_nth curr_pid_def)
  have e: "sys_send_req 1 (le32 1 @ replicate 516 9) 520 demo_kernel = Inr k1" using k1 by (simp add: exit_req_def sys_exit_req_def)
  have i: "proc_curr_idx demo_kernel < length (proc_set demo_kernel)" by (simp add: demo_kernel_simps demo_procs_nth)
  note T = ipc_transfer_ok [OF i demo_kernel_simps(4) e q(1) _ q(2) k3]
  obtain buf ret where r: "sys_recv_result 1024 (syscall_handle k3) = (buf, 5, ret)" using T by (simp add: demo_kernel_simps)
  have s: "proc_set (syscall_handle k3) = proc_set_runnable 1 (proc_set ?k2)" "proc_set ?k2 = proc_set_runnable 5 demo_procs"
    using T by (simp_all add: demo_kernel_simps)
  then have one: "pid (proc_set (syscall_handle k3) ! 1) = 5" "1 < length (proc_set (syscall_handle k3))"
    by (simp_all add: proc_set_defs proc_set_status_nth demo_procs_nth)
  define st where "st = \<lparr>app_ino = 0, app_pid = 5, shell_waiting = True, ps_nprocs = 5, ps_table = proc_set (syscall_handle k3), ps_mmu = demo_mmu\<rparr>"
  have f: "ps_table st = proc_set (syscall_handle k3)" "ps_mmu st = demo_mmu" "shell_waiting st" "app_pid st = 5" by (simp_all add: st_def)
  have ok: "arty_ok fst (\<lambda>_. True) sim_ready (paging (ps_mmu st))" "mmu_inv (ps_mmu st)" unfolding f(2) using demo_mmu_ok(1,2) .
  from exit_frees_process [OF i demo_kernel_simps(4) k1 _ q(1) _ q(2) k3 r demo_kernel_simps(5) [symmetric] _ f(1) ok, of sim_spi demo_old sim_cells] f(3,4)
  obtain st' where "sys_proc_serve sim_spi demo_old 5 buf st = Some (Some (le32 1), st')"
    "\<forall>i<length (ps_table st). ps_table st' ! i =
       (if pid (ps_table st ! i) = 5 then (ps_table st ! i)\<lparr>status := PROC_UNUSED\<rparr> else ps_table st ! i)" by auto
  then have "sys_proc_serve sim_spi demo_old 5 buf st = Some (Some (le32 1), st') \<and> status (ps_table st' ! 1) = PROC_UNUSED"
    using one by (simp add: f(1))
  with k1 k3 r show ?thesis unfolding st_def by blast
qed

subsection \<open>clock\<close>

text \<open>\<^verbatim>\<open>%d\<close> of a number.\<close>

fun print_nat :: "nat \<Rightarrow> byte list" where
  "print_nat n = (if n < 10 then [of_nat (48 + n)] else print_nat (n div 10) @ [of_nat (48 + n mod 10)])"

declare print_nat.simps [simp del]

definition print_int :: "int \<Rightarrow> byte list" where
  "print_int i = (if i < 0 then 45 # print_nat (nat (- i)) else print_nat (nat i))"

definition clock_line :: "int \<Rightarrow> int \<Rightarrow> byte list" where
  "clock_line i cnt = tty_printf (chars ''clock: tick#'' @ print_int (i + 1) @ chars '' / #'' @ print_int cnt @ [13, 10])"

function clock_loop :: "int \<Rightarrow> int \<Rightarrow> byte list" where
  "clock_loop i cnt = (if i < cnt then clock_line i cnt @ clock_loop (i + 1) cnt else [])"
  by pat_completeness auto

termination
  by (relation "measure (\<lambda>(i, cnt). nat (cnt - i))") auto

declare clock_loop.simps [simp del]

definition clock_main :: "nat \<Rightarrow> byte list \<Rightarrow> (int \<times> byte list) option" where
  "clock_main argc args =
    do { cnt \<leftarrow> (if argc = 1 then Some 1000 else map_option atoi (arg args 1));
         Some (0, clock_loop 0 cnt) }"

lemma print_nat_digits: "list_all isdigit (print_nat n) \<and> print_nat n \<noteq> []"
proof (induction n rule: print_nat.induct)
  case (1 n)
  have d: "isdigit (of_nat (48 + k))" if "k < 10" for k
    using that by (simp add: isdigit_def word_le_nat_alt unat_byte_of_nat del: of_nat_add of_nat_Suc)
  show ?case
  proof (cases "n < 10")
    case True
    with d show ?thesis by (subst (1 2) print_nat.simps) (simp del: of_nat_add)
  next
    case False
    with 1 d [of "n mod 10"] show ?thesis by (subst (1 2) print_nat.simps) (simp del: of_nat_add)
  qed
qed

lemma atoi_digits_snoc:
  assumes "list_all isdigit ds" "isdigit d"
  shows "atoi_digits n (ds @ [d]) = 10 * atoi_digits n ds + (uint d - 48)"
  using assms by (induction ds arbitrary: n) auto

lemma atoi_print_nat: "atoi_digits 0 (print_nat n) = int n"
proof (induction n rule: print_nat.induct)
  case (1 n)
  have d: "isdigit (of_nat (48 + k))" "uint (of_nat (48 + k) :: byte) = 48 + int k" if "k < 10" for k
    using that by (simp_all add: isdigit_def word_le_nat_alt unat_byte_of_nat uint_nat del: of_nat_add of_nat_Suc)
  show ?case
  proof (cases "n < 10")
    case True
    with d [OF this] show ?thesis by (subst print_nat.simps) (simp del: of_nat_add)
  next
    case False
    have "atoi_digits 0 (print_nat n) = 10 * atoi_digits 0 (print_nat (n div 10)) + int (n mod 10)"
      using False d [of "n mod 10"] print_nat_digits [of "n div 10"]
      by (subst print_nat.simps) (simp add: atoi_digits_snoc del: of_nat_add)
    moreover have "int n = 10 * int (n div 10) + int (n mod 10)" by presburger
    ultimately show ?thesis using 1 [OF False] by simp
  qed
qed

lemma digit_not_space: "isdigit c \<Longrightarrow> \<not> isspace c \<and> c \<noteq> 45 \<and> c \<noteq> 43"
  by (auto simp: isdigit_def isspace_def word_le_nat_alt)

text \<open>Printing and reading a number is the identity.\<close>

lemma atoi_print_int: "atoi (print_int i) = i"
proof -
  have "atoi (print_nat n) = int n" for n
  proof -
    obtain c cs where c: "print_nat n = c # cs" "isdigit c" using print_nat_digits [of n] by (cases "print_nat n") auto
    then have "atoi (print_nat n) = atoi_digits 0 (print_nat n)" using digit_not_space [OF c(2)] by (simp add: atoi_def)
    then show ?thesis by (simp add: atoi_print_nat)
  qed
  then show ?thesis by (simp add: print_int_def atoi_print_nat) (simp add: atoi_def isspace_def atoi_print_nat)
qed

text \<open>\<^verbatim>\<open>clock\<close> prints a line for each of its ticks, numbered from 1.\<close>

lemma clock_loop_lines: "clock_loop i cnt = concat (map (\<lambda>k. clock_line k cnt) [i..cnt - 1])"
proof (induction i cnt rule: clock_loop.induct)
  case (1 i cnt)
  show ?case
  proof (cases "i < cnt")
    case True
    then have "[i..cnt - 1] = i # [i + 1..cnt - 1]" by (simp add: upto_rec1)
    with 1 True show ?thesis by (subst clock_loop.simps) simp
  qed (subst clock_loop.simps, simp)
qed

lemma clock_main_lines:
  assumes "argc = 1 \<and> cnt = 1000 \<or> argc \<noteq> 1 \<and> arg args 1 = Some (print_int cnt)"
  shows "clock_main argc args = Some (0, concat (map (\<lambda>k. clock_line k cnt) [0..cnt - 1]))"
  using assms by (auto simp: clock_main_def clock_loop_lines atoi_print_int)

subsection \<open>crash1\<close>

text \<open>
  \<^verbatim>\<open>malloc\<close> of the C library is an argument, on the end of the heap; \<open>malloc_sbrk\<close> is that it gets all of
  the memory that it hands out from \<^verbatim>\<open>_sbrk\<close>.
\<close>

definition crash1_main :: "(int \<Rightarrow> u32 \<Rightarrow> (u32 \<times> u32) option) \<Rightarrow> u32 \<Rightarrow> (u32 \<times> u32) option" where
  "crash1_main malloc brk = malloc (32 * 1024 * 1024) brk"

definition malloc_sbrk :: "platform \<Rightarrow> u32 \<Rightarrow> u32 \<Rightarrow> (int \<Rightarrow> u32 \<Rightarrow> (u32 \<times> u32) option) \<Rightarrow> bool" where
  "malloc_sbrk pl he start malloc \<longleftrightarrow> (\<forall>n brk p brk'. malloc n brk = Some (p, brk') \<longrightarrow>
     (\<exists>szs ps. sbrks pl he szs brk = Some (ps, brk') \<and> (\<forall>sz\<in>set szs. 0 \<le> sz \<and> sz < 2147483648) \<and> int (unat start) + n \<le> int (unat brk')))"

text \<open>The program never gets its 32 MB, on either platform, for a heap in the region of the applications.\<close>

lemma sbrks_limit:
  assumes "sbrks pl he szs brk = Some (ps, brk')" "unat brk \<le> heap_limit pl he" "heap_limit pl he < 2147483648" "\<forall>sz\<in>set szs. 0 \<le> sz \<and> sz < 2147483648"
  shows "unat brk' \<le> heap_limit pl he"
  using assms
proof (induction szs arbitrary: brk ps)
  case (Cons sz szs)
  note S = sbrk_ok [OF Cons.prems(2,3), of sz]
  from Cons.prems(1,4) S obtain ps' where "sbrks pl he szs (brk + of_int sz) = Some (ps', brk')" "unat (brk + of_int sz) \<le> heap_limit pl he"
    by (auto split: option.splits if_splits)
  with Cons.IH Cons.prems(3,4) show ?case by auto
qed simp

lemma crash1_fails:
  assumes "malloc_sbrk pl he start malloc" "0x08005000 \<le> unat start" "unat brk \<le> heap_limit pl he" "pl = ARTY \<Longrightarrow> unat he \<le> 0x08008000"
  shows "crash1_main malloc brk = None"
proof (rule ccontr)
  assume "crash1_main malloc brk \<noteq> None"
  then obtain p brk' where m: "malloc 33554432 brk = Some (p, brk')" by (auto simp: crash1_main_def)
  with assms(1) obtain szs ps where s: "sbrks pl he szs brk = Some (ps, brk')" "\<forall>sz\<in>set szs. 0 \<le> sz \<and> sz < 2147483648"
    "int (unat start) + 33554432 \<le> int (unat brk')" unfolding malloc_sbrk_def by blast
  have l: "heap_limit pl he < 2147483648" "heap_limit pl he \<le> 0x0a000000" using assms(4) by (cases pl; simp add: heap_limit_def)+
  from sbrks_limit [OF s(1) assms(3) l(1) s(2)] l(2) s(3) assms(2) show False by simp
qed

subsection \<open>crash2\<close>

text \<open>\<^verbatim>\<open>memset\<close> of the frame cache, the 28 pages from \<^verbatim>\<open>FRAME_CACHE_START\<close>, from user code.\<close>

definition crash2_main :: "'c mmu \<Rightarrow> int \<times> byte list \<times> 'c mmu" where
  "crash2_main m = (0, tty_success (chars ''Crash2 succeeds in corrupting the memory of other processes''),
     m\<lparr>paging := (paging m)\<lparr>pages := (\<lambda>i. if i < ARTY_CACHED_NFRAMES then replicate PAGE_SIZE 0 else pages (paging m) i)\<rparr>\<rparr>)"

text \<open>With the software TLB every page of another process that is in the cache is lost.\<close>

lemma crash2_corrupts:
  assumes "q \<noteq> curr_vm_pid m" "frame_of m q n = Some f" "slot_of (paging m) f = Some i" "cache_wf (paging m)"
  shows "aspace (arty_content media cells) (snd (snd (crash2_main m))) q n = Some (replicate PAGE_SIZE 0)"
proof -
  have "i < 28" using find_index_SomeD(1) [OF assms(3) [unfolded slot_of_def]] cache_wfD(3) [OF assms(4)] by simp
  with assms(1-3) show ?thesis by (simp add: aspace_def crash2_main_def arty_content_def slot_of_def frame_of_def)
qed

subsection \<open>ult\<close>

text \<open>
  The threads and semaphores have empty bodies, and \<^verbatim>\<open>main\<close> only says so. A turn of the loop of a producer and of a consumer on
  the shared slots: without semaphores a turn never waits.
\<close>

record ult =
  slots :: "byte list option list"
  ult_in :: u32
  ult_out :: u32

definition sema_inc :: "ult \<Rightarrow> ult" where
  "sema_inc u = u"

definition sema_dec :: "ult \<Rightarrow> ult" where
  "sema_dec u = u"

definition producer_turn :: "byte list \<Rightarrow> ult \<Rightarrow> ult option" where
  "producer_turn x u =
    (let u = sema_dec u in
     if unat (ult_in u) < length (slots u)
     then (let u = u\<lparr>slots := (slots u)[unat (ult_in u) := Some x], ult_in := ult_in u + 1\<rparr>;
               u = (if ult_in u = 3 then u\<lparr>ult_in := 0\<rparr> else u)
           in Some (sema_inc u))
     else None)"

definition consumer_turn :: "ult \<Rightarrow> (byte list option \<times> ult) option" where
  "consumer_turn u =
    (let u = sema_dec u in
     if unat (ult_out u) < length (slots u)
     then (let x = slots u ! unat (ult_out u); u = u\<lparr>ult_out := ult_out u + 1\<rparr>;
               u = (if ult_out u = 3 then u\<lparr>ult_out := 0\<rparr> else u)
           in Some (x, sema_inc u))
     else None)"

definition ult_main :: "int \<times> byte list" where
  "ult_main = (0, tty_info (chars ''User-level threading is not implemented.''))"

inductive ult_step :: "ult \<Rightarrow> ult \<Rightarrow> bool" where
  produce: "producer_turn x u = Some u' \<Longrightarrow> ult_step u u'"
| consume: "consumer_turn u = Some (x, u') \<Longrightarrow> ult_step u u'"

definition ult_inv :: "ult \<Rightarrow> bool" where
  "ult_inv u \<longleftrightarrow> length (slots u) = 3 \<and> ult_in u < 3 \<and> ult_out u < 3"

text \<open>In any interleaving of producers and consumers the indices stay in range, and no turn fails.\<close>

lemma ult_step_inv:
  assumes "ult_inv u"
  shows "\<exists>u'. producer_turn x u = Some u' \<and> ult_inv u'" "\<exists>y u'. consumer_turn u = Some (y, u') \<and> ult_inv u'"
proof -
  have w: "unat i < 3 \<and> (i + 1 \<noteq> 3 \<longrightarrow> i + 1 < 3)" if "i < 3" for i :: u32
  proof -
    have "unat i < 3" using that by (simp add: word_less_nat_alt)
    then consider "unat i = unat (0 :: u32)" | "unat i = unat (1 :: u32)" | "unat i = unat (2 :: u32)" by force
    then have "i = 0 \<or> i = 1 \<or> i = 2" by cases (simp_all only: word_unat_eq_iff simp_thms)
    then show ?thesis by auto
  qed
  from assms w show "\<exists>u'. producer_turn x u = Some u' \<and> ult_inv u'" "\<exists>y u'. consumer_turn u = Some (y, u') \<and> ult_inv u'"
    by (auto simp: producer_turn_def consumer_turn_def ult_inv_def sema_inc_def sema_dec_def Let_def)
qed

lemma ult_reachable:
  assumes "ult_step\<^sup>*\<^sup>* u u'" "ult_inv u"
  shows "ult_inv u'"
  using assms
proof (induction rule: rtranclp_induct)
  case (step v w)
  then show ?case using ult_step_inv by (auto elim!: ult_step.cases) (metis option.inject prod.inject)+
qed simp

end
