(* ===== verification/Boot.thy ===== *)
theory Boot
  imports Elf Pagetable Mkfs Timer
begin

unbundle bit_operations_syntax

section \<open>Booting the earth layer\<close>

text \<open>
  \<^verbatim>\<open>earth/earth.c\<close> and \<^verbatim>\<open>intr_init\<close> of \<^verbatim>\<open>earth/cpu_intr.c\<close>, over the control registers of the processor
  and the interrupt controller, and \<^verbatim>\<open>tools/mkrom.c\<close>, which makes the flash memory that QEMU boots from. The
  initialisation of the devices is that of their own theories; \<open>None\<close> is a boot that does not end.
\<close>

datatype trap_vector = Reset_Vector | Trap_Entry_Start | Trap_Entry_Vm

record 'c board =
  csr_misa :: u32
  csr_mstatus :: u32
  csr_mie :: u32
  csr_mtvec :: trap_vector
  plic_enable :: u32
  plic_priority :: u32
  plic_pending :: u32
  bss :: "byte list"
  data_rom :: "byte list"
  data_ram :: "byte list"
  board_tty :: tty
  board_vm :: "'c vm"
  board_timer :: timer

definition intr_init :: "'c board \<Rightarrow> 'c board" where
  "intr_init b =
    (let b = b\<lparr>csr_mtvec := (if translation (vm_mmu (board_vm b)) = PAGE_TABLE then Trap_Entry_Vm else Trap_Entry_Start)\<rparr>;
         b = b\<lparr>csr_mie := csr_mie b OR 0x888\<rparr>;
         b = b\<lparr>csr_mstatus := csr_mstatus b OR 0x80\<rparr>;
         b = b\<lparr>plic_enable := plic_enable b OR push_bit 3 1\<rparr>;
         b = b\<lparr>plic_priority := plic_priority b OR 1\<rparr>
     in b\<lparr>plic_pending := 0\<rparr>)"

definition earth_platform :: "u32 \<Rightarrow> platform" where
  "earth_platform misa = (if misa AND push_bit 18 1 \<noteq> 0 then QEMU else ARTY)"

definition set_paging :: "('c pager \<Rightarrow> 'c pager) \<Rightarrow> 'c vm \<Rightarrow> 'c vm" where
  "set_paging f v = v\<lparr>vm_mmu := (vm_mmu v)\<lparr>paging := f (paging (vm_mmu v))\<rparr>\<rparr>"

definition earth_init :: "'c spi \<Rightarrow> 'c board \<Rightarrow> 'c board option" where
  "earth_init s b =
    do { let platform = earth_platform (csr_misa b);
         let v = set_paging (\<lambda>p. p\<lparr>pg_platform := platform\<rparr>) (board_vm b);
         t \<leftarrow> tty_init (board_tty b);
         (d, t) \<leftarrow> disk_init s t (pg_disk (paging (vm_mmu v)));
         (v, t) \<leftarrow> mmu_init s t (set_paging (\<lambda>p. p\<lparr>pg_disk := d\<rparr>) v);
         Some (intr_init (b\<lparr>board_tty := t, board_vm := v, board_timer := timer_init platform (board_timer b)\<rparr>)) }"

text \<open>\<^verbatim>\<open>main\<close>, up to the jump to the grass layer\<close>

definition earth_main :: "'c spi \<Rightarrow> 'c board \<Rightarrow> 'c board option" where
  "earth_main s b =
    do { let b = b\<lparr>bss := replicate (length (bss b)) 0\<rparr>;
         let b = b\<lparr>data_ram := take (length (data_ram b)) (data_rom b)\<rparr>;
         b \<leftarrow> earth_init s b;
         m \<leftarrow> elf_load s 0 (grass_read s) 0 None (vm_mmu (board_vm b));
         let b = b\<lparr>board_vm := (board_vm b)\<lparr>vm_mmu := m\<rparr>\<rparr>;
         let mode = (if translation m = SOFT_TLB then 3 else 1);
         Some (b\<lparr>csr_mstatus := (csr_mstatus b AND NOT (push_bit 11 3)) OR push_bit 11 mode OR push_bit 18 1\<rparr>) }"

subsection \<open>The keyboard during the boot\<close>

text \<open>
  The \<open>n\<close>-th read of the receive register finds it empty; it is the first one from \<open>from\<close> on that finds a key, and the
  key is \<open>c\<close>.
\<close>

definition rx_empty :: "(nat \<Rightarrow> u32) \<Rightarrow> nat \<Rightarrow> bool" where
  "rx_empty rx n \<longleftrightarrow> rx n AND push_bit 31 1 \<noteq> 0"

definition first_key :: "(nat \<Rightarrow> u32) \<Rightarrow> nat \<Rightarrow> nat \<Rightarrow> byte \<Rightarrow> bool" where
  "first_key rx from n c \<longleftrightarrow> from \<le> n \<and> (\<forall>k. from \<le> k \<and> k < n \<longrightarrow> rx_empty rx k) \<and> \<not> rx_empty rx n \<and> rx n AND 0xFF = ucast c"

lemma first_key_Suc: "first_key rx i n c \<Longrightarrow> rx_empty rx i \<Longrightarrow> first_key rx (Suc i) n c \<and> i < n"
  by (auto simp: first_key_def Suc_le_eq le_less)

lemma uart_getc_poll_key:
  assumes "first_key (rxdata u) (rxcount u) n c"
  shows "uart_getc_poll u = Some (uint c, u\<lparr>rxcount := Suc n\<rparr>)"
  using assms
proof (induction "n - rxcount u" arbitrary: u)
  case 0
  then have "n = rxcount u" by (simp add: first_key_def)
  moreover have "uint c \<noteq> - 1" using uint_ge_0 [of c] by linarith
  ultimately show ?case using 0(2) by (subst uart_getc_poll.simps) (simp add: uart_getc_def rx_empty_def first_key_def uint_up_ucast is_up)
next
  case (Suc l)
  have e: "rx_empty (rxdata u) (rxcount u)" using Suc.hyps(2) Suc.prems by (simp add: first_key_def)
  then have "uart_getc_poll u = uart_getc_poll (u\<lparr>rxcount := Suc (rxcount u)\<rparr>)"
    by (subst uart_getc_poll.simps) (simp add: uart_getc_def rx_empty_def)
  also have "\<dots> = Some (uint c, u\<lparr>rxcount := Suc n\<rparr>)"
    using Suc.hyps(1) [of "u\<lparr>rxcount := Suc (rxcount u)\<rparr>"] Suc.hyps(2) first_key_Suc [OF Suc.prems e] by simp
  finally show ?case .
qed

lemma read_choice_key:
  assumes "first_key (rxdata (tty_uart t)) (rxcount (tty_uart t)) n c" "c = 0x30 \<or> c = 0x31"
  shows "read_choice 0 t = Some (c, t\<lparr>tty_uart := (tty_uart t)\<lparr>rxcount := Suc n\<rparr>\<rparr>)"
proof -
  have "tty_read_kernel 1 t = Some ([c], t\<lparr>tty_uart := (tty_uart t)\<lparr>rxcount := Suc n\<rparr>\<rparr>)"
    using uart_getc_poll_key [OF assms(1)] by (simp add: tty_read_kernel_def)
  then have "read_choice 0 t = read_choice c (t\<lparr>tty_uart := (tty_uart t)\<lparr>rxcount := Suc n\<rparr>\<rparr>)" by (subst read_choice.simps) simp
  then show ?thesis using assms(2) by (subst (asm) (2) read_choice.simps) auto
qed

lemma tty_init_wait_empty:
  assumes "rxcount u \<le> n" "rx_empty (rxdata u) n" "\<forall>k. rxcount u \<le> k \<and> k < n \<longrightarrow> \<not> rx_empty (rxdata u) k" "c \<noteq> - 1"
  shows "tty_init_wait c u = Some (u\<lparr>rxcount := Suc n\<rparr>)"
  using assms
proof (induction "n - rxcount u" arbitrary: u c)
  case 0
  then have "n = rxcount u" by simp
  then show ?case using 0(3,5) tty_init_wait.simps [of "- 1"] by (subst tty_init_wait.simps) (simp add: uart_getc_def rx_empty_def)
next
  case (Suc l)
  let ?u = "u\<lparr>rxcount := Suc (rxcount u)\<rparr>" and ?c = "uint (rxdata u (rxcount u) AND 0xFF)"
  have c: "?c \<noteq> - 1" using uint_ge_0 [of "rxdata u (rxcount u) AND 0xFF"] by linarith
  have "\<not> rx_empty (rxdata u) (rxcount u)" using Suc.hyps(2) Suc.prems(3) by simp
  then have "tty_init_wait c u = tty_init_wait ?c ?u" using Suc.prems(4) by (subst tty_init_wait.simps) (simp add: uart_getc_def rx_empty_def)
  also have "\<dots> = Some (?u\<lparr>rxcount := Suc n\<rparr>)" using Suc.hyps(2) Suc.prems c by (intro Suc.hyps(1)) auto
  finally show ?case by simp
qed

subsection \<open>Booting QEMU from its flash memory\<close>

text \<open>The registers for interrupts after the boot, bit by bit.\<close>

definition boot_registers :: "'c board \<Rightarrow> 'c board \<Rightarrow> bool" where
  "boot_registers b b' \<longleftrightarrow>
     csr_mtvec b' = (if translation (vm_mmu (board_vm b')) = PAGE_TABLE then Trap_Entry_Vm else Trap_Entry_Start)
     \<and> (\<forall>n<32. bit (csr_mie b') n \<longleftrightarrow> n \<in> {3, 7, 11} \<or> bit (csr_mie b) n)
     \<and> (\<forall>n<32. bit (csr_mstatus b') n \<longleftrightarrow> n \<in> {7, 11, 18} \<or> n = 12 \<and> translation (vm_mmu (board_vm b')) = SOFT_TLB
          \<or> n \<noteq> 12 \<and> bit (csr_mstatus b) n)
     \<and> bit (plic_enable b') 3 \<and> plic_priority b' \<noteq> 0 \<and> plic_pending b' = 0"

lemma bit_0x888: "n < 32 \<Longrightarrow> bit (0x888 :: u32) n \<longleftrightarrow> n \<in> {3, 7, 11}"
  by (auto simp: bit_simps numeral_eq_Suc less_Suc_eq)

lemma bit_set_field: "n < 32 \<Longrightarrow> bit ((x AND NOT a) OR c OR d) n \<longleftrightarrow> bit x n \<and> \<not> bit a n \<or> bit c n \<or> bit d n" for x a c d :: u32
  by (simp add: bit_or_iff bit_and_iff bit_not_iff)

lemma boot_registers_ok:
  assumes "csr_mie b0 = csr_mie b" "csr_mstatus b0 = csr_mstatus b" "translation (vm_mmu v) = translation (vm_mmu (board_vm b0))"
  shows "boot_registers b ((intr_init b0)\<lparr>board_vm := v, csr_mstatus :=
     (csr_mstatus (intr_init b0) AND NOT (push_bit 11 3)) OR push_bit 11 (if translation (vm_mmu v) = SOFT_TLB then 3 else 1) OR push_bit 18 1\<rparr>)"
proof -
  have 80: "bit (0x80 :: u32) n \<longleftrightarrow> n = 7" if "n < 32" for n using that by (auto simp: bit_simps numeral_eq_Suc less_Suc_eq)
  have m: "bit (push_bit 11 (3 :: u32)) n \<longleftrightarrow> n = 11 \<or> n = 12" "bit (push_bit 11 (1 :: u32)) n \<longleftrightarrow> n = 11" "bit (push_bit 18 (1 :: u32)) n \<longleftrightarrow> n = 18"
    if "n < 32" for n using that by (auto simp: bit_simps numeral_eq_Suc less_Suc_eq)
  have "csr_mstatus (intr_init b0) = csr_mstatus b OR 0x80" using assms(2) by (simp add: intr_init_def Let_def)
  then have "bit ((csr_mstatus (intr_init b0) AND NOT (push_bit 11 3)) OR push_bit 11 (if translation (vm_mmu v) = SOFT_TLB then 3 else 1) OR push_bit 18 1) n \<longleftrightarrow>
      n \<in> {7, 11, 18} \<or> n = 12 \<and> translation (vm_mmu v) = SOFT_TLB \<or> n \<noteq> 12 \<and> bit (csr_mstatus b) n" if "n < 32" for n
    unfolding bit_set_field [OF that] using 80 [OF that] m [OF that] by (auto simp: bit_or_iff)
  moreover have "bit (csr_mie (intr_init b0)) n \<longleftrightarrow> n \<in> {3, 7, 11} \<or> bit (csr_mie b) n" if "n < 32" for n
    using bit_0x888 [OF that] assms(1) by (auto simp: intr_init_def Let_def bit_or_iff)
  moreover have "bit (plic_enable (intr_init b0)) 3" by (simp add: intr_init_def Let_def bit_simps)
  moreover have "bit (plic_priority (intr_init b0)) 0" by (simp add: intr_init_def Let_def bit_simps)
  then have "plic_priority (intr_init b0) \<noteq> 0" by auto
  ultimately show ?thesis using assms(3) by (simp add: boot_registers_def) (simp add: intr_init_def Let_def)
qed

lemma grass_read_translation: "grass_read s n m = Some (b, m') \<Longrightarrow> translation m' = translation m"
  by (auto simp: grass_read_def sys_proc_read_def split: bind_splits)

lemma load_grass_blocks_translation:
  "load_grass_blocks (grass_read s) filesz off k m = Some m' \<Longrightarrow> translation m' = translation m"
proof (induction "filesz - off" arbitrary: off k m rule: less_induct)
  case less
  show ?case
  proof (cases "off < filesz")
    case True
    then obtain b m1 where r: "grass_read s k m = Some (b, m1)"
      "load_grass_blocks (grass_read s) filesz (off + BLOCK_SIZE) (k + 1) (m1\<lparr>grass_mem := patch off b (grass_mem m1)\<rparr>) = Some m'"
      using less.prems by (subst (asm) load_grass_blocks.simps) (auto split: bind_splits)
    then show ?thesis using less.hyps [OF _ r(2)] grass_read_translation [OF r(1)] True by simp
  qed (use less.prems in \<open>subst (asm) load_grass_blocks.simps, simp\<close>)
qed

lemma elf_loop_translation:
  assumes "\<forall>i\<in>set is. \<exists>h. pheader buf i = Some h \<and> (p_memsz h = 0 \<or> p_vaddr h = GRASS_ENTRY)"
  shows "elf_load_loop s q (grass_read s) argc argv buf is m = Some m' \<Longrightarrow> translation m' = translation m"
  using assms
proof (induction "is" arbitrary: m)
  case (Cons i "is")
  then obtain h where h: "pheader buf i = Some h" "p_memsz h = 0 \<or> p_vaddr h = GRASS_ENTRY" by auto
  then obtain m1 where m1: "m1 = m \<or> load_grass (grass_read s) h m = Some m1" "elf_load_loop s q (grass_read s) argc argv buf is m1 = Some m'"
    using Cons.prems(1) by (auto split: if_splits bind_splits)
  have "translation m1 = translation m"
    using m1(1) by (auto simp: load_grass_def dest: load_grass_blocks_translation split: if_splits bind_splits)
  then show ?case using Cons.IH [OF m1(2)] Cons.prems(2) by simp
qed simp

text \<open>
  C14. Booting QEMU from its flash memory: when the receive register has been drained and the user then answers both questions with
  \<^verbatim>\<open>1\<close>, the on-board ROM and the software TLB, and the flash memory has the executable of the grass layer, the earth layer ends its
  boot: the segment of the grass layer is in place with zeros behind it, the bss is zero and the data copied, the timer has
  the quantum of QEMU, and external, timer and software interrupts are enabled with the trap vector and the machine
  mode that belong to the software TLB.
\<close>

theorem earth_boots:
  assumes "earth_platform (csr_misa b) = QEMU" "rx = rxdata (tty_uart (board_tty b))"
    and "rxcount (tty_uart (board_tty b)) \<le> n0" "\<forall>k. rxcount (tty_uart (board_tty b)) \<le> k \<and> k < n0 \<longrightarrow> \<not> rx_empty rx k" "rx_empty rx n0"
    and "first_key rx (Suc n0) n1 0x31" "first_key rx (Suc n1) n2 0x31"
    and "m = vm_mmu (board_vm b)" "mmu_inv m" "\<forall>f<NFRAMES. length (pages (paging m) f) = PAGE_SIZE" "length (grass_mem m) = GRASS_SIZE"
    and "img = (\<lambda>n. map (\<lambda>i. dd_rom (pg_disk (paging m)) (int (GRASS_EXEC_START + n) * int BLOCK_SIZE + int i)) [0..<BLOCK_SIZE])"
    and "k < e_phnum (img 0)" "pheader (img 0) k = Some h" "p_memsz h \<noteq> 0" "p_vaddr h = GRASS_ENTRY"
    and "\<forall>i<e_phnum (img 0). i \<noteq> k \<longrightarrow> (\<exists>g. pheader (img 0) i = Some g \<and> p_memsz g = 0)"
    and "p_filesz h \<le> GRASS_SIZE" "p_offset h + p_filesz h \<le> BLOCK_SIZE * GRASS_EXEC_SEGMENT"
  shows "\<exists>b'. earth_main s b = Some b' \<and> boot_registers b b'
     \<and> translation (vm_mmu (board_vm b')) = SOFT_TLB \<and> qemu_ok (paging (vm_mmu (board_vm b'))) \<and> mmu_inv (vm_mmu (board_vm b'))
     \<and> (\<forall>i<GRASS_SIZE. grass_mem (vm_mmu (board_vm b')) ! i = (if i < p_filesz h then img (p_offset h div BLOCK_SIZE + i div BLOCK_SIZE) ! (i mod BLOCK_SIZE) else 0))
     \<and> bss b' = replicate (length (bss b)) 0 \<and> data_ram b' = take (length (data_ram b)) (data_rom b) \<and> QUANTUM (board_timer b') = 500000"
proof -
  let ?v = "board_vm b" and ?t = "board_tty b"
  define t0 where "t0 = tty_kernel_mode (tty_buff_init (?t\<lparr>tty_uart := (uart_init 115200 (tty_uart ?t))\<lparr>rxcount := Suc n0\<rparr>\<rparr>))"
  have u: "rxdata (uart_init 115200 u) = rxdata u" "rxcount (uart_init 115200 u) = rxcount u" for u by (simp_all add: uart_init_def Let_def)
  have t0: "tty_init ?t = Some t0"
    using tty_init_wait_empty [of "uart_init 115200 (tty_uart ?t)" n0 0] assms(2-5) by (simp add: tty_init_def u t0_def)
  have r0: "rxdata (tty_uart t0) = rx" "rxcount (tty_uart t0) = Suc n0" by (simp_all add: t0_def u assms(2) tty_kernel_mode_def tty_buff_init_def)
  define t1 where "t1 = t0\<lparr>tty_uart := (tty_uart t0)\<lparr>rxcount := Suc n1\<rparr>\<rparr>"
  define t2 where "t2 = t1\<lparr>tty_uart := (tty_uart t1)\<lparr>rxcount := Suc n2\<rparr>\<rparr>"
  have c1: "read_choice 0 t0 = Some (0x31, t1)" using read_choice_key [of t0 n1 "0x31"] assms(6) by (simp add: r0 t1_def)
  have c2: "read_choice 0 t1 = Some (0x31, t2)" using read_choice_key [of t1 n2 "0x31"] assms(7) by (simp add: t1_def t2_def r0)
  let ?d = "(pg_disk (paging m))\<lparr>dd_type := FLASH_ROM\<rparr>"
  let ?p = "(paging m)\<lparr>pg_platform := QEMU, pg_disk := ?d, cache_slots := replicate ARTY_CACHED_NFRAMES (- 1)\<rparr>"
  define m1 where "m1 = m\<lparr>paging := ?p, translation := SOFT_TLB\<rparr>"
  define v1 where "v1 = ?v\<lparr>pmpaddr0 := 0x40000000, pmpcfg0 := 0xF, vm_mmu := m1\<rparr>"
  define b0 where "b0 = b\<lparr>bss := replicate (length (bss b)) 0, data_ram := take (length (data_ram b)) (data_rom b),
    board_tty := t2, board_vm := v1, board_timer := timer_init QEMU (board_timer b)\<rparr>"
  have I: "earth_init s (b\<lparr>bss := replicate (length (bss b)) 0, data_ram := take (length (data_ram b)) (data_rom b)\<rparr>) = Some (intr_init b0)"
    using assms(1) unfolding earth_init_def disk_init_def mmu_init_def
    by (simp add: t0 c1 c2 Let_def set_paging_def paging_init_def assms(8) b0_def v1_def m1_def)
  have ok: "qemu_ok (paging m1)" "mmu_inv m1" "length (grass_mem m1) = GRASS_SIZE" using assms(9-11) by (simp_all add: qemu_ok_def m1_def mmu_inv_def)
  have i: "img = (\<lambda>n. map (\<lambda>i. dd_rom (pg_disk (paging m1)) (int (GRASS_EXEC_START + n) * int BLOCK_SIZE + int i)) [0..<BLOCK_SIZE])"
    unfolding assms(12) by (simp add: m1_def)
  from elf_load_grass_ok [OF ok i assms(13-19), of s] obtain m2 where
    E: "elf_load s 0 (grass_read s) 0 None m1 = Some m2" "qemu_ok (paging m2)" "mmu_inv m2"
      "\<forall>i<GRASS_SIZE. grass_mem m2 ! i = (if i < p_filesz h then img (p_offset h div BLOCK_SIZE + i div BLOCK_SIZE) ! (i mod BLOCK_SIZE) else 0)" by blast
  have "\<forall>i\<in>set [0..<e_phnum (img 0)]. \<exists>g. pheader (img 0) i = Some g \<and> (p_memsz g = 0 \<or> p_vaddr g = GRASS_ENTRY)"
    using assms(14,16,17) by auto
  moreover have "grass_read s 0 m1 = Some (img 0, m1)"
    using ok(1) by (simp add: grass_read_def sys_proc_read_def disk_read_def qemu_ok_def i del: upt_Suc)
  ultimately have tr: "translation m2 = SOFT_TLB"
    using E(1) elf_loop_translation [of "[0..<e_phnum (img 0)]" "img 0" s 0 0 None m1 m2] by (simp add: elf_load_def m1_def)
  let ?v2 = "v1\<lparr>vm_mmu := m2\<rparr>"
  have R: "boot_registers b ((intr_init b0)\<lparr>board_vm := ?v2, csr_mstatus := (csr_mstatus (intr_init b0) AND NOT (push_bit 11 3)) OR push_bit 11 3 OR push_bit 18 1\<rparr>)"
    using boot_registers_ok [of b0 b ?v2] tr by (simp add: b0_def v1_def m1_def)
  have v: "board_vm (intr_init b0) = v1" "vm_mmu v1 = m1" "bss (intr_init b0) = bss b0" "data_ram (intr_init b0) = data_ram b0" "board_timer (intr_init b0) = board_timer b0"
    by (simp_all add: intr_init_def Let_def b0_def v1_def)
  have "earth_main s b = Some ((intr_init b0)\<lparr>board_vm := ?v2, csr_mstatus := (csr_mstatus (intr_init b0) AND NOT (push_bit 11 3)) OR push_bit 11 3 OR push_bit 18 1\<rparr>)"
    using E(1) tr I unfolding earth_main_def by (simp add: v Let_def)
  moreover have "bss b0 = replicate (length (bss b)) 0" "data_ram b0 = take (length (data_ram b)) (data_rom b)" "QUANTUM (board_timer b0) = 500000"
    by (simp_all add: b0_def timer_init_def mtimecmp_set_def cmp_store_hi_def cmp_store_lo_def)
  ultimately show ?thesis using R E(2-4) tr v(3-5) by simp
qed

definition demo_rx :: "nat \<Rightarrow> u32" where
  "demo_rx n = (if n = 1 \<or> n = 2 then 0x31 else 0x80000000)"

definition demo_board :: "(sim_card \<times> byte) board" where
  "demo_board = \<lparr>csr_misa = 0x40141105, csr_mstatus = 0, csr_mie = 0, csr_mtvec = Reset_Vector, plic_enable = 0, plic_priority = 0, plic_pending = 1,
     bss = [1, 2], data_rom = [5, 6], data_ram = [0, 0],
     board_tty = \<lparr>tty_read_buf = tb_zero, tty_write_buf = tb_zero,
       tty_uart = \<lparr>rxdata = demo_rx, rxcount = 0, txdata = (\<lambda>_. 0), txcount = 0, uart_ip = (\<lambda>_. 0), ipcount = 0, uart_out = [], uart_ie = 0,
         uart_txctrl = 0, uart_rxctrl = 0, uart_div = 0, gpio_iof = 0\<rparr>, is_kernel = False\<rparr>,
     board_vm = \<lparr>vm_mmu = demo_rom, root = 0, leaf = 0, pid_to_pagetable_base = (\<lambda>_. 0), satp = 0, pmpaddr0 = 0, pmpcfg0 = 0\<rparr>,
     board_timer = \<lparr>mtime_at = (\<lambda>_. 0), mtime_reads = 0, cmp_lo = 0, cmp_hi = 0, cmp_trace = [], QUANTUM = 0\<rparr>\<rparr>"

theorem earth_boots_witness:
  "\<exists>b'. earth_main sim_spi demo_board = Some b' \<and> bit (csr_mie b') 11 \<and> bit (csr_mstatus b') 12 \<and> csr_mtvec b' = Trap_Entry_Start
     \<and> grass_mem (vm_mmu (board_vm b')) ! 599 = 7 \<and> grass_mem (vm_mmu (board_vm b')) ! 600 = 0 \<and> bss b' = [0, 0] \<and> data_ram b' = [5, 6]"
proof -
  let ?h = "demo_header 0x08002800" and ?e = "demo_elf 0x08002800" and ?m = "vm_mmu (board_vm demo_board)"
  have m: "?m = demo_rom" by (simp add: demo_board_def)
  have h: "length ?e = 512" "e_phnum ?e = 1" "pheader ?e 0 = Some ?h" using demo_elf_header [of "0x08002800"] by simp_all
  define img where "img = (\<lambda>n. map (\<lambda>i. dd_rom (pg_disk (paging ?m)) (int (GRASS_EXEC_START + n) * int BLOCK_SIZE + int i)) [0..<BLOCK_SIZE])"
  have "img 0 = map (\<lambda>i. ?e ! i) [0..<512]" unfolding img_def m by (intro map_cong refl) (simp add: demo_rom_def)
  then have i0: "img 0 = ?e" using map_nth [of ?e] h(1) by simp
  have i2: "img (Suc (Suc 0)) ! 87 = 7" by (simp add: img_def m demo_rom_def)
  have inv: "mmu_inv ?m" "\<forall>f<NFRAMES. length (pages (paging ?m) f) = PAGE_SIZE" "length (grass_mem ?m) = GRASS_SIZE"
    using demo_mmu_ok(2) by (simp_all add: m mmu_inv_def demo_rom_def demo_mmu_def)
  have q: "earth_platform (csr_misa demo_board) = QEMU" by (simp add: earth_platform_def demo_board_def)
  have rx: "demo_rx = rxdata (tty_uart (board_tty demo_board))" "rxcount (tty_uart (board_tty demo_board)) = 0" by (simp_all add: demo_board_def)
  have k: "rx_empty demo_rx 0" "first_key demo_rx (Suc 0) 1 0x31" "first_key demo_rx (Suc 1) 2 0x31" by (simp_all add: rx_empty_def first_key_def demo_rx_def)
  have k0: "rxcount (tty_uart (board_tty demo_board)) \<le> 0" "\<forall>k. rxcount (tty_uart (board_tty demo_board)) \<le> k \<and> k < 0 \<longrightarrow> \<not> rx_empty demo_rx k" by (simp_all add: rx)
  have k2: "0 < e_phnum (img 0)" "pheader (img 0) 0 = Some ?h" "p_memsz ?h \<noteq> 0" "p_vaddr ?h = GRASS_ENTRY"
    "\<forall>i<e_phnum (img 0). i \<noteq> 0 \<longrightarrow> (\<exists>g. pheader (img 0) i = Some g \<and> p_memsz g = 0)" "p_filesz ?h \<le> GRASS_SIZE"
    "p_offset ?h + p_filesz ?h \<le> BLOCK_SIZE * GRASS_EXEC_SEGMENT" using h by (simp_all add: i0 demo_header_def)
  from earth_boots [OF q rx(1) k0 k refl inv img_def k2, of sim_spi] obtain b' where
    B: "earth_main sim_spi demo_board = Some b'" "boot_registers demo_board b'" "translation (vm_mmu (board_vm b')) = SOFT_TLB"
      "\<forall>i<GRASS_SIZE. grass_mem (vm_mmu (board_vm b')) ! i = (if i < p_filesz ?h then img (p_offset ?h div BLOCK_SIZE + i div BLOCK_SIZE) ! (i mod BLOCK_SIZE) else 0)"
      "bss b' = replicate (length (bss demo_board)) 0" "data_ram b' = take (length (data_ram demo_board)) (data_rom demo_board)" by blast
  have "bss b' = [0, 0]" "data_ram b' = [5, 6]" using B(5,6) by (simp_all add: demo_board_def numeral_2_eq_2)
  then show ?thesis using B(1-3) B(4) [rule_format, of 599] B(4) [rule_format, of 600] i2 by (simp add: boot_registers_def demo_header_def)
qed

subsection \<open>The image of the flash memory\<close>

text \<open>\<^verbatim>\<open>tools/mkrom.c\<close>: three files in three parts of 4 MB; a longer file is written behind its array, which is \<open>None\<close>.\<close>

abbreviation (input) SIZE_4MB :: nat where "SIZE_4MB \<equiv> 4194304"

definition load_file :: "host \<Rightarrow> byte list \<Rightarrow> byte list \<Rightarrow> (nat \<times> byte list) option" where
  "load_file h file_name dst =
    (let st_size = length (h_file h file_name) in
     if st_size > length dst then None else do { dst \<leftarrow> read_loop h file_name st_size 0 dst; Some (st_size, dst) })"

definition mkrom :: "host \<Rightarrow> byte list \<Rightarrow> byte list option" where
  "mkrom h CPU_BIN_FILE =
    do { (fe310_size, mem_fe310) \<leftarrow> load_file h CPU_BIN_FILE (replicate SIZE_4MB 0);
         (earth_size, mem_earth) \<leftarrow> load_file h (chars ''earth.bin'') (replicate SIZE_4MB 0);
         (disk_size, mem_disk) \<leftarrow> load_file h (chars ''disk.img'') (replicate SIZE_4MB 0);
         if fe310_size \<le> SIZE_4MB \<and> earth_size \<le> SIZE_4MB \<and> disk_size = SIZE_4MB
         then Some (mem_fe310 @ mem_earth @ mem_disk) else None }"

lemma load_file_ok:
  assumes "host_ok h" "length (h_file h name) \<le> n"
  shows "load_file h name (replicate n 0) = Some (length (h_file h name), h_file h name @ replicate (n - length (h_file h name)) 0)"
  using assms read_loop_file [OF assms(1), of name "length (h_file h name)" "replicate n 0"] by (simp add: load_file_def Let_def)

text \<open>
  The flash memory starts at \<^verbatim>\<open>0x20000000\<close> and the disk driver reads it from \<^verbatim>\<open>0x20800000\<close> on: with the image of the tool in the flash
  memory, the driver reads the blocks of the disk image.
\<close>

lemma mkrom_disk:
  assumes h: "host_ok h" "length (h_file h cpu) \<le> SIZE_4MB" "length (h_file h (chars ''earth.bin'')) \<le> SIZE_4MB" "length (h_file h (chars ''disk.img'')) = SIZE_4MB"
    and d: "dd_type d = FLASH_ROM" "\<forall>rom. mkrom h cpu = Some rom \<longrightarrow> (\<forall>i<SIZE_4MB. dd_rom d (int i) = rom ! (0x800000 + i))" and b: "b < 8192"
  shows "\<exists>rom. mkrom h cpu = Some rom \<and> length rom = 3 * SIZE_4MB \<and> take (length (h_file h cpu)) rom = h_file h cpu
     \<and> disk_read s (int b) 1 d = Some (0, take BLOCK_SIZE (drop (b * BLOCK_SIZE) (h_file h (chars ''disk.img''))), d)"
proof -
  let ?f = "h_file h cpu" and ?e = "h_file h (chars ''earth.bin'')" and ?i = "h_file h (chars ''disk.img'')" and ?n = "4194304 :: nat"
  define F where "F = ?f @ replicate (?n - length ?f) 0"
  define E where "E = ?e @ replicate (?n - length ?e) 0"
  have l: "length F = ?n" "length E = ?n" using h(2,3) by (simp_all add: F_def E_def)
  have r: "mkrom h cpu = Some (F @ E @ ?i)" using load_file_ok [OF h(1), of _ ?n] h(2-4) by (simp add: mkrom_def F_def E_def)
  have "dd_rom d (int (b * 512) + int j) = ?i ! (b * 512 + j)" if "j < 512" for j
  proof -
    have "b * 512 + j < ?n" using b that by simp
    then have "dd_rom d (int (b * 512 + j)) = (F @ E @ ?i) ! (0x800000 + (b * 512 + j))" using d(2) r by blast
    also have "\<dots> = ?i ! (b * 512 + j)" using l by (simp add: nth_append)
    finally show ?thesis by simp
  qed
  then have "map (\<lambda>j. dd_rom d (int b * 512 + int j)) [0..<512] = map (\<lambda>j. ?i ! (b * 512 + j)) [0..<512]" by (intro map_cong) simp_all
  also have "\<dots> = take 512 (drop (b * 512) ?i)" using b h(4) by (intro nth_equalityI) simp_all
  finally have "disk_read s (int b) 1 d = Some (0, take 512 (drop (b * 512) ?i), d)" using d(1) by (simp add: disk_read_def del: upt_Suc)
  moreover have "take (length ?f) (F @ E @ ?i) = ?f" by (simp add: F_def)
  ultimately show ?thesis using r l h(4) by simp
qed

end
