(* ===== verification/Spec2Isabelle.thy ===== *)
theory Spec2Isabelle
  imports Prelude Tty Timer Process Kernel Ipc Scheduler Traps Asm Resume Interrupt_Char Treedisk Treedisk_Tree Treedisk_Edit Treedisk_Correct Treedisk_Create Ramdisk Sd Sd_Card Disk Sd_Sim Paging Mmu Elf Pagetable Cstring Servers Mkfs Shell Sys_Proc Lifecycle Apps Libc Programs Boot
begin

text \<open>
  Verification of egos-2000, a teaching operating system for RISC-V in three layers: the \<^emph>\<open>earth\<close> layer drives the
  hardware, the \<^emph>\<open>grass\<close> layer is the kernel, and above it run four servers, the shell among them, and the user
  applications. Two tools on the host build the disk image and the boot ROM.

  \<^bold>\<open>How the parts interact.\<close> The earth layer boots (\<^verbatim>\<open>earth/earth.c\<close>), loads the grass layer from the disk and jumps to it. The
  grass layer (\<^verbatim>\<open>grass/grass.c\<close>) loads the process server, which loads the file server, the directory server and the shell. The shell reads
  a line through the tty and sends a request to the process server; this looks the command up through the directory server, which
  reads directories through the file server, which reads its tree file system through the disk driver from the SD card. The process
  server allocates a process and loads the executable with the ELF loader into frames of the memory management unit, which keeps
  them in a cache over the paging area of the disk. Messages between processes pass through one buffer in the kernel; the timer and the
  UART enter the kernel through interrupts.

  \<^bold>\<open>Conventions.\<close> A structure or a group of static variables is a record, a function of the source a definition of the same name,
  its loops recursive functions. The state is passed explicitly. \<^verbatim>\<open>None\<close> stands for what never returns or is undefined in
  C: \<^verbatim>\<open>FATAL\<close>, a failed assertion, an endless loop, an access outside of an array. Bytes are \<^verbatim>\<open>8 word\<close>, registers and addresses \<^verbatim>\<open>32 word\<close>
  where wrap-around matters, block numbers and sizes numbers with \<^verbatim>\<open>mod\<close> written out at 32 bits. Hardware that answers reads (UART, timer,
  interrupt controller, SD card) is a stream of answers or a parameter, and whatever it may answer is covered.

  \<^bold>\<open>The theories.\<close>
  \<^item> \<open>Prelude\<close>: types, constants, 32-bit words in byte lists (\<^verbatim>\<open>get32\<close>, \<^verbatim>\<open>put32\<close>), list searches.
  \<^item> \<open>Tty\<close> (\<^verbatim>\<open>earth/dev_tty.c\<close>, \<^verbatim>\<open>earth/bus_uart.c\<close>): UART registers and the two ring buffers. The locale \<open>byte_queue\<close> is the contract
    of a bounded queue, interpreted on the ring. Input arrives in order, output leaves in order; what happens when the
    buffer is full or a length is negative.
  \<^item> \<open>Timer\<close> (\<^verbatim>\<open>earth/cpu_timer.c\<close>): the 64-bit clock is read untorn, the compare register never fires early.
  \<^item> \<open>Process\<close> (\<^verbatim>\<open>grass/process.c\<close>): the process table; fresh pids, freeing.
  \<^item> \<open>Kernel\<close> (\<^verbatim>\<open>grass/kernel.c\<close>, \<^verbatim>\<open>grass/syscall.c\<close>, \<^verbatim>\<open>grass/grass.c\<close>, \<^verbatim>\<open>earth/cpu_intr.c\<close>): traps, system calls, scheduling, Ctrl-C, the
    start of the grass layer. \<open>Ipc\<close>: the locale \<open>mailbox\<close>, interpreted on the kernel's message buffer: messages are
    transferred whole and cannot be stolen. \<open>Scheduler\<close>: the invariant of all reachable states, by rule induction over the steps of the
    system; no starvation within 16 entries. \<open>Traps\<close>: a trap keeps the contexts of the processes and always ends.
    \<open>Interrupt_Char\<close>: what Ctrl-C does.
  \<^item> \<open>Asm\<close> (\<^verbatim>\<open>earth/earth.s\<close>, \<^verbatim>\<open>grass/grass.s\<close>, \<^verbatim>\<open>apps/app.s\<close>): the entry code as lists of instructions over registers, control registers and memory;
    a trap saves the context in 116 bytes of the stack of the process and \<^verbatim>\<open>ctx_jump\<close> takes all of it back. \<open>Resume\<close> joins this with the
    kernel: a process that is interrupted and scheduled again continues where it was, with all of its registers.
  \<^item> \<open>Treedisk\<close> (\<^verbatim>\<open>library/file/file.c\<close>): the tree file system over any inode store. \<open>Treedisk_Tree\<close>, \<open>Treedisk_Edit\<close>: trees and
    free lists in an array of blocks and the elementary changes of a write. \<open>Treedisk_Correct\<close>: the locale \<open>block_store\<close>, in which reads
    and writes refine an array of files (\<open>file_of\<close>) under the invariant \<open>fs_inv\<close>, with the number of blocks a write needs.
    \<open>Treedisk_Create\<close>: creation gives an empty file system.
  \<^item> \<open>Ramdisk\<close> (the store of \<^verbatim>\<open>tools/mkfs.c\<close>) and \<open>Disk\<close> (\<^verbatim>\<open>earth/dev_disk.c\<close>, \<^verbatim>\<open>library/file/disk.c\<close>) interpret \<open>block_store\<close>: one on an
    array in memory, the other on every card that keeps the contract of \<open>sd_disk\<close>.
  \<^item> \<open>Sd\<close>, \<open>Sd_Card\<close> (\<^verbatim>\<open>earth/sd\<close>): the driver over an SPI controller; the locales \<open>spi_bus\<close> and \<open>sd_card\<close> are the contracts of the
    controller and the card. \<open>Sd_Sim\<close> is a card that keeps them, so that the hypotheses of the properties about hardware hold somewhere.
  \<^item> \<open>Paging\<close> (\<^verbatim>\<open>earth/dev_page.c\<close>): the cache of 28 frames refines a flat memory of 256 frames. \<open>Mmu\<close>, \<open>Pagetable\<close>
    (\<^verbatim>\<open>earth/cpu_mmu.c\<close>): frames, software TLB, identity page tables. An address space (\<open>aspace\<close>) maps pages to bytes; a switch
    keeps all of them, freeing a process returns exactly its frames.
  \<^item> \<open>Elf\<close> (\<^verbatim>\<open>library/elf/elf.c\<close>): the locale \<open>exec_file\<close> is the contract of a reader of an executable; the loader builds exactly the
    address space of the process. It is interpreted on flash memory, on the card, and, in \<open>Sys_Proc\<close>, on a file of the file system.
  \<^item> \<open>Boot\<close> (\<^verbatim>\<open>earth/earth.c\<close>, \<^verbatim>\<open>intr_init\<close> of \<^verbatim>\<open>earth/cpu_intr.c\<close>, \<^verbatim>\<open>tools/mkrom.c\<close>): the earth layer ends its boot with registers and
    memory as they have to be.
  \<^item> \<open>Cstring\<close>: the string functions of the C library that the rest uses. \<open>Servers\<close> (\<^verbatim>\<open>apps/system/sys_file.c\<close>, \<^verbatim>\<open>apps/system/sys_dir.c\<close>,
    \<^verbatim>\<open>library/servers\<close>): requests and replies as bytes; lookups find the entries of a directory's text.
  \<^item> \<open>Mkfs\<close> (\<^verbatim>\<open>tools/mkfs.c\<close>): the disk image, and what the servers find on a card with that image.
  \<^item> \<open>Shell\<close> (\<^verbatim>\<open>apps/system/sys_shell.c\<close>): the line editor and the parser against an abstract editor and a split into words.
  \<^item> \<open>Sys_Proc\<close> (\<^verbatim>\<open>apps/system/sys_proc.c\<close>): from a request to a ready process with the executable of the file system in memory.
    \<open>Lifecycle\<close>: the start of the servers, and sequences of commands that start and exit without losing a frame or a slot.
  \<^item> \<open>Apps\<close> (\<^verbatim>\<open>apps/user\<close>): \<^verbatim>\<open>cat\<close>, \<^verbatim>\<open>cd\<close>, \<^verbatim>\<open>echo\<close>, \<^verbatim>\<open>ls\<close>, \<^verbatim>\<open>pwd\<close>. \<open>Libc\<close> (\<^verbatim>\<open>library/libc\<close>): the heap, the output and
    the other functions that the C library calls. \<open>Programs\<close>: the way of \<^verbatim>\<open>exit\<close> from a process through the kernel to the process server, and the
    programs \<^verbatim>\<open>clock\<close>, \<^verbatim>\<open>crash1\<close>, \<^verbatim>\<open>crash2\<close> and \<^verbatim>\<open>ult\<close>.
  \<^item> At the end of this theory: from the keys typed at the shell to the memory of the process, through the line editor, the parser,
    the process server, the directory and file servers, the file system, the driver of the card and the loader.

  \<^bold>\<open>Bounds.\<close> Loops whose end depends on the hardware are \<^verbatim>\<open>partial_function (option)\<close>; that they end is a theorem under a
  hypothesis on the hardware (the UART takes a character, the card answers, a key is pressed). There is no fuel. The file system
  theorems hold for the 4096 blocks and at most 64 * 64 inodes of a store below 2 MB; trees have at most five levels.
  A new process needs five frames. Commands and names are at most 31 characters, as the arrays of the source say.

  \<^bold>\<open>Not modelled.\<close> The linker scripts: the addresses of the entry points and of the code that a handler returns to are arguments of the
  definitions in \<open>Asm\<close>, and what the compiler makes of the C handlers between the entry code and \<^verbatim>\<open>ctx_jump\<close> is the hypothesis that they keep the
  saved context. The formatting of \<^verbatim>\<open>printf\<close>, \<^verbatim>\<open>malloc\<close> and \<^verbatim>\<open>rand\<close>, which belong to the C library of the compiler: definitions that use
  them take the resulting bytes or addresses. The functions of \<^verbatim>\<open>ult\<close> that are left empty as an exercise, and its threads with them: the model has
  the turns of its producers and consumers. The prompt of the shell and messages of the tools. In \<open>Sys_Proc\<close> the switches of address
  spaces during the messages of the server are not part of the state, and the message buffer of \<open>Ipc\<close> is replaced by the bytes it
  delivers. Caches and the order of memory accesses of the processor.
\<close>

subsection \<open>Components together\<close>



end
